(* ===== verification/Prelude.thy ===== *)
theory Prelude
  imports Main "HOL-Library.Word"
begin

text \<open>
  What the components share: the machine integer types of \<open>inc/types.h\<close>, the result type of code
  that may panic, the rounding macros, null-terminated chains of links (the free lists of the
  kernel), bit lemmas on 32-bit words, and the contract of a pool of free resources, which the
  page allocator, the environment table and the disk block bitmap all meet.
\<close>

unbundle bit_operations_syntax

section \<open>Machine integers\<close>

type_synonym u8 = "8 word"
type_synonym u16 = "16 word"
type_synonym u32 = "32 word"
type_synonym u64 = "64 word"

text \<open>
  \<open>ROUNDDOWN(a, n)\<close> and \<open>ROUNDUP(a, n)\<close> of \<open>inc/types.h\<close>: unsigned 32-bit arithmetic, so
  rounding up wraps around at the top of the address space.
\<close>

definition ROUNDDOWN :: "u32 \<Rightarrow> u32 \<Rightarrow> u32" where
  "ROUNDDOWN a n = a - a mod n"

definition ROUNDUP :: "u32 \<Rightarrow> u32 \<Rightarrow> u32" where
  "ROUNDUP a n = ROUNDDOWN (a + n - 1) n"

section \<open>Results of code that may panic\<close>

text \<open>
  A computation either returns a value, with the new state in it, or stops in a \<open>panic()\<close> or a
  failed \<open>assert()\<close>. Each program (the kernel, the file server, ...) has its own datatype \<open>'e\<close>
  of panics, with a constructor for every one of its sources.
\<close>

datatype ('e, 'a) res = Ok 'a | Panic 'e

definition bind_res :: "('e, 'a) res \<Rightarrow> ('a \<Rightarrow> ('e, 'b) res) \<Rightarrow> ('e, 'b) res" where
  "bind_res m f = (case m of Ok x \<Rightarrow> f x | Panic p \<Rightarrow> Panic p)"

lemma bind_res_simps [simp]:
  "bind_res (Ok x) f = f x"
  "bind_res (Panic p) f = Panic p"
  by (simp_all add: bind_res_def)

lemma bind_res_eq_Ok: "bind_res m f = Ok y \<longleftrightarrow> (\<exists>x. m = Ok x \<and> f x = Ok y)"
  by (cases m) simp_all

lemma bind_res_cong [fundef_cong]:
  "m = m' \<Longrightarrow> (\<And>x. m' = Ok x \<Longrightarrow> f x = f' x) \<Longrightarrow> bind_res m f = bind_res m' f'"
  by (cases m') simp_all

lemma bind_res_assoc: "bind_res (bind_res m f) g = bind_res m (\<lambda>x. bind_res (f x) g)"
  by (cases m) simp_all

text \<open>A loop over a list of indexes whose body may panic.\<close>

fun fold_res :: "('a \<Rightarrow> 's \<Rightarrow> ('e, 's) res) \<Rightarrow> 'a list \<Rightarrow> 's \<Rightarrow> ('e, 's) res" where
  "fold_res f [] s = Ok s"
| "fold_res f (x # xs) s = bind_res (f x s) (fold_res f xs)"

lemma fold_res_append: "fold_res f (xs @ ys) s = bind_res (fold_res f xs s) (fold_res f ys)"
  by (induction xs arbitrary: s) (simp_all add: bind_res_def split: res.split)

text \<open>An invariant of the body that also keeps it from panicking is one of the loop.\<close>

lemma fold_res_invariant:
  assumes "\<And>x s. x \<in> set xs \<Longrightarrow> P s \<Longrightarrow> \<exists>s'. f x s = Ok s' \<and> P s'" and "P s"
  shows "\<exists>s'. fold_res f xs s = Ok s' \<and> P s'"
  using assms
proof (induction xs arbitrary: s)
  case (Cons x xs)
  then obtain s1 where "f x s = Ok s1" "P s1" by fastforce
  with Cons show ?case by simp
qed simp

section \<open>Error codes\<close>

text \<open>The codes of \<open>inc/error.h\<close>; functions return them negated in an \<open>int\<close>.\<close>

named_theorems err_defs \<open>the error codes\<close>

definition E_UNSPECIFIED :: int where [err_defs]: "E_UNSPECIFIED = 1"
definition E_BAD_ENV :: int where [err_defs]: "E_BAD_ENV = 2"
definition E_INVAL :: int where [err_defs]: "E_INVAL = 3"
definition E_NO_MEM :: int where [err_defs]: "E_NO_MEM = 4"
definition E_NO_FREE_ENV :: int where [err_defs]: "E_NO_FREE_ENV = 5"
definition E_FAULT :: int where [err_defs]: "E_FAULT = 6"
definition E_IPC_NOT_RECV :: int where [err_defs]: "E_IPC_NOT_RECV = 7"
definition E_EOF :: int where [err_defs]: "E_EOF = 8"
definition E_NO_DISK :: int where [err_defs]: "E_NO_DISK = 9"
definition E_MAX_OPEN :: int where [err_defs]: "E_MAX_OPEN = 10"
definition E_NOT_FOUND :: int where [err_defs]: "E_NOT_FOUND = 11"
definition E_BAD_PATH :: int where [err_defs]: "E_BAD_PATH = 12"
definition E_FILE_EXISTS :: int where [err_defs]: "E_FILE_EXISTS = 13"
definition E_NOT_EXEC :: int where [err_defs]: "E_NOT_EXEC = 14"
definition E_NOT_SUPP :: int where [err_defs]: "E_NOT_SUPP = 15"
definition E_AGAIN :: int where [err_defs]: "E_AGAIN = 16"
definition MAXERROR :: int where [err_defs]: "MAXERROR = 17"

section \<open>Null-terminated chains\<close>

text \<open>
  \<open>chain lnk p xs\<close>: following the links \<open>lnk\<close> from \<open>p\<close> visits exactly \<open>xs\<close> and ends in the null
  pointer. \<open>walk\<close> computes that list for chains of at most \<open>n\<close> elements.
\<close>

primrec chain :: "('a \<Rightarrow> 'a option) \<Rightarrow> 'a option \<Rightarrow> 'a list \<Rightarrow> bool" where
  "chain lnk p [] \<longleftrightarrow> p = None"
| "chain lnk p (x # xs) \<longleftrightarrow> p = Some x \<and> chain lnk (lnk x) xs"

primrec walk :: "nat \<Rightarrow> ('a \<Rightarrow> 'a option) \<Rightarrow> 'a option \<Rightarrow> 'a list" where
  "walk 0 lnk p = []"
| "walk (Suc n) lnk p = (case p of None \<Rightarrow> [] | Some x \<Rightarrow> x # walk n lnk (lnk x))"

lemma chain_None [simp]: "chain lnk None xs \<longleftrightarrow> xs = []"
  by (cases xs) simp_all

lemma chain_Some: "chain lnk (Some x) xs \<longleftrightarrow> (\<exists>ys. xs = x # ys \<and> chain lnk (lnk x) ys)"
  by (cases xs) auto

lemma chain_functional: "chain lnk p xs \<Longrightarrow> chain lnk p ys \<Longrightarrow> xs = ys"
proof (induction xs arbitrary: p ys)
  case (Cons x xs)
  then show ?case by (cases ys) auto
qed simp

lemma chain_cong:
  "chain lnk p xs \<Longrightarrow> (\<And>x. x \<in> set xs \<Longrightarrow> lnk' x = lnk x) \<Longrightarrow> chain lnk' p xs"
  by (induction xs arbitrary: p) auto

lemma chain_suffix: "chain lnk p (xs @ x # ys) \<Longrightarrow> chain lnk (Some x) (x # ys)"
  by (induction xs arbitrary: p) auto

text \<open>A chain that ends cannot meet an element twice.\<close>

lemma chain_distinct: "chain lnk p xs \<Longrightarrow> distinct xs"
proof (induction xs arbitrary: p)
  case (Cons x xs)
  have "x \<notin> set xs"
  proof
    assume "x \<in> set xs"
    then obtain us vs where xs: "xs = us @ x # vs" by (auto dest: split_list)
    from Cons.prems have "chain lnk (lnk x) xs" by simp
    then have "chain lnk (Some x) (x # vs)" unfolding xs by (rule chain_suffix)
    then have "chain lnk (lnk x) vs" by simp
    with \<open>chain lnk (lnk x) xs\<close> have "xs = vs" by (rule chain_functional)
    with xs show False by simp
  qed
  with Cons show ?case by auto
qed simp

lemma walk_chain: "chain lnk p xs \<Longrightarrow> length xs \<le> n \<Longrightarrow> walk n lnk p = xs"
proof (induction xs arbitrary: p n)
  case Nil
  then show ?case by (cases n) simp_all
next
  case (Cons x xs)
  then show ?case by (cases n) simp_all
qed

lemma chain_walk_bounded:
  assumes "chain lnk p xs" and "set xs \<subseteq> {..<n}"
  shows "walk n lnk p = xs"
proof (rule walk_chain [OF assms(1)])
  have "length xs = card (set xs)"
    using chain_distinct [OF assms(1)] by (simp add: distinct_card)
  also have "\<dots> \<le> card {..<n}" using assms(2) by (rule card_mono [rotated]) simp
  finally show "length xs \<le> n" by simp
qed

section \<open>Pools of free resources\<close>

text \<open>
  The contract of an allocator. \<open>allocs s r s'\<close>: an allocation in state \<open>s\<close> hands out \<open>r\<close> and
  leaves \<open>s'\<close>; \<open>fails s\<close>: it reports that nothing is left; \<open>frees r s s'\<close>: giving \<open>r\<close> back in \<open>s\<close>
  leaves \<open>s'\<close>, which the caller may do when \<open>may_free r s\<close>.
\<close>

locale resource_pool =
  fixes allocs :: "'s \<Rightarrow> 'r \<Rightarrow> 's \<Rightarrow> bool"
    and fails :: "'s \<Rightarrow> bool"
    and frees :: "'r \<Rightarrow> 's \<Rightarrow> 's \<Rightarrow> bool"
    and may_free :: "'r \<Rightarrow> 's \<Rightarrow> bool"
    and free_of :: "'s \<Rightarrow> 'r set"
    and inv :: "'s \<Rightarrow> bool"
  assumes alloc_takes: "inv s \<Longrightarrow> allocs s r s' \<Longrightarrow> r \<in> free_of s \<and> free_of s' = free_of s - {r}"
    and alloc_inv: "inv s \<Longrightarrow> allocs s r s' \<Longrightarrow> inv s'"
    and alloc_progress: "inv s \<Longrightarrow> fails s \<or> (\<exists>r s'. allocs s r s')"
    and fails_iff: "inv s \<Longrightarrow> fails s \<longleftrightarrow> free_of s = {}"
    and free_progress: "inv s \<Longrightarrow> may_free r s \<Longrightarrow> \<exists>s'. frees r s s'"
    and free_gives: "inv s \<Longrightarrow> may_free r s \<Longrightarrow> frees r s s' \<Longrightarrow> free_of s' = insert r (free_of s)"
    and free_inv: "inv s \<Longrightarrow> may_free r s \<Longrightarrow> frees r s s' \<Longrightarrow> inv s'"
begin

text \<open>A run of allocations, with what they hand out in order.\<close>

inductive alloc_run :: "'s \<Rightarrow> 'r list \<Rightarrow> 's \<Rightarrow> bool" where
  run_nil: "alloc_run s [] s"
| run_cons: "allocs s r s' \<Longrightarrow> alloc_run s' rs s'' \<Longrightarrow> alloc_run s (r # rs) s''"

lemma alloc_run_takes:
  "alloc_run s rs s' \<Longrightarrow> inv s \<Longrightarrow>
    inv s' \<and> distinct rs \<and> set rs \<subseteq> free_of s \<and> free_of s' = free_of s - set rs"
proof (induction rule: alloc_run.induct)
  case (run_cons s r s' rs s'')
  then have "inv s'" "r \<in> free_of s" "free_of s' = free_of s - {r}"
    using alloc_takes alloc_inv by blast+
  with run_cons.IH show ?case by auto
qed simp

lemma alloc_run_exists:
  "inv s \<Longrightarrow> finite (free_of s) \<Longrightarrow> n \<le> card (free_of s) \<Longrightarrow> \<exists>rs s'. length rs = n \<and> alloc_run s rs s'"
proof (induction n arbitrary: s)
  case 0
  have "length ([] :: 'r list) = 0 \<and> alloc_run s [] s" by (simp add: run_nil)
  then show ?case by blast
next
  case (Suc n)
  then have "free_of s \<noteq> {}" by auto
  then obtain r s' where step: "allocs s r s'"
    using alloc_progress [OF Suc.prems(1)] fails_iff [OF Suc.prems(1)] by blast
  then have next_state: "inv s'" "r \<in> free_of s" "free_of s' = free_of s - {r}"
    using alloc_takes alloc_inv Suc.prems(1) by blast+
  with Suc.prems have "finite (free_of s')" "n \<le> card (free_of s')" by auto
  with Suc.IH next_state(1) obtain rs s'' where "length rs = n" "alloc_run s' rs s''" by blast
  then have "length (r # rs) = Suc n \<and> alloc_run s (r # rs) s''"
    using step by (simp add: run_cons)
  then show ?case by blast
qed

lemma free_then_alloc:
  assumes "inv s" "may_free r s" "frees r s s'"
  shows "\<not> fails s' \<and> (\<exists>r' s''. allocs s' r' s'')"
proof -
  have "inv s'" "free_of s' \<noteq> {}" using assms free_inv free_gives by blast+
  then show ?thesis using fails_iff alloc_progress by blast
qed

end

section \<open>Ring buffers and bounded queues\<close>

text \<open>
  The elements of a ring buffer of \<open>n\<close> cells from the read position \<open>r\<close> up to the write position
  \<open>w\<close>; equal positions mean empty, so it holds at most \<open>n - 1\<close> elements.
\<close>

definition ring :: "(nat \<Rightarrow> 'a) \<Rightarrow> nat \<Rightarrow> nat \<Rightarrow> nat \<Rightarrow> 'a list" where
  "ring buf n r w = map (\<lambda>k. buf ((r + k) mod n)) [0..<(w + n - r) mod n]"

lemma ring_offset:
  assumes "r < n" "w < n"
  shows "(r + (w + n - r) mod n) mod n = (w :: nat)"
proof -
  have "(r + (w + n - r) mod n) mod n = (r + (w + n - r)) mod n" by (simp add: mod_add_right_eq)
  also have "r + (w + n - r) = w + n" using assms by simp
  finally show ?thesis using assms by simp
qed

lemma ring_index_less:
  assumes "r < n" "k < n" "j < n" "(r + k) mod n = (r + j) mod n"
  shows "k = (j :: nat)"
proof -
  have m: "(r + i) mod n = (if r + i < n then r + i else r + i - n)" if "i < n" for i
    using that assms(1) by (auto simp: mod_if)
  show ?thesis using assms(4) m [OF assms(2)] m [OF assms(3)] assms(1-3) by (auto split: if_splits)
qed

lemma length_ring [simp]: "length (ring buf n r w) = (w + n - r) mod n"
  by (simp add: ring_def)

lemma ring_push:
  assumes "r < n" "w < n" "length (ring buf n r w) < n - 1"
  shows "ring (buf(w := x)) n r ((w + 1) mod n) = ring buf n r w @ [x]"
proof -
  let ?l = "(w + n - r) mod n"
  have "((w + 1) mod n + n - r) mod n = ((w + 1) mod n + (n - r)) mod n" using assms(1) by simp
  also have "\<dots> = (w + 1 + (n - r)) mod n" by (simp add: mod_add_left_eq)
  also have "\<dots> = ((w + (n - r)) mod n + 1) mod n" by (simp add: mod_add_left_eq ac_simps mod_Suc_eq)
  also have "\<dots> = (?l + 1) mod n" using assms(1) by simp
  finally have len: "((w + 1) mod n + n - r) mod n = ?l + 1" using assms(3) by simp
  have "(r + k) mod n \<noteq> w" if "k < ?l" for k
    using ring_index_less [OF assms(1), of k ?l] ring_offset [OF assms(1,2)] that assms(3) by auto
  then have "map (\<lambda>k. (buf(w := x)) ((r + k) mod n)) [0..<?l] = ring buf n r w"
    by (simp add: ring_def)
  moreover have "(r + ?l) mod n = w" by (rule ring_offset [OF assms(1,2)])
  ultimately show ?thesis unfolding ring_def [of "buf(w := x)"] len by simp
qed

lemma ring_pop:
  assumes "r < n" "w < n" "r \<noteq> w"
  shows "ring buf n r w = buf r # ring buf n ((r + 1) mod n) w"
proof -
  let ?r = "(r + 1) mod n"
  have pos: "(w + n - r) mod n \<noteq> 0"
    using ring_offset [OF assms(1,2)] assms(1,3) by (metis add.right_neutral mod_less)
  have r': "?r = (if r + 1 = n then 0 else r + 1)" using assms(1) by (auto simp: mod_if)
  have "(w + n - ?r) mod n + 1 = (w + n - r) mod n"
  proof (cases "w < r")
    case True
    then show ?thesis using assms r' by (auto simp: mod_if split: if_splits)
  next
    case False
    then show ?thesis using assms r' by (auto simp: mod_if split: if_splits)
  qed
  then have len: "(w + n - r) mod n = Suc ((w + n - ?r) mod n)" by simp
  have "(r + Suc k) mod n = (?r + k) mod n" for k by (simp add: mod_add_left_eq)
  then show ?thesis
    unfolding ring_def len using assms(1) by (simp add: upt_conv_Cons map_Suc_upt [symmetric] comp_def del: upt_Suc)
qed

text \<open>A word below the sign bit, read as signed.\<close>

lemma sint_small: "unat (c :: u32) < 2 ^ 31 \<Longrightarrow> sint c = int (unat c)"
proof -
  assume c: "unat c < 2 ^ 31"
  have "int (unat c) < int (2 ^ 31)" using c by (simp only: of_nat_less_iff)
  then have "uint c < 2 ^ 31" by simp
  moreover have "- (2 ^ 31) \<le> uint c" by (rule order.trans [OF _ uint_ge_0]) simp
  ultimately have "signed_take_bit 31 (uint c) = uint c" by (simp only: signed_take_bit_int_eq_self_iff)
  then show ?thesis using sint_uint [of c] by simp
qed

text \<open>
  The contract of a bounded first-in first-out queue: what its operations do to the list of its
  elements while there is room.
\<close>

locale bounded_fifo =
  fixes content :: "'s \<Rightarrow> 'a list" and inv :: "'s \<Rightarrow> bool" and room :: nat
    and push :: "'a \<Rightarrow> 's \<Rightarrow> 's" and pop :: "'s \<Rightarrow> 'a \<times> 's"
  assumes push_content: "inv s \<Longrightarrow> length (content s) < room \<Longrightarrow> content (push a s) = content s @ [a]"
    and push_inv: "inv s \<Longrightarrow> inv (push a s)"
    and pop_content: "inv s \<Longrightarrow> content s \<noteq> [] \<Longrightarrow>
      fst (pop s) = hd (content s) \<and> content (snd (pop s)) = tl (content s)"
    and pop_inv: "inv s \<Longrightarrow> inv (snd (pop s))"
begin

lemma push_all:
  assumes "inv s" "length (content s) + length xs \<le> room"
  shows "inv (fold push xs s) \<and> content (fold push xs s) = content s @ xs"
  using assms
proof (induction xs arbitrary: s)
  case (Cons x xs)
  then have "content (push x s) = content s @ [x]" by (intro push_content) simp_all
  with Cons.IH [of "push x s"] Cons.prems push_inv show ?case by simp
qed simp

primrec pops :: "nat \<Rightarrow> 's \<Rightarrow> 'a list \<times> 's" where
  "pops 0 s = ([], s)"
| "pops (Suc n) s = (let (x, s) = pop s; (xs, s) = pops n s in (x # xs, s))"

lemma pops_content:
  assumes "inv s" "n \<le> length (content s)"
  shows "fst (pops n s) = take n (content s) \<and> content (snd (pops n s)) = drop n (content s)
    \<and> inv (snd (pops n s))"
  using assms
proof (induction n arbitrary: s)
  case (Suc n)
  then have ne: "content s \<noteq> []" by auto
  obtain x s1 where pop: "pop s = (x, s1)" by (cases "pop s")
  with pop_content [OF Suc.prems(1) ne] pop_inv [OF Suc.prems(1)]
  have s1: "x = hd (content s)" "content s1 = tl (content s)" "inv s1" by simp_all
  with Suc.IH [of s1] Suc.prems(2) have "fst (pops n s1) = take n (tl (content s))"
    "content (snd (pops n s1)) = drop n (tl (content s))" "inv (snd (pops n s1))" by simp_all
  with pop s1 ne show ?case by (auto simp: Let_def split: prod.split) (auto simp: neq_Nil_conv)
qed simp

text \<open>What goes in comes out in order.\<close>

lemma pushed_then_popped:
  assumes "inv s" "content s = []" "length xs \<le> room"
  shows "fst (pops (length xs) (fold push xs s)) = xs"
  using push_all [OF assms(1), of xs] pops_content [of "fold push xs s" "length xs"] assms(2,3) by simp

end

end
