(* ===== verification/Mmu.thy ===== *)
theory Mmu
  imports Prelude
begin

text \<open>
  The paging constants and address macros of \<open>inc/mmu.h\<close> and the layout of the address space of
  \<open>inc/memlayout.h\<close>, with the lemmas that take a linear address apart and put a page table entry
  together. Page numbers, directory indexes and table indexes are natural numbers; addresses and
  entries are 32-bit words.
\<close>

section \<open>Definitions\<close>

named_theorems mmu_defs \<open>the constants of mmu.h and memlayout.h\<close>

definition PGSIZE :: u32 where [mmu_defs]: "PGSIZE = 4096"
definition PTSIZE :: u32 where [mmu_defs]: "PTSIZE = 0x400000"
definition NPDENTRIES :: nat where [mmu_defs]: "NPDENTRIES = 1024"
definition NPTENTRIES :: nat where [mmu_defs]: "NPTENTRIES = 1024"

definition PTE_P :: u32 where [mmu_defs]: "PTE_P = 0x001"
definition PTE_W :: u32 where [mmu_defs]: "PTE_W = 0x002"
definition PTE_U :: u32 where [mmu_defs]: "PTE_U = 0x004"
definition PTE_PWT :: u32 where [mmu_defs]: "PTE_PWT = 0x008"
definition PTE_PCD :: u32 where [mmu_defs]: "PTE_PCD = 0x010"
definition PTE_D :: u32 where [mmu_defs]: "PTE_D = 0x040"
definition PTE_PS :: u32 where [mmu_defs]: "PTE_PS = 0x080"
definition PTE_AVAIL :: u32 where [mmu_defs]: "PTE_AVAIL = 0xE00"
definition PTE_SYSCALL :: u32 where
  [mmu_defs]: "PTE_SYSCALL = PTE_AVAIL OR PTE_P OR PTE_W OR PTE_U"

definition PGNUM :: "u32 \<Rightarrow> nat" where
  "PGNUM la = unat (drop_bit 12 la)"

definition PDX :: "u32 \<Rightarrow> nat" where
  "PDX la = unat (drop_bit 22 la AND 0x3FF)"

definition PTX :: "u32 \<Rightarrow> nat" where
  "PTX la = unat (drop_bit 12 la AND 0x3FF)"

definition PGOFF :: "u32 \<Rightarrow> u32" where
  "PGOFF la = la AND 0xFFF"

definition PGADDR :: "nat \<Rightarrow> nat \<Rightarrow> u32 \<Rightarrow> u32" where
  "PGADDR d t ofs = push_bit 22 (of_nat d) OR push_bit 12 (of_nat t) OR ofs"

definition PTE_ADDR :: "u32 \<Rightarrow> u32" where
  "PTE_ADDR pte = pte AND NOT 0xFFF"

definition KERNBASE :: u32 where [mmu_defs]: "KERNBASE = 0xF0000000"
definition IOPHYSMEM :: u32 where [mmu_defs]: "IOPHYSMEM = 0x0A0000"
definition EXTPHYSMEM :: u32 where [mmu_defs]: "EXTPHYSMEM = 0x100000"
definition KSTACKTOP :: u32 where [mmu_defs]: "KSTACKTOP = KERNBASE"
definition KSTKSIZE :: u32 where [mmu_defs]: "KSTKSIZE = 8 * PGSIZE"
definition KSTKGAP :: u32 where [mmu_defs]: "KSTKGAP = 8 * PGSIZE"
definition MMIOLIM :: u32 where [mmu_defs]: "MMIOLIM = KSTACKTOP - PTSIZE"
definition MMIOBASE :: u32 where [mmu_defs]: "MMIOBASE = MMIOLIM - PTSIZE"
definition ULIM :: u32 where [mmu_defs]: "ULIM = MMIOBASE"
definition UVPT :: u32 where [mmu_defs]: "UVPT = ULIM - PTSIZE"
definition UPAGES :: u32 where [mmu_defs]: "UPAGES = UVPT - PTSIZE"
definition UENVS :: u32 where [mmu_defs]: "UENVS = UPAGES - PTSIZE"
definition UTOP :: u32 where [mmu_defs]: "UTOP = UENVS"
definition UXSTACKTOP :: u32 where [mmu_defs]: "UXSTACKTOP = UTOP"
definition USTACKTOP :: u32 where [mmu_defs]: "USTACKTOP = UTOP - 2 * PGSIZE"
definition MPENTRY_PADDR :: u32 where [mmu_defs]: "MPENTRY_PADDR = 0x7000"

definition GD_KT :: u16 where [mmu_defs]: "GD_KT = 0x08"
definition GD_KD :: u16 where [mmu_defs]: "GD_KD = 0x10"
definition GD_UT :: u16 where [mmu_defs]: "GD_UT = 0x18"
definition GD_UD :: u16 where [mmu_defs]: "GD_UD = 0x20"
definition GD_TSS0 :: u16 where [mmu_defs]: "GD_TSS0 = 0x28"

definition FL_IF :: u32 where [mmu_defs]: "FL_IF = 0x00000200"
definition FL_IOPL_MASK :: u32 where [mmu_defs]: "FL_IOPL_MASK = 0x00003000"
definition FL_IOPL_0 :: u32 where [mmu_defs]: "FL_IOPL_0 = 0x00000000"

section \<open>Addresses taken apart\<close>

lemma unat_u32_less: "unat (x :: u32) < 4294967296"
  using unsigned_less [of x, where ?'a = nat] by simp

lemma mask10: "(0x3FF :: u32) = mask 10" and mask12: "(0xFFF :: u32) = mask 12"
  by (simp_all add: mask_eq_exp_minus_1)

lemma PGNUM_div: "PGNUM la = unat la div 4096"
  by (simp only: PGNUM_def unat_drop_bit_eq) (simp add: drop_bit_eq_div)

lemma PDX_div: "PDX la = unat la div 4194304"
proof -
  have "unat la div 4194304 < 1024" using unat_u32_less [of la] by simp
  then show ?thesis
    by (simp only: PDX_def mask10 flip: take_bit_eq_mask)
       (simp add: take_bit_eq_mod drop_bit_eq_div unat_mod_distrib unat_div_distrib)
qed

lemma PTX_div: "PTX la = unat la div 4096 mod 1024"
  by (simp only: PTX_def mask10 flip: take_bit_eq_mask)
     (simp add: take_bit_eq_mod drop_bit_eq_div unat_mod_distrib unat_div_distrib)

lemma PGOFF_mod: "unat (PGOFF la) = unat la mod 4096"
  by (simp only: PGOFF_def mask12 flip: take_bit_eq_mask)
     (simp add: take_bit_eq_mod unat_mod_distrib)

lemma PDX_less [simp]: "PDX la < 1024"
  using unat_u32_less [of la] by (simp add: PDX_div)

lemma PTX_less [simp]: "PTX la < 1024"
  by (simp add: PTX_div)

lemma PGNUM_less [simp]: "PGNUM la < 1048576"
  using unat_u32_less [of la] by (simp add: PGNUM_div)

text \<open>A page table or directory is found again from the address that its indexes make up.\<close>

lemma PDX_PTX_inject:
  assumes "PDX va = PDX va'" "PTX va = PTX va'"
  shows "PGNUM va = PGNUM va'"
proof -
  have "unat va div 4096 = 1024 * PDX va + PTX va" for va :: u32
    by (simp add: PDX_div PTX_div) (simp add: div_mult2_eq [of _ 4096 1024, simplified])
  with assms show ?thesis by (simp add: PGNUM_div)
qed

section \<open>Page table entries put together\<close>

text \<open>A word of permission bits only: nothing in the address part of an entry.\<close>

definition low12 :: "u32 \<Rightarrow> bool" where
  "low12 perm \<longleftrightarrow> drop_bit 12 perm = 0"

lemma u32_bit_less: "bit (w :: u32) n \<Longrightarrow> n < 32"
  using bit_imp_le_length by fastforce

lemma low12_iff: "low12 perm \<longleftrightarrow> (\<forall>n\<ge>12. \<not> bit perm n)"
proof
  assume "low12 perm"
  then have "\<not> bit (drop_bit 12 perm) (n - 12)" for n by (simp add: low12_def)
  then have "\<not> bit perm (12 + (n - 12))" for n by (simp add: bit_drop_bit_eq)
  then show "\<forall>n\<ge>12. \<not> bit perm n" by (metis le_add_diff_inverse)
next
  assume "\<forall>n\<ge>12. \<not> bit perm n"
  then show "low12 perm" unfolding low12_def by (intro bit_eqI) (simp add: bit_drop_bit_eq)
qed

lemma low12_unat: "low12 perm \<longleftrightarrow> unat perm < 4096"
proof -
  have "drop_bit 12 perm = 0 \<longleftrightarrow> unat (drop_bit 12 perm) = 0" by (simp add: unat_eq_zero)
  also have "\<dots> \<longleftrightarrow> unat perm div 4096 = 0"
    by (simp only: unat_drop_bit_eq) (simp add: drop_bit_eq_div)
  finally show ?thesis by (simp add: low12_def div_eq_0_iff)
qed

lemma low12_flags [simp]:
  "low12 0" "low12 PTE_P" "low12 PTE_W" "low12 PTE_U" "low12 PTE_PWT" "low12 PTE_PCD"
  "low12 PTE_D" "low12 PTE_AVAIL" "low12 PTE_SYSCALL"
  by (simp_all add: low12_def mmu_defs)

lemma low12_OR [simp]: "low12 (a OR b) \<longleftrightarrow> low12 a \<and> low12 b"
  by (auto simp: low12_iff bit_simps)

lemma low12_AND [simp]: "low12 b \<Longrightarrow> low12 (a AND b)"
  by (auto simp: low12_iff bit_simps)

lemma low12_within: "perm AND NOT b = 0 \<Longrightarrow> low12 b \<Longrightarrow> low12 perm"
  unfolding low12_iff bit_eq_iff [of _ 0] by (auto simp: bit_simps dest: u32_bit_less)

text \<open>
  \<open>page2pa\<close> of \<open>kern/pmap.h\<close>: the physical address of page \<open>pp\<close>, where a \<open>struct PageInfo *\<close>
  is represented by its index in \<open>pages[]\<close>.
\<close>

definition page2pa :: "nat \<Rightarrow> u32" where
  "page2pa pp = push_bit 12 (of_nat pp)"

lemma unat_page2pa: "pp < 1048576 \<Longrightarrow> unat (page2pa pp) = pp * 4096"
  by (simp add: page2pa_def push_bit_eq_mult unat_word_ariths unat_of_nat)

lemma PGNUM_page2pa [simp]: "pp < 1048576 \<Longrightarrow> PGNUM (page2pa pp) = pp"
  by (simp add: PGNUM_div unat_page2pa)

lemma PGNUM_PTE_ADDR [simp]: "PGNUM (PTE_ADDR pte) = PGNUM pte"
  unfolding PGNUM_def PTE_ADDR_def mask12
  by (rule arg_cong [where f = unat], rule bit_eqI) (auto simp: bit_simps dest: u32_bit_less)

lemma PGNUM_OR_low12 [simp]: "low12 perm \<Longrightarrow> PGNUM (pa OR perm) = PGNUM pa"
  by (simp add: PGNUM_def low12_def)

lemma page2pa_flag [simp]: "low12 b \<Longrightarrow> (page2pa pp OR perm) AND b = perm AND b"
  unfolding low12_iff bit_eq_iff page2pa_def by (auto simp: bit_simps)

lemma PTE_P_OR [simp]: "(pte OR PTE_P) AND PTE_P \<noteq> 0"
proof -
  have "bit ((pte OR PTE_P) AND PTE_P) 0" by (simp add: bit_simps mmu_defs)
  then show ?thesis by fastforce
qed

section \<open>Rounding to pages\<close>

lemma unat_ROUNDDOWN: "unat (ROUNDDOWN a PGSIZE) = unat a - unat a mod 4096"
proof -
  have "a mod PGSIZE \<le> a" by (simp add: word_le_nat_alt unat_mod_distrib)
  then show ?thesis by (simp add: ROUNDDOWN_def unat_sub unat_mod_distrib mmu_defs)
qed

lemma unat_ROUNDUP:
  assumes "unat a + 4095 < 4294967296"
  shows "unat (ROUNDUP a PGSIZE) = (unat a + 4095) div 4096 * 4096"
proof -
  have eq: "a + PGSIZE - 1 = a + 4095" by (simp add: mmu_defs)
  have "unat (a + PGSIZE - 1) = unat a + 4095"
    unfolding eq using assms by (simp add: unat_word_ariths)
  then show ?thesis
    by (simp add: ROUNDUP_def unat_ROUNDDOWN minus_mod_eq_div_mult)
qed

lemma ROUNDDOWN_aligned: "unat (ROUNDDOWN b PGSIZE) mod 4096 = 0"
  by (simp add: unat_ROUNDDOWN minus_mod_eq_div_mult)

lemma ROUNDUP_aligned: "unat (ROUNDUP b PGSIZE) mod 4096 = 0"
  by (simp add: ROUNDUP_def ROUNDDOWN_aligned)

lemma ROUNDUP_of_aligned:
  assumes "unat b mod 4096 = 0"
  shows "ROUNDUP b PGSIZE = b"
proof -
  obtain k where k: "unat b = 4096 * k" using assms by (auto simp: mod_eq_0_iff_dvd)
  with unat_u32_less [of b] have "unat b + 4095 < 4294967296" by simp
  then have "unat (ROUNDUP b PGSIZE) = (unat b + 4095) div 4096 * 4096" by (rule unat_ROUNDUP)
  also have "\<dots> = unat b" by (simp add: k)
  finally show ?thesis by (simp add: word_unat_eq_iff)
qed

end
