(* ===== verification/Console.thy ===== *)
theory Console
  imports Prelude
begin

text \<open>
  The console of \<open>kern/console.c\<close>: the keyboard decoder, the circular input buffer that the
  keyboard and the serial port feed, and the text-mode display. What the devices deliver is part of
  the state: the bytes waiting in the serial port, and the pairs of a status and a data byte that
  the keyboard controller is going to show. What is sent to the serial port and to the parallel
  port is logged. The register set-up of the devices (\<open>serial_init\<close>, \<open>cga_init\<close>, \<open>kbd_init\<close>) and
  the delay loops are not modelled.
\<close>

section \<open>Definitions\<close>

record console =
  cons_buf :: "nat \<Rightarrow> u8"          \<comment> \<open>the struct cons\<close>
  rpos :: nat
  wpos :: nat
  serial_exists :: bool
  serial_rx :: "u8 list"
  kbd_rx :: "(u8 \<times> u8) list"
  kbd_shift :: u32                 \<comment> \<open>the static variable shift of kbd_proc_data\<close>
  crt_buf :: "nat \<Rightarrow> u16"
  crt_pos :: u16
  serial_tx :: "u8 list"
  lpt_tx :: "u8 list"

definition CONSBUFSIZE :: nat where "CONSBUFSIZE = 512"
definition CRT_COLS :: u16 where "CRT_COLS = 80"
definition CRT_SIZE :: u16 where "CRT_SIZE = 25 * 80"

definition KEY_HOME :: u8 where "KEY_HOME = 0xE0"
definition KEY_END :: u8 where "KEY_END = 0xE1"
definition KEY_UP :: u8 where "KEY_UP = 0xE2"
definition KEY_DN :: u8 where "KEY_DN = 0xE3"
definition KEY_LF :: u8 where "KEY_LF = 0xE4"
definition KEY_RT :: u8 where "KEY_RT = 0xE5"
definition KEY_PGUP :: u8 where "KEY_PGUP = 0xE6"
definition KEY_PGDN :: u8 where "KEY_PGDN = 0xE7"
definition KEY_INS :: u8 where "KEY_INS = 0xE8"
definition KEY_DEL :: u8 where "KEY_DEL = 0xE9"

definition SHIFT :: u32 where "SHIFT = 1"
definition CTL :: u32 where "CTL = 2"
definition ALT :: u32 where "ALT = 4"
definition CAPSLOCK :: u32 where "CAPSLOCK = 8"
definition NUMLOCK :: u32 where "NUMLOCK = 16"
definition SCROLLLOCK :: u32 where "SCROLLLOCK = 32"
definition E0ESC :: u32 where "E0ESC = 64"

definition KBS_DIB :: u8 where "KBS_DIB = 1"
definition KBS_TERR :: u8 where "KBS_TERR = 0x20"

definition shiftcode :: "u8 \<Rightarrow> u32" where
  "shiftcode d = (if d = 0x1D then CTL else if d = 0x2A then SHIFT else if d = 0x36 then SHIFT
     else if d = 0x38 then ALT else if d = 0x9D then CTL else if d = 0xB8 then ALT else 0)"

definition togglecode :: "u8 \<Rightarrow> u32" where
  "togglecode d = (if d = 0x3A then CAPSLOCK else if d = 0x45 then NUMLOCK
     else if d = 0x46 then SCROLLLOCK else 0)"

text \<open>The entry of an initialiser list for index \<open>d\<close>, 0 where it has none.\<close>

definition at_code :: "u8 list \<Rightarrow> u8 \<Rightarrow> u8" where
  "at_code m d = (if unat d < length m then m ! unat d else 0)"

definition ctl_char :: "char \<Rightarrow> u8" where
  "ctl_char x = of_char x - of_char CHR ''@''"

text \<open>The entries above 0x58 that \<open>normalmap\<close> and \<open>shiftmap\<close> share, and those of \<open>ctlmap\<close>.\<close>

definition special_code :: "u8 \<Rightarrow> u8" where
  "special_code d = (if d = 0xC7 then KEY_HOME else if d = 0x9C then 10
     else if d = 0xB5 then of_char CHR ''/'' else if d = 0xC8 then KEY_UP
     else if d = 0xC9 then KEY_PGUP else if d = 0xCB then KEY_LF
     else if d = 0xCD then KEY_RT else if d = 0xCF then KEY_END
     else if d = 0xD0 then KEY_DN else if d = 0xD1 then KEY_PGDN
     else if d = 0xD2 then KEY_INS else if d = 0xD3 then KEY_DEL else 0)"

definition normalmap :: "u8 \<Rightarrow> u8" where
  "normalmap d = (if unat d < 88 then at_code
     ([0, 0x1B] @ map of_char ''1234567890-='' @ [8, 9] @
      map of_char ''qwertyuiop[]'' @ [10, 0] @ map of_char ''asdfghjkl;'' @
      [0x27] @ map of_char ''`'' @ [0, 0x5C] @ map of_char ''zxcvbnm,./'' @ [0] @
      map of_char ''*'' @ [0] @ map of_char '' '' @ replicate 13 0 @
      map of_char ''789-456+1230.'' @ [0, 0, 0, 0]) d
    else special_code d)"

definition shiftmap :: "u8 \<Rightarrow> u8" where
  "shiftmap d = (if unat d < 88 then at_code
     ([0, 0x1B] @ map of_char ''!@#$%^&*()_+'' @ [8, 9] @
      map of_char ''QWERTYUIOP{}'' @ [10, 0] @ map of_char ''ASDFGHJKL:'' @
      [0x22] @ map of_char ''~'' @ [0] @ map of_char ''|ZXCVBNM<>?'' @ [0] @
      map of_char ''*'' @ [0] @ map of_char '' '' @ replicate 13 0 @
      map of_char ''789-456+1230.'' @ [0, 0, 0, 0]) d
    else special_code d)"

definition ctlmap :: "u8 \<Rightarrow> u8" where
  "ctlmap d = (if unat d < 56 then at_code
     (replicate 16 0 @ map ctl_char ''QWERTYUIOP'' @ [0, 0, 13, 0] @
      map ctl_char ''ASDFGHJKL'' @ [0, 0, 0, 0] @ [0x5C - 0x40] @ map ctl_char ''ZXCVBNM'' @
      [0, 0] @ map ctl_char ''/'' @ [0, 0]) d
    else if d = 0x97 then KEY_HOME else if d = 0xB5 then ctl_char CHR ''/''
    else if d = 0xC8 then KEY_UP else if d = 0xC9 then KEY_PGUP else if d = 0xCB then KEY_LF
    else if d = 0xCD then KEY_RT else if d = 0xCF then KEY_END else if d = 0xD0 then KEY_DN
    else if d = 0xD1 then KEY_PGDN else if d = 0xD2 then KEY_INS else if d = 0xD3 then KEY_DEL
    else 0)"

text \<open>\<open>charcode[shift & (CTL | SHIFT)]\<close>\<close>

definition charcode :: "u32 \<Rightarrow> u8 \<Rightarrow> u8" where
  "charcode k = (if k = 0 then normalmap else if k = 1 then shiftmap else ctlmap)"

definition serial_proc_data :: "console \<Rightarrow> int \<times> console" where
  "serial_proc_data c = (case serial_rx c of
     [] \<Rightarrow> (- 1, c) | b # bs \<Rightarrow> (uint b, c\<lparr>serial_rx := bs\<rparr>))"

text \<open>
  The keyboard. Reading the data port takes the pair off the controller; a pair that is ignored
  because it comes from the mouse stays. The reboot on Ctrl-Alt-Del is not modelled.
\<close>

definition kbd_proc_data :: "console \<Rightarrow> int \<times> console" where
  "kbd_proc_data c = (case kbd_rx c of
     [] \<Rightarrow> (- 1, c)
   | (stat, data) # rest \<Rightarrow>
       if stat AND KBS_DIB = 0 then (- 1, c)
       else if stat AND KBS_TERR \<noteq> 0 then (- 1, c)
       else
         let shift = kbd_shift c; c = c\<lparr>kbd_rx := rest\<rparr>
         in if data = 0xE0 then (0, c\<lparr>kbd_shift := shift OR E0ESC\<rparr>)
            else if data AND 0x80 \<noteq> 0 then
              let data = (if shift AND E0ESC \<noteq> 0 then data else data AND 0x7F)
              in (0, c\<lparr>kbd_shift := shift AND NOT (shiftcode data OR E0ESC)\<rparr>)
            else
              let data = (if shift AND E0ESC \<noteq> 0 then data OR 0x80 else data);
                  shift = (if shift AND E0ESC \<noteq> 0 then shift AND NOT E0ESC else shift);
                  shift = shift OR shiftcode data;
                  shift = shift XOR togglecode data;
                  ch = uint (charcode (shift AND (CTL OR SHIFT)) data);
                  ch = (if shift AND CAPSLOCK \<noteq> 0
                        then if 97 \<le> ch \<and> ch \<le> 122 then ch + (65 - 97)
                             else if 65 \<le> ch \<and> ch \<le> 90 then ch + (97 - 65) else ch
                        else ch)
              in (ch, c\<lparr>kbd_shift := shift\<rparr>))"

text \<open>
  One round of the loop of \<open>cons_intr\<close> stores a character; the loop has as many rounds as the
  device has data, which is the fuel that \<open>serial_intr\<close> and \<open>kbd_intr\<close> give it.
\<close>

definition cons_store :: "int \<Rightarrow> console \<Rightarrow> console" where
  "cons_store ch c =
     (let c = c\<lparr>cons_buf := (cons_buf c)(wpos c := word_of_int ch), wpos := wpos c + 1\<rparr>
      in if wpos c = CONSBUFSIZE then c\<lparr>wpos := 0\<rparr> else c)"

fun cons_intr :: "nat \<Rightarrow> (console \<Rightarrow> int \<times> console) \<Rightarrow> console \<Rightarrow> console" where
  "cons_intr 0 proc c = c"
| "cons_intr (Suc n) proc c =
     (let (ch, c1) = proc c
      in if ch = - 1 then c1
         else if ch = 0 then cons_intr n proc c1
         else cons_intr n proc (cons_store ch c1))"

definition serial_intr :: "console \<Rightarrow> console" where
  "serial_intr c =
     (if serial_exists c then cons_intr (Suc (length (serial_rx c))) serial_proc_data c else c)"

definition kbd_intr :: "console \<Rightarrow> console" where
  "kbd_intr c = cons_intr (Suc (length (kbd_rx c))) kbd_proc_data c"

text \<open>The part of \<open>cons_getc\<close> after polling the devices.\<close>

definition cons_take :: "console \<Rightarrow> int \<times> console" where
  "cons_take c =
     (if rpos c \<noteq> wpos c
      then
        let ch = uint (cons_buf c (rpos c)); c = c\<lparr>rpos := rpos c + 1\<rparr>
        in (ch, if rpos c = CONSBUFSIZE then c\<lparr>rpos := 0\<rparr> else c)
      else (0, c))"

definition cons_getc :: "console \<Rightarrow> int \<times> console" where
  "cons_getc c = cons_take (kbd_intr (serial_intr c))"

text \<open>
  The display. \<open>c\<close> is the \<open>int\<close> that \<open>cga_putc\<close> gets; a tab prints five spaces through \<open>cons_putc\<close>.
\<close>

definition serial_putc :: "int \<Rightarrow> console \<Rightarrow> console" where
  "serial_putc ch c = c\<lparr>serial_tx := serial_tx c @ [word_of_int ch]\<rparr>"

definition lpt_putc :: "int \<Rightarrow> console \<Rightarrow> console" where
  "lpt_putc ch c = c\<lparr>lpt_tx := lpt_tx c @ [word_of_int ch]\<rparr>"

definition cga_scroll :: "console \<Rightarrow> console" where
  "cga_scroll c =
     (if crt_pos c \<ge> CRT_SIZE
      then c\<lparr>crt_buf := (\<lambda>i. if i < 1920 then crt_buf c (i + 80)
                           else if i < 2000 then 0x0700 OR 0x20 else crt_buf c i),
             crt_pos := crt_pos c - CRT_COLS\<rparr>
      else c)"

definition cga_write :: "u16 \<Rightarrow> console \<Rightarrow> console" where
  "cga_write ch c =
     (let ch = (if ch AND NOT 0xFF = 0 then ch OR 0x0700 else ch);
          k = ch AND 0xFF
      in if k = 8 then
           (if crt_pos c > 0
            then c\<lparr>crt_pos := crt_pos c - 1,
                   crt_buf := (crt_buf c)(unat (crt_pos c - 1) := (ch AND NOT 0xFF) OR 0x20)\<rparr>
            else c)
         else if k = 10 then
           (let pos = crt_pos c + CRT_COLS in c\<lparr>crt_pos := pos - pos mod CRT_COLS\<rparr>)
         else if k = 13 then c\<lparr>crt_pos := crt_pos c - crt_pos c mod CRT_COLS\<rparr>
         else c\<lparr>crt_buf := (crt_buf c)(unat (crt_pos c) := ch), crt_pos := crt_pos c + 1\<rparr>)"

definition cons_putc_space :: "console \<Rightarrow> console" where
  "cons_putc_space c = cga_scroll (cga_write 0x20 (lpt_putc 0x20 (serial_putc 0x20 c)))"

definition cga_putc :: "int \<Rightarrow> console \<Rightarrow> console" where
  "cga_putc ch c =
     (if (word_of_int ch :: u16) AND 0xFF = 9
      then cga_scroll (cons_putc_space (cons_putc_space (cons_putc_space (cons_putc_space
             (cons_putc_space c)))))
      else cga_scroll (cga_write (word_of_int ch) c))"

definition cons_putc :: "int \<Rightarrow> console \<Rightarrow> console" where
  "cons_putc ch c = cga_putc ch (lpt_putc ch (serial_putc ch c))"

text \<open>The characters in the input buffer, and its well-formedness.\<close>

definition cons_queue :: "console \<Rightarrow> u8 list" where
  "cons_queue c = ring (cons_buf c) CONSBUFSIZE (rpos c) (wpos c)"

definition wf_console :: "console \<Rightarrow> bool" where
  "wf_console c \<longleftrightarrow> rpos c < CONSBUFSIZE \<and> wpos c < CONSBUFSIZE"

text \<open>The console after reset, for examples.\<close>

definition reset_console :: console where
  "reset_console = \<lparr>cons_buf = (\<lambda>_. 0), rpos = 0, wpos = 0, serial_exists = True, serial_rx = [],
     kbd_rx = [], kbd_shift = 0, crt_buf = (\<lambda>_. 0), crt_pos = 0, serial_tx = [], lpt_tx = []\<rparr>"

section \<open>The input buffer\<close>

lemma cons_store_simps:
  "cons_store ch c = c\<lparr>cons_buf := (cons_buf c)(wpos c := word_of_int ch),
     wpos := (if Suc (wpos c) = CONSBUFSIZE then 0 else Suc (wpos c))\<rparr>"
  by (simp add: cons_store_def Let_def)

lemma wrap_mod: "i < n \<Longrightarrow> (if Suc i = n then 0 else Suc i) = (i + 1) mod n"
  by (auto simp: mod_if)

lemma wf_console_store: "wf_console c \<Longrightarrow> wf_console (cons_store ch c)"
  by (auto simp: wf_console_def cons_store_simps CONSBUFSIZE_def)

interpretation console_fifo: bounded_fifo cons_queue wf_console "CONSBUFSIZE - 1"
  "\<lambda>b. cons_store (uint b)" "\<lambda>c. (word_of_int (fst (cons_take c)), snd (cons_take c))"
proof
  fix c :: console and b :: u8
  assume wf: "wf_console c"
  show "wf_console (cons_store (uint b) c)" using wf by (rule wf_console_store)
  show "wf_console (snd (word_of_int (fst (cons_take c)) :: u8, snd (cons_take c)))"
    using wf by (auto simp: wf_console_def cons_take_def Let_def CONSBUFSIZE_def)
  show "cons_queue (cons_store (uint b) c) = cons_queue c @ [b]"
    if "length (cons_queue c) < CONSBUFSIZE - 1"
    using wf that ring_push [of "rpos c" CONSBUFSIZE "wpos c" "cons_buf c" b]
    by (simp add: cons_queue_def cons_store_simps wf_console_def wrap_mod)
  assume ne: "cons_queue c \<noteq> []"
  then have "rpos c \<noteq> wpos c" using wf by (auto simp: cons_queue_def ring_def wf_console_def)
  with wf ring_pop [of "rpos c" CONSBUFSIZE "wpos c" "cons_buf c"]
  show "fst (word_of_int (fst (cons_take c)), snd (cons_take c)) = hd (cons_queue c)
    \<and> cons_queue (snd (word_of_int (fst (cons_take c)) :: u8, snd (cons_take c))) = tl (cons_queue c)"
    by (auto simp: cons_queue_def cons_take_def Let_def wf_console_def mod_if)
qed

lemma cons_queue_rx [simp]:
  "cons_queue (c\<lparr>serial_rx := b\<rparr>) = cons_queue c" "wf_console (c\<lparr>serial_rx := b\<rparr>) = wf_console c"
  by (simp_all add: cons_queue_def wf_console_def)

lemma cons_store_rx [simp]:
  "serial_rx (cons_store ch c) = serial_rx c" "kbd_rx (cons_store ch c) = kbd_rx c"
  "serial_exists (cons_store ch c) = serial_exists c"
  by (simp_all add: cons_store_simps)

lemma cons_store_serial_rx:
  "cons_store ch (c\<lparr>serial_rx := r\<rparr>) = (cons_store ch c)\<lparr>serial_rx := r\<rparr>"
  by (simp add: cons_store_simps)

lemma fold_store_serial_rx:
  "fold (\<lambda>b. cons_store (uint b)) xs (c\<lparr>serial_rx := r\<rparr>)
    = (fold (\<lambda>b. cons_store (uint b)) xs c)\<lparr>serial_rx := r\<rparr>"
  by (induction xs arbitrary: c) (simp_all add: cons_store_serial_rx)

text \<open>The serial interrupt moves the bytes of the port into the buffer, except zeros.\<close>

lemma serial_drain:
  assumes "length (serial_rx c) < n"
  shows "cons_intr n serial_proc_data c
    = (fold (\<lambda>b. cons_store (uint b)) (filter (\<lambda>b. b \<noteq> 0) (serial_rx c)) c)\<lparr>serial_rx := []\<rparr>"
  using assms
proof (induction n arbitrary: c)
  case (Suc n)
  show ?case
  proof (cases "serial_rx c")
    case Nil
    then show ?thesis by (cases c) (simp add: serial_proc_data_def)
  next
    case (Cons b bs)
    have step: "serial_proc_data c = (uint b, c\<lparr>serial_rx := bs\<rparr>)"
      using Cons by (simp add: serial_proc_data_def)
    have zero: "uint b = 0 \<longleftrightarrow> b = 0" by (simp add: unsigned_eq_0_iff)
    have pos: "uint b \<noteq> -1" using uint_ge_0 [of b] by linarith
    have "cons_intr n serial_proc_data d
      = (fold (\<lambda>b. cons_store (uint b)) (filter (\<lambda>b. b \<noteq> 0) bs) d)\<lparr>serial_rx := []\<rparr>"
      if "serial_rx d = bs" for d
      using Suc.IH [of d] Suc.prems that Cons by simp
    then show ?thesis
      using Cons pos step zero
      by (cases "b = 0") (auto simp: Let_def cons_store_serial_rx fold_store_serial_rx)
  qed
qed simp

section \<open>The display\<close>

lemma cga_write_bounds:
  assumes "unat (crt_pos c) < 2000"
  shows "unat (crt_pos (cga_write ch c)) < 2080"
    and "i \<ge> 2000 \<Longrightarrow> crt_buf (cga_write ch c) i = crt_buf c i"
proof -
  let ?p = "crt_pos c"
  have add: "unat (?p + 1) = unat ?p + 1" "unat (?p + CRT_COLS) = unat ?p + 80"
    using assms by (simp_all add: unat_word_ariths CRT_COLS_def)
  have mod: "unat (p - p mod CRT_COLS) \<le> unat p" for p
  proof -
    have "p mod CRT_COLS \<le> p" by (simp add: word_le_nat_alt unat_mod_distrib)
    then show ?thesis by (simp add: unat_sub)
  qed
  have sub: "unat (?p - 1) < 2000" if "?p > 0"
    using that assms by (simp add: unat_minus_one)
  show "unat (crt_pos (cga_write ch c)) < 2080"
    using assms add mod [of ?p] mod [of "?p + CRT_COLS"] sub by (auto simp: cga_write_def Let_def)
  show "crt_buf (cga_write ch c) i = crt_buf c i" if "i \<ge> 2000"
    using that assms sub by (auto simp: cga_write_def Let_def)
qed

lemma cga_scroll_bounds:
  assumes "unat (crt_pos c) < 2080"
  shows "unat (crt_pos (cga_scroll c)) < 2000"
    and "i \<ge> 2000 \<Longrightarrow> crt_buf (cga_scroll c) i = crt_buf c i"
proof -
  have "unat (crt_pos c - CRT_COLS) = unat (crt_pos c) - 80" if "CRT_SIZE \<le> crt_pos c"
    using that by (subst unat_sub) (simp_all add: word_le_nat_alt CRT_COLS_def CRT_SIZE_def)
  then show "unat (crt_pos (cga_scroll c)) < 2000"
    using assms by (auto simp: cga_scroll_def word_le_nat_alt not_le CRT_SIZE_def)
  show "crt_buf (cga_scroll c) i = crt_buf c i" if "i \<ge> 2000"
    using that by (simp add: cga_scroll_def)
qed

definition on_screen :: "console \<Rightarrow> console \<Rightarrow> bool" where
  "on_screen c c' \<longleftrightarrow> unat (crt_pos c') < 2000 \<and> (\<forall>i\<ge>2000. crt_buf c' i = crt_buf c i)"

lemma on_screen_write: "on_screen c c' \<Longrightarrow> on_screen c (cga_scroll (cga_write ch c'))"
  using cga_write_bounds [of c'] cga_scroll_bounds by (auto simp: on_screen_def)

lemma on_screen_ports: "on_screen c c' \<Longrightarrow> on_screen c (lpt_putc ch (serial_putc ch' c'))"
  by (simp add: on_screen_def lpt_putc_def serial_putc_def)

lemma on_screen_space: "on_screen c c' \<Longrightarrow> on_screen c (cons_putc_space c')"
  by (simp add: cons_putc_space_def on_screen_write on_screen_ports)

lemma on_screen_scroll: "on_screen c c' \<Longrightarrow> on_screen c (cga_scroll c')"
  using cga_scroll_bounds [of c'] by (auto simp: on_screen_def)

section \<open>Properties\<close>

text \<open>
  C10. The console input is first-in first-out: with no keyboard data pending and room for what
  the serial port holds, \<open>cons_getc\<close> returns the first character of the buffered characters followed
  by the non-zero bytes of the port, 0 if there is none, and keeps the rest in order; it empties the
  port.
\<close>

theorem cons_getc_fifo:
  assumes "wf_console c" "serial_exists c" "kbd_rx c = []"
    and "length (cons_queue c) + length (filter (\<lambda>b. b \<noteq> 0) (serial_rx c)) \<le> CONSBUFSIZE - 1"
  shows "let q = cons_queue c @ filter (\<lambda>b. b \<noteq> 0) (serial_rx c); (ch, c') = cons_getc c
     in ch = (case q of [] \<Rightarrow> 0 | b # _ \<Rightarrow> uint b) \<and> cons_queue c' = tl q \<and> wf_console c'
        \<and> serial_rx c' = []"
proof -
  let ?in = "filter (\<lambda>b. b \<noteq> 0) (serial_rx c)"
  define d where "d = (fold (\<lambda>b. cons_store (uint b)) ?in c)\<lparr>serial_rx := []\<rparr>"
  have "kbd_rx (fold (\<lambda>b. cons_store (uint b)) xs c) = kbd_rx c" for xs
    by (induction xs arbitrary: c) simp_all
  then have kbd: "kbd_rx d = []" using assms(3) by (simp add: d_def)
  have "serial_intr c = d" using assms(2) by (simp add: serial_intr_def serial_drain d_def del: cons_intr.simps)
  moreover have "kbd_intr d = d" using kbd by (simp add: kbd_intr_def kbd_proc_data_def)
  ultimately have eq: "cons_getc c = cons_take d" by (simp add: cons_getc_def)
  have q: "cons_queue d = cons_queue c @ ?in" "wf_console d"
    using console_fifo.push_all [OF assms(1,4)] by (simp_all add: d_def)
  show ?thesis
  proof (cases "cons_queue d")
    case Nil
    then have "rpos d = wpos d"
      using ring_pop [of "rpos d" CONSBUFSIZE "wpos d" "cons_buf d"] q(2)
      by (auto simp: cons_queue_def wf_console_def)
    then have "cons_take d = (0, d)" by (simp add: cons_take_def)
    with Nil q eq show ?thesis by (simp add: d_def)
  next
    case (Cons b bs)
    then have ne: "cons_queue d \<noteq> []" by simp
    then have "rpos d \<noteq> wpos d" using q(2) by (auto simp: cons_queue_def ring_def wf_console_def)
    with ring_pop [of "rpos d" CONSBUFSIZE "wpos d" "cons_buf d"] q(2) Cons
    have "fst (cons_take d) = uint b" "serial_rx (snd (cons_take d)) = []"
      by (auto simp: cons_take_def Let_def cons_queue_def wf_console_def d_def)
    moreover have all: "cons_queue c @ ?in = b # bs" using q(1) Cons by simp
    ultimately show ?thesis
      using console_fifo.pop_content [OF q(2) ne] console_fifo.pop_inv [OF q(2)] Cons
      unfolding Let_def all eq by (simp add: case_prod_unfold)
  qed
qed

theorem cons_getc_fifo_witness:
  "fst (cons_getc (reset_console\<lparr>serial_rx := [0, 0x68, 0x69]\<rparr>)) = 0x68"
proof -
  let ?c = "reset_console\<lparr>serial_rx := [0, 0x68, 0x69]\<rparr>"
  have q: "cons_queue ?c = []" by (simp add: cons_queue_def ring_def reset_console_def CONSBUFSIZE_def)
  have "wf_console ?c" by (simp add: wf_console_def reset_console_def CONSBUFSIZE_def)
  from cons_getc_fifo [OF this] show ?thesis
    unfolding q by (simp add: reset_console_def CONSBUFSIZE_def Let_def split: prod.splits)
qed

text \<open>
  C11. \<open>cons_putc\<close> stays on the screen: when the cursor is inside the 25 by 80 cells it is so
  again afterwards, and no memory beyond them is written.
\<close>

theorem cons_putc_stays_on_screen:
  assumes "crt_pos c < CRT_SIZE"
  shows "crt_pos (cons_putc ch c) < CRT_SIZE \<and> (\<forall>i\<ge>2000. crt_buf (cons_putc ch c) i = crt_buf c i)"
proof -
  have "on_screen c c" using assms by (simp add: on_screen_def word_less_nat_alt CRT_SIZE_def)
  then have "on_screen c (cons_putc ch c)"
    by (simp add: cons_putc_def cga_putc_def on_screen_write on_screen_space on_screen_scroll on_screen_ports)
  then show ?thesis by (simp add: on_screen_def word_less_nat_alt CRT_SIZE_def)
qed

theorem cons_putc_stays_on_screen_witness:
  "crt_pos (cons_putc 10 (reset_console\<lparr>crt_pos := 1999\<rparr>)) < CRT_SIZE"
  using cons_putc_stays_on_screen [of "reset_console\<lparr>crt_pos := 1999\<rparr>" 10]
  by (simp add: CRT_SIZE_def)

end
