(* ===== verification/Kernel_State.thy ===== *)
theory Kernel_State
  imports Mmu Console
begin

text \<open>
  The data of the kernel: the structs of \<open>inc/memlayout.h\<close>, \<open>inc/trap.h\<close>, \<open>inc/env.h\<close> and
  \<open>kern/cpu.h\<close> as records, and one record with the global variables of \<open>kern/pmap.c\<close>,
  \<open>kern/env.c\<close>, \<open>kern/mpconfig.c\<close> and \<open>kern/time.c\<close> and the parts of the hardware the modelled code
  touches, the console and the network card among them. The big kernel lock (\<open>lock_kernel\<close>) makes
  every entry into the kernel atomic, so the state has no trace of it; the lock itself is modelled
  separately.

  Pointers are represented by what they point to: a \<open>struct PageInfo *\<close> by its index in
  \<open>pages[]\<close> (which is the physical page number), a \<open>struct Env *\<close> by its index in \<open>envs[]\<close>, a
  kernel virtual pointer to a whole page (a page directory or a page table) by the physical page
  number behind it, a \<open>pte_t *\<close> by the page and the index of the entry in it; \<open>NULL\<close> is \<open>None\<close>.
  Physical memory is kept page by page as arrays of 1024 words of 32 bits: \<open>frames s n i\<close> is the
  word at physical address \<open>n * PGSIZE + 4 * i\<close>, so page tables live in the memory that the page
  allocator hands out, and share it with everything else.
\<close>

section \<open>Structs\<close>

record PageInfo =
  pp_link :: "nat option"
  pp_ref :: u16

record PushRegs =
  reg_edi :: u32
  reg_esi :: u32
  reg_ebp :: u32
  reg_oesp :: u32
  reg_ebx :: u32
  reg_edx :: u32
  reg_ecx :: u32
  reg_eax :: u32

record Trapframe =
  tf_regs :: PushRegs
  tf_es :: u16
  tf_ds :: u16
  tf_trapno :: u32
  tf_err :: u32
  tf_eip :: u32
  tf_cs :: u16
  tf_eflags :: u32
  tf_esp :: u32
  tf_ss :: u16

datatype env_status_t = ENV_FREE | ENV_DYING | ENV_RUNNABLE | ENV_RUNNING | ENV_NOT_RUNNABLE

datatype EnvType = ENV_TYPE_USER | ENV_TYPE_FS | ENV_TYPE_NS

record Env =
  env_tf :: Trapframe
  env_link :: "nat option"
  env_id :: u32
  env_parent_id :: u32
  env_type :: EnvType
  env_status :: env_status_t
  env_runs :: u32
  env_cpunum :: nat
  env_pgdir :: "nat option"
  env_pgfault_upcall :: u32
  env_ipc_recving :: bool
  env_ipc_dstva :: u32
  env_ipc_value :: u32
  env_ipc_from :: u32
  env_ipc_perm :: u32
  env_break :: u32

datatype cpu_status_t = CPU_UNUSED | CPU_STARTED | CPU_HALTED

record CpuInfo =
  cpu_status :: cpu_status_t
  cpu_env :: "nat option"

text \<open>
  The network card of \<open>kern/e1000.h\<close>: the descriptors of its two rings and the registers of
  \<open>struct E1000\<close> that the driver uses.
\<close>

record tx_desc =
  tx_addr :: u64
  tx_length :: u16
  tx_cso :: u8
  tx_cmd :: u8
  tx_status :: u8
  tx_css :: u8
  tx_special :: u16

record rx_desc =
  rx_addr :: u64
  rx_length :: u16
  rx_checksum :: u16
  rx_status :: u8
  rx_error :: u8
  rx_special :: u16

record E1000 =
  RCTL :: u32
  TCTL :: u32
  TIPG :: u32
  RDBAL :: u32
  RDBAH :: u32
  RDLEN :: u32
  RDH :: u32
  RDT :: u32
  TDBAL :: u32
  TDBAH :: u32
  TDLEN :: u32
  TDH :: u32
  TDT :: u32
  RAL :: u32
  RAH :: u32

section \<open>Global variables and hardware\<close>

record kstate =
  npages :: nat                          \<comment> \<open>kern/pmap.c\<close>
  npages_basemem :: nat
  kern_pgdir :: nat
  pages :: "nat \<Rightarrow> PageInfo"
  page_free_list :: "nat option"
  nextfree :: u32                        \<comment> \<open>the static variable of boot_alloc\<close>
  mmio_base :: u32                       \<comment> \<open>the static variable of mmio_map_region\<close>
  user_mem_check_addr :: u32
  envs :: "nat \<Rightarrow> Env"                   \<comment> \<open>kern/env.c\<close>
  env_free_list :: "nat option"
  cpus :: "nat \<Rightarrow> CpuInfo"               \<comment> \<open>kern/mpconfig.c\<close>
  cpunum :: nat                          \<comment> \<open>the CPU that runs the kernel code\<close>
  ticks :: u32                           \<comment> \<open>kern/time.c\<close>
  cons :: console                        \<comment> \<open>kern/console.c\<close>
  base :: E1000                          \<comment> \<open>kern/e1000.c\<close>
  tx_descs :: "nat \<Rightarrow> tx_desc"
  rx_descs :: "nat \<Rightarrow> rx_desc"
  frames :: "nat \<Rightarrow> nat \<Rightarrow> u32"          \<comment> \<open>physical memory\<close>
  cr3 :: nat                             \<comment> \<open>the installed page directory\<close>
  invlpgs :: "u32 list"                  \<comment> \<open>the addresses flushed from the TLB, newest first\<close>

datatype kpanic =
    Boot_alloc_original | Boot_alloc_new
  | Paddr_bad_kva | Kaddr_bad_pa | Pa2page_bad_pa
  | Page_free_ref | Pgdir_walk_null | Null_pte | Mmio_range
  | Null_curenv | Null_pgdir | Null_page | Kernel_page_fault
  | Region_alloc_range | Region_alloc_failed | Region_insert_failed | Env_create_failed
  | Sbrk_alloc_failed | Time_overflow | Trap_interrupts_enabled | Trap_no_curenv
  | Trap_kernel_page_fault | Trap_unhandled_kernel

type_synonym 'a kres = "(kpanic, 'a) res"

text \<open>
  The outcome of kernel code that may not return to its caller: it returns a value, resumes user
  mode in an environment (\<open>env_pop_tf\<close>), halts the CPU until the next interrupt, stays in the
  kernel monitor for good because no environment is left, or panics.
\<close>

datatype 'a kout = KRet 'a kstate | KRun nat kstate | KHalt kstate | KMonitor kstate | KPanic kpanic

definition bind_out :: "'a kout \<Rightarrow> ('a \<Rightarrow> kstate \<Rightarrow> 'b kout) \<Rightarrow> 'b kout" where
  "bind_out m f = (case m of KRet x s \<Rightarrow> f x s | KRun e s \<Rightarrow> KRun e s | KHalt s \<Rightarrow> KHalt s
     | KMonitor s \<Rightarrow> KMonitor s | KPanic p \<Rightarrow> KPanic p)"

definition out_of :: "('a \<times> kstate) kres \<Rightarrow> 'a kout" where
  "out_of r = (case r of Ok (x, s) \<Rightarrow> KRet x s | Panic p \<Rightarrow> KPanic p)"

definition out_of_state :: "kstate kres \<Rightarrow> unit kout" where
  "out_of_state r = (case r of Ok s \<Rightarrow> KRet () s | Panic p \<Rightarrow> KPanic p)"

text \<open>\<open>P\<close> holds of the state in every outcome but a panic.\<close>

fun out_all :: "(kstate \<Rightarrow> bool) \<Rightarrow> 'a kout \<Rightarrow> bool" where
  "out_all P (KRet x s) = P s"
| "out_all P (KRun e s) = P s"
| "out_all P (KHalt s) = P s"
| "out_all P (KMonitor s) = P s"
| "out_all P (KPanic p) = True"

lemma bind_out_simps [simp]:
  "bind_out (KRet x s) f = f x s" "bind_out (KRun e s) f = KRun e s"
  "bind_out (KHalt s) f = KHalt s" "bind_out (KMonitor s) f = KMonitor s"
  "bind_out (KPanic p) f = KPanic p"
  by (simp_all add: bind_out_def)

lemma out_of_simps [simp]:
  "out_of (Ok (x, s)) = KRet x s" "out_of (Panic p) = KPanic p"
  "out_of_state (Ok s) = KRet () s" "out_of_state (Panic p) = KPanic p"
  by (simp_all add: out_of_def out_of_state_def)

lemma out_all_bind:
  assumes "out_all P m" "\<And>x s. m = KRet x s \<Longrightarrow> P s \<Longrightarrow> out_all P (f x s)"
  shows "out_all P (bind_out m f)"
  using assms by (cases m) simp_all

text \<open>\<open>curenv\<close> of \<open>kern/env.h\<close>: the environment that the executing CPU runs.\<close>

definition curenv :: "kstate \<Rightarrow> nat option" where
  "curenv s = cpu_env (cpus s (cpunum s))"

definition set_curenv :: "nat option \<Rightarrow> kstate \<Rightarrow> kstate" where
  "set_curenv e s =
     s\<lparr>cpus := (cpus s)(cpunum s := (cpus s (cpunum s))\<lparr>cpu_env := e\<rparr>)\<rparr>"

type_synonym pte_ptr = "nat \<times> nat"

text \<open>\<open>*p\<close> and \<open>*p = v\<close> for a pointer \<open>p\<close> to a page table or directory entry.\<close>

definition load_pte :: "kstate \<Rightarrow> pte_ptr \<Rightarrow> u32" where
  "load_pte s p = frames s (fst p) (snd p)"

definition store_pte :: "pte_ptr \<Rightarrow> u32 \<Rightarrow> kstate \<Rightarrow> kstate" where
  "store_pte p v s = s\<lparr>frames := (frames s)(fst p := (frames s (fst p))(snd p := v))\<rparr>"

text \<open>Assignments to the fields of \<open>pages[pp]\<close>.\<close>

definition set_pp_ref :: "nat \<Rightarrow> u16 \<Rightarrow> kstate \<Rightarrow> kstate" where
  "set_pp_ref pp r s = s\<lparr>pages := (pages s)(pp := (pages s pp)\<lparr>pp_ref := r\<rparr>)\<rparr>"

definition set_pp_link :: "nat \<Rightarrow> nat option \<Rightarrow> kstate \<Rightarrow> kstate" where
  "set_pp_link pp l s = s\<lparr>pages := (pages s)(pp := (pages s pp)\<lparr>pp_link := l\<rparr>)\<rparr>"

text \<open>Assignment to a field of \<open>envs[e]\<close>.\<close>

definition upd_env :: "nat \<Rightarrow> (Env \<Rightarrow> Env) \<Rightarrow> kstate \<Rightarrow> kstate" where
  "upd_env e f s = s\<lparr>envs := (envs s)(e := f (envs s e))\<rparr>"

text \<open>
  The kernel's zeroed data segment, on a machine with \<open>np\<close> physical pages of which \<open>nb\<close> are base
  memory: what the code starts from, and the state concrete examples are built on.
\<close>

definition zero_regs :: PushRegs where
  "zero_regs = \<lparr>reg_edi = 0, reg_esi = 0, reg_ebp = 0, reg_oesp = 0, reg_ebx = 0, reg_edx = 0,
     reg_ecx = 0, reg_eax = 0\<rparr>"

definition zero_tf :: Trapframe where
  "zero_tf = \<lparr>tf_regs = zero_regs, tf_es = 0, tf_ds = 0, tf_trapno = 0, tf_err = 0, tf_eip = 0,
     tf_cs = 0, tf_eflags = 0, tf_esp = 0, tf_ss = 0\<rparr>"

definition zero_env :: Env where
  "zero_env = \<lparr>env_tf = zero_tf, env_link = None, env_id = 0, env_parent_id = 0,
     env_type = ENV_TYPE_USER, env_status = ENV_FREE, env_runs = 0, env_cpunum = 0,
     env_pgdir = None, env_pgfault_upcall = 0, env_ipc_recving = False, env_ipc_dstva = 0,
     env_ipc_value = 0, env_ipc_from = 0, env_ipc_perm = 0, env_break = 0\<rparr>"

definition zero_nic :: E1000 where
  "zero_nic = \<lparr>RCTL = 0, TCTL = 0, TIPG = 0, RDBAL = 0, RDBAH = 0, RDLEN = 0, RDH = 0, RDT = 0,
     TDBAL = 0, TDBAH = 0, TDLEN = 0, TDH = 0, TDT = 0, RAL = 0, RAH = 0\<rparr>"

definition zero_tx_desc :: tx_desc where
  "zero_tx_desc = \<lparr>tx_addr = 0, tx_length = 0, tx_cso = 0, tx_cmd = 0, tx_status = 0, tx_css = 0,
     tx_special = 0\<rparr>"

definition zero_rx_desc :: rx_desc where
  "zero_rx_desc = \<lparr>rx_addr = 0, rx_length = 0, rx_checksum = 0, rx_status = 0, rx_error = 0,
     rx_special = 0\<rparr>"

definition bss_kstate :: "nat \<Rightarrow> nat \<Rightarrow> kstate" where
  "bss_kstate np nb = \<lparr>npages = np, npages_basemem = nb, kern_pgdir = 0,
     pages = (\<lambda>_. \<lparr>pp_link = None, pp_ref = 0\<rparr>), page_free_list = None, nextfree = 0,
     mmio_base = MMIOBASE, user_mem_check_addr = 0, envs = (\<lambda>_. zero_env), env_free_list = None,
     cpus = (\<lambda>_. \<lparr>cpu_status = CPU_UNUSED, cpu_env = None\<rparr>), cpunum = 0, ticks = 0,
     cons = reset_console, base = zero_nic, tx_descs = (\<lambda>_. zero_tx_desc),
     rx_descs = (\<lambda>_. zero_rx_desc),
     frames = (\<lambda>_ _. 0), cr3 = 0, invlpgs = []\<rparr>"

end
