(* ===== verification/Pages.thy ===== *)
theory Pages
  imports Kernel_State
begin

text \<open>
  The physical page allocator of \<open>kern/pmap.c\<close> (\<open>boot_alloc\<close>, \<open>page_init\<close>, \<open>page_alloc\<close>,
  \<open>page_free\<close>, \<open>page_decref\<close>) and the address conversions of \<open>kern/pmap.h\<close>. The free list is the
  linked list through \<open>pp_link\<close>; the lemmas show that it refines a list of free pages, that the
  allocator is a pool of free resources, and what \<open>page_init\<close> puts on it.
\<close>

section \<open>Definitions\<close>

definition PADDR :: "u32 \<Rightarrow> u32 kres" where
  "PADDR kva = (if kva < KERNBASE then Panic Paddr_bad_kva else Ok (kva - KERNBASE))"

text \<open>The kernel virtual address \<open>pa + KERNBASE\<close> of a page is represented by its page number.\<close>

definition KADDR :: "u32 \<Rightarrow> kstate \<Rightarrow> nat kres" where
  "KADDR pa s = (if PGNUM pa \<ge> npages s then Panic Kaddr_bad_pa else Ok (PGNUM pa))"

definition pa2page :: "u32 \<Rightarrow> kstate \<Rightarrow> nat kres" where
  "pa2page pa s = (if PGNUM pa \<ge> npages s then Panic Pa2page_bad_pa else Ok (PGNUM pa))"

definition page2kva :: "nat \<Rightarrow> kstate \<Rightarrow> nat kres" where
  "page2kva pp s = KADDR (page2pa pp) s"

definition ALLOC_ZERO :: u32 where [mmu_defs]: "ALLOC_ZERO = 1"

text \<open>
  \<open>kend\<close> is the address \<open>end\<close> that the linker gives to the end of the kernel's bss; the static
  variable \<open>nextfree\<close> starts as 0.
\<close>

definition boot_alloc :: "u32 \<Rightarrow> u32 \<Rightarrow> kstate \<Rightarrow> (u32 \<times> kstate) kres" where
  "boot_alloc kend n s =
     (let nf = (if nextfree s = 0 then ROUNDUP kend PGSIZE else nextfree s);
          nf = ROUNDUP nf PGSIZE
      in if nf < KERNBASE \<or> PGNUM (nf - KERNBASE) \<ge> npages s then Panic Boot_alloc_original
         else
           let result = nf; nf = nf + ROUNDUP n PGSIZE
           in if nf < KERNBASE \<or> PGNUM (nf - KERNBASE) \<ge> npages s then Panic Boot_alloc_new
              else Ok (result, s\<lparr>nextfree := nf\<rparr>))"

text \<open>The bodies of the loops of \<open>page_init\<close>.\<close>

definition reserve_page :: "nat \<Rightarrow> kstate \<Rightarrow> kstate" where
  "reserve_page i s = set_pp_link i None (set_pp_ref i 1 s)"

definition init_free_page :: "nat \<Rightarrow> nat \<Rightarrow> kstate \<Rightarrow> kstate" where
  "init_free_page mpPage i s =
     (if i = mpPage then set_pp_ref i 1 s
      else (set_pp_link i (page_free_list s) (set_pp_ref i 0 s))\<lparr>page_free_list := Some i\<rparr>)"

text \<open>
  Each loop continues with the index where the one before stopped. The bound of the third loop
  calls \<open>boot_alloc(0)\<close> in every round, which changes nothing after the first call (lemma
  \<open>boot_alloc_0_again\<close>), so it is evaluated once.
\<close>

definition page_init :: "u32 \<Rightarrow> kstate \<Rightarrow> kstate kres" where
  "page_init kend s =
     (let mpPage = unat (MPENTRY_PADDR div PGSIZE);
          s = reserve_page 0 s;
          n1 = npages_basemem s;
          s = fold (init_free_page mpPage) [1..<n1] s;
          i = max 1 n1
      in bind_res (boot_alloc kend 0 s) (\<lambda>(kva, s).
           bind_res (PADDR kva) (\<lambda>pa.
             let n2 = unat (pa div PGSIZE);
                 s = fold reserve_page [i..<n2] s;
                 i = max i n2
             in Ok (fold (init_free_page mpPage) [i..<npages s] s))))"

definition memset_page :: "nat \<Rightarrow> u32 \<Rightarrow> kstate \<Rightarrow> kstate" where
  "memset_page n v s = s\<lparr>frames := (frames s)(n := (\<lambda>i. v))\<rparr>"

definition page_alloc :: "u32 \<Rightarrow> kstate \<Rightarrow> (nat option \<times> kstate) kres" where
  "page_alloc alloc_flags s =
     (case page_free_list s of
        None \<Rightarrow> Ok (None, s)
      | Some allocPage \<Rightarrow>
          let s = s\<lparr>page_free_list := pp_link (pages s allocPage)\<rparr>
          in bind_res
               (if alloc_flags AND ALLOC_ZERO \<noteq> 0
                then bind_res (page2kva allocPage s) (\<lambda>kva. Ok (memset_page kva 0 s))
                else Ok s)
               (\<lambda>s. Ok (Some allocPage, set_pp_ref allocPage 0 s)))"

definition page_free :: "nat \<Rightarrow> kstate \<Rightarrow> kstate kres" where
  "page_free pp s =
     (if pp_ref (pages s pp) \<noteq> 0 then Panic Page_free_ref
      else Ok ((set_pp_link pp (page_free_list s) s)\<lparr>page_free_list := Some pp\<rparr>))"

definition page_decref :: "nat \<Rightarrow> kstate \<Rightarrow> kstate kres" where
  "page_decref pp s =
     (let s = set_pp_ref pp (pp_ref (pages s pp) - 1) s
      in if pp_ref (pages s pp) = 0 then page_free pp s else Ok s)"

text \<open>The pages on the free list, in order, and the well-formedness of the list.\<close>

definition free_pages :: "kstate \<Rightarrow> nat list" where
  "free_pages s = walk (npages s) (\<lambda>p. pp_link (pages s p)) (page_free_list s)"

definition free_list :: "kstate \<Rightarrow> nat list \<Rightarrow> bool" where
  "free_list s fl \<longleftrightarrow> chain (\<lambda>p. pp_link (pages s p)) (page_free_list s) fl
     \<and> (\<forall>p\<in>set fl. p < npages s \<and> pp_ref (pages s p) = 0)"

definition wf_pages :: "kstate \<Rightarrow> bool" where
  "wf_pages s \<longleftrightarrow> npages s \<le> 65536 \<and> free_list s (free_pages s)"

section \<open>The free list\<close>

lemma set_pp_simps [simp]:
  "npages (set_pp_ref p r s) = npages s" "npages (set_pp_link p l s) = npages s"
  "page_free_list (set_pp_ref p r s) = page_free_list s"
  "page_free_list (set_pp_link p l s) = page_free_list s"
  "frames (set_pp_ref p r s) = frames s" "frames (set_pp_link p l s) = frames s"
  "pages (set_pp_ref p r s) = (pages s)(p := (pages s p)\<lparr>pp_ref := r\<rparr>)"
  "pages (set_pp_link p l s) = (pages s)(p := (pages s p)\<lparr>pp_link := l\<rparr>)"
  by (simp_all add: set_pp_ref_def set_pp_link_def)

lemma memset_page_simps [simp]:
  "npages (memset_page n v s) = npages s" "pages (memset_page n v s) = pages s"
  "page_free_list (memset_page n v s) = page_free_list s"
  "frames (memset_page n v s) = (frames s)(n := (\<lambda>i. v))"
  by (simp_all add: memset_page_def)

lemma free_list_free_pages: "free_list s fl \<Longrightarrow> free_pages s = fl"
  unfolding free_list_def free_pages_def by (blast intro: chain_walk_bounded)

lemma free_list_distinct: "free_list s fl \<Longrightarrow> distinct fl"
  unfolding free_list_def by (blast dest: chain_distinct)

lemma free_list_empty: "free_list s fl \<Longrightarrow> page_free_list s = None \<longleftrightarrow> fl = []"
  unfolding free_list_def by (cases fl) auto

text \<open>The list changes only through the head, the links and the reference counts of its pages.\<close>

lemma free_list_cong:
  assumes "free_list s fl" "npages s' = npages s" "page_free_list s' = page_free_list s"
    and "\<And>p. p \<in> set fl \<Longrightarrow> pages s' p = pages s p"
  shows "free_list s' fl"
  using assms unfolding free_list_def by (auto elim!: chain_cong)

lemma page2kva_ok:
  "pp < npages s \<Longrightarrow> npages s \<le> 65536 \<Longrightarrow> page2kva pp s = Ok pp"
  by (simp add: page2kva_def KADDR_def)

lemma page_alloc_Cons:
  assumes "free_list s (p # fl)" "npages s \<le> 65536"
  obtains s' where "page_alloc flags s = Ok (Some p, s')" "free_list s' fl"
    "s' = set_pp_ref p 0 ((if flags AND ALLOC_ZERO \<noteq> 0 then memset_page p 0 else id)
            (s\<lparr>page_free_list := pp_link (pages s p)\<rparr>))"
proof -
  let ?s1 = "s\<lparr>page_free_list := pp_link (pages s p)\<rparr>"
  let ?s' = "set_pp_ref p 0 ((if flags AND ALLOC_ZERO \<noteq> 0 then memset_page p 0 else id) ?s1)"
  have p: "page_free_list s = Some p" "p < npages s" "p \<notin> set fl"
    using assms free_list_distinct [OF assms(1)] by (auto simp: free_list_def)
  have "page2kva p ?s1 = Ok p" using p(2) assms(2) by (simp add: page2kva_ok)
  then have "page_alloc flags s = Ok (Some p, ?s')"
    using p(1) by (simp add: page_alloc_def)
  moreover have "free_list ?s' fl"
    using assms(1) p(3) unfolding free_list_def by (auto elim!: chain_cong)
  ultimately show ?thesis using that by blast
qed

lemma page_alloc_Nil: "free_list s [] \<Longrightarrow> page_alloc flags s = Ok (None, s)"
  by (simp add: free_list_def page_alloc_def)

lemma page_free_ok:
  assumes "free_list s fl" "p < npages s" "p \<notin> set fl" "pp_ref (pages s p) = 0"
  shows "page_free p s = Ok ((set_pp_link p (page_free_list s) s)\<lparr>page_free_list := Some p\<rparr>)"
    and "free_list ((set_pp_link p (page_free_list s) s)\<lparr>page_free_list := Some p\<rparr>) (p # fl)"
proof -
  show "page_free p s = Ok ((set_pp_link p (page_free_list s) s)\<lparr>page_free_list := Some p\<rparr>)"
    using assms(4) by (simp add: page_free_def)
  show "free_list ((set_pp_link p (page_free_list s) s)\<lparr>page_free_list := Some p\<rparr>) (p # fl)"
    using assms unfolding free_list_def by (auto elim!: chain_cong)
qed

section \<open>Initialisation\<close>

lemma boot_alloc_0_again:
  assumes "boot_alloc kend 0 s = Ok (kva, s')"
  shows "boot_alloc kend 0 s' = Ok (kva, s')"
proof -
  have 0: "ROUNDUP 0 PGSIZE = 0" by (simp add: ROUNDUP_of_aligned)
  have idem: "ROUNDUP (ROUNDUP a PGSIZE) PGSIZE = ROUNDUP a PGSIZE" for a
    by (rule ROUNDUP_of_aligned) (rule ROUNDUP_aligned)
  define nf where "nf = ROUNDUP (if nextfree s = 0 then ROUNDUP kend PGSIZE else nextfree s) PGSIZE"
  have "\<not> nf < KERNBASE" "\<not> PGNUM (nf - KERNBASE) \<ge> npages s" "kva = nf" "s' = s\<lparr>nextfree := nf\<rparr>"
    using assms unfolding boot_alloc_def Let_def nf_def [symmetric] 0 by (auto split: if_splits)
  moreover from this(1) have "nf \<noteq> 0" by (auto simp: mmu_defs)
  moreover have "ROUNDUP nf PGSIZE = nf" by (simp add: nf_def idem)
  ultimately show ?thesis by (simp add: boot_alloc_def Let_def 0)
qed

lemma init_free_page_frame [simp]:
  "npages (init_free_page mp i s) = npages s"
  "npages_basemem (init_free_page mp i s) = npages_basemem s"
  "nextfree (init_free_page mp i s) = nextfree s"
  by (simp_all add: init_free_page_def set_pp_ref_def set_pp_link_def)

lemma init_free_page_step:
  assumes "free_list s fl" "x < npages s" "x \<notin> set fl"
  shows "free_list (init_free_page mp x s) (if x = mp then fl else x # fl)"
  using assms unfolding free_list_def init_free_page_def by (auto elim!: chain_cong)

lemma init_free_fold:
  assumes "free_list s fl" "distinct xs" "set xs \<inter> set fl = {}" "set xs \<subseteq> {..<npages s}"
  shows "free_list (fold (init_free_page mp) xs s) (rev (filter (\<lambda>i. i \<noteq> mp) xs) @ fl)"
  using assms
proof (induction xs arbitrary: s fl)
  case (Cons x xs)
  have "free_list (init_free_page mp x s) (if x = mp then fl else x # fl)"
    using Cons.prems by (intro init_free_page_step) auto
  then have "free_list (fold (init_free_page mp) xs (init_free_page mp x s))
      (rev (filter (\<lambda>i. i \<noteq> mp) xs) @ (if x = mp then fl else x # fl))"
    using Cons.prems by (intro Cons.IH) auto
  then show ?case by (auto split: if_splits)
qed simp_all

lemma init_free_fold_ref:
  "pp_ref (pages (fold (init_free_page mp) xs s) i)
     = (if i \<in> set xs then (if i = mp then 1 else 0) else pp_ref (pages s i))"
  by (induction xs arbitrary: s) (auto simp: init_free_page_def)

lemma init_free_fold_frame [simp]:
  "npages (fold (init_free_page mp) xs s) = npages s"
  "npages_basemem (fold (init_free_page mp) xs s) = npages_basemem s"
  "nextfree (fold (init_free_page mp) xs s) = nextfree s"
  by (induction xs arbitrary: s) simp_all
lemma reserve_fold_frame [simp]:
  "npages (fold reserve_page xs s) = npages s"
  "npages_basemem (fold reserve_page xs s) = npages_basemem s"
  "page_free_list (fold reserve_page xs s) = page_free_list s"
  "nextfree (fold reserve_page xs s) = nextfree s"
  by (induction xs arbitrary: s) (simp_all add: reserve_page_def set_pp_ref_def set_pp_link_def)

lemma reserve_fold_pages:
  "pages (fold reserve_page xs s) i = (if i \<in> set xs then \<lparr>pp_link = None, pp_ref = 1\<rparr> else pages s i)"
  by (induction xs arbitrary: s) (auto simp: reserve_page_def)

lemma boot_alloc_frame:
  assumes "boot_alloc kend n s = Ok (kva, s')"
    and "npages t = npages s" "nextfree t = nextfree s"
  shows "boot_alloc kend n t = Ok (kva, t\<lparr>nextfree := nextfree s'\<rparr>)"
  using assms unfolding boot_alloc_def Let_def by (auto split: if_splits)

lemma mpPage_7: "unat (MPENTRY_PADDR div PGSIZE) = 7"
  by (simp add: mmu_defs)

lemma page_init_eq:
  assumes "boot_alloc kend 0 s = Ok (kva, s0)"
  shows "\<exists>s1. page_init kend s = Ok (fold (init_free_page 7)
             [max (max 1 (npages_basemem s)) (PGNUM (kva - KERNBASE))..<npages s]
             (fold reserve_page [max 1 (npages_basemem s)..<PGNUM (kva - KERNBASE)]
               ((fold (init_free_page 7) [1..<npages_basemem s] (reserve_page 0 s))\<lparr>nextfree := s1\<rparr>)))"
proof -
  have fr: "npages (reserve_page 0 s) = npages s" "npages_basemem (reserve_page 0 s) = npages_basemem s"
    "nextfree (reserve_page 0 s) = nextfree s"
    by (simp_all add: reserve_page_def set_pp_ref_def set_pp_link_def)
  have "\<not> kva < KERNBASE" using assms by (auto simp: boot_alloc_def Let_def split: if_splits)
  moreover have "unat ((kva - KERNBASE) div PGSIZE) = PGNUM (kva - KERNBASE)"
    by (simp add: PGNUM_div unat_div_distrib mmu_defs)
  ultimately show ?thesis
    using boot_alloc_frame [OF assms, of "fold (init_free_page 7) [1..<npages_basemem s] (reserve_page 0 s)"]
    by (auto simp: page_init_def Let_def mpPage_7 fr PADDR_def)
qed

lemma page_init_result:
  assumes ba: "boot_alloc kend 0 s = Ok (kva, s0)"
    and "page_free_list s = None" "npages s \<le> 65536" "npages_basemem s \<le> npages s"
  defines "n1 \<equiv> max 1 (npages_basemem s)" and "n2 \<equiv> PGNUM (kva - KERNBASE)"
  obtains s' where "page_init kend s = Ok s'"
    "free_list s' (rev (filter (\<lambda>i. i \<noteq> 7) [max n1 n2..<npages s])
             @ rev (filter (\<lambda>i. i \<noteq> 7) [1..<npages_basemem s]))"
    "\<And>i. i < npages s \<Longrightarrow> pp_ref (pages s' i)
             = (if i = 0 \<or> i = 7 \<or> n1 \<le> i \<and> i < n2 then 1 else 0)"
    "npages s' = npages s"
proof -
  let ?fl1 = "rev (filter (\<lambda>i. i \<noteq> 7) [1..<npages_basemem s])"
  define t0 where "t0 = reserve_page 0 s"
  define t1 where "t1 = fold (init_free_page 7) [1..<npages_basemem s] t0"
  obtain nf where eq: "page_init kend s = Ok (fold (init_free_page 7) [max n1 n2..<npages s]
       (fold reserve_page [n1..<n2] (t1\<lparr>nextfree := nf\<rparr>)))"
    using page_init_eq [OF ba] unfolding n1_def n2_def t1_def t0_def by auto
  define t2 where "t2 = fold reserve_page [n1..<n2] (t1\<lparr>nextfree := nf\<rparr>)"
  let ?t3 = "fold (init_free_page 7) [max n1 n2..<npages s] t2"
  have np: "npages t0 = npages s" "npages t1 = npages s" "npages t2 = npages s"
    by (simp_all add: t2_def t1_def t0_def reserve_page_def)
  have "free_list t0 []"
    using assms(2) by (simp add: t0_def reserve_page_def free_list_def)
  then have "free_list t1 (?fl1 @ [])"
    unfolding t1_def using assms(4) np by (intro init_free_fold) auto
  then have "free_list t1 ?fl1" by simp
  then have "free_list t2 ?fl1"
    by (rule free_list_cong [OF _])
       (auto simp: t2_def np reserve_fold_pages n1_def)
  then have fl3: "free_list ?t3 (rev (filter (\<lambda>i. i \<noteq> 7) [max n1 n2..<npages s]) @ ?fl1)"
    using np by (intro init_free_fold) (auto simp: n1_def)
  have ref0: "pp_ref (pages t0 i) = (if i = 0 then 1 else pp_ref (pages s i))" for i
    by (simp add: t0_def reserve_page_def)
  have ref1: "pp_ref (pages t1 i) = (if 1 \<le> i \<and> i < npages_basemem s
        then (if i = 7 then 1 else 0) else pp_ref (pages t0 i))" for i
    by (simp add: t1_def init_free_fold_ref)
  have ref2: "pp_ref (pages t2 i) = (if n1 \<le> i \<and> i < n2 then 1 else pp_ref (pages t1 i))" for i
    by (simp add: t2_def reserve_fold_pages)
  have "pp_ref (pages ?t3 i) = (if i = 0 \<or> i = 7 \<or> n1 \<le> i \<and> i < n2 then 1 else 0)"
    if "i < npages s" for i
    using that by (auto simp: init_free_fold_ref ref2 ref1 ref0 n1_def)
  with eq fl3 np that [of ?t3] show ?thesis unfolding t2_def by simp
qed

section \<open>The allocator as a refinement of a list\<close>

lemma wf_pages_iff: "wf_pages s \<longleftrightarrow> npages s \<le> 65536 \<and> (\<exists>fl. free_list s fl)"
  unfolding wf_pages_def using free_list_free_pages by auto

lemma free_pages_cases:
  assumes "wf_pages s"
  shows "(page_free_list s = None \<and> free_pages s = []) \<or>
         (\<exists>p fl. page_free_list s = Some p \<and> free_pages s = p # fl \<and> p < npages s)"
  using assms unfolding wf_pages_def free_list_def by (cases "free_pages s") auto

text \<open>The state after taking \<open>p\<close>, the head of the free list.\<close>

definition taken_page :: "u32 \<Rightarrow> nat \<Rightarrow> kstate \<Rightarrow> kstate" where
  "taken_page flags p s =
     set_pp_ref p 0 ((if flags AND ALLOC_ZERO \<noteq> 0 then memset_page p 0 else id)
       (s\<lparr>page_free_list := pp_link (pages s p)\<rparr>))"

lemma taken_page_simps [simp]:
  "npages (taken_page flags p s) = npages s"
  "pages (taken_page flags p s) = (pages s)(p := (pages s p)\<lparr>pp_ref := 0\<rparr>)"
  "frames (taken_page flags p s)
     = (if flags AND ALLOC_ZERO \<noteq> 0 then (frames s)(p := (\<lambda>i. 0)) else frames s)"
  "page_free_list (taken_page flags p s) = pp_link (pages s p)"
  by (simp_all add: taken_page_def)

lemma page_alloc_eq:
  assumes "wf_pages s"
  shows "page_alloc flags s =
     (case free_pages s of [] \<Rightarrow> Ok (None, s) | p # _ \<Rightarrow> Ok (Some p, taken_page flags p s))"
proof (cases "free_pages s")
  case Nil
  with assms show ?thesis by (simp add: wf_pages_def page_alloc_Nil)
next
  case (Cons p ps)
  with assms have "free_list s (p # ps)" "npages s \<le> 65536" by (simp_all add: wf_pages_def)
  then show ?thesis
    by (rule page_alloc_Cons [where flags = flags]) (simp add: Cons taken_page_def)
qed

lemma taken_page_wf:
  assumes "wf_pages s" "free_pages s = p # ps"
  shows "wf_pages (taken_page flags p s)" "free_pages (taken_page flags p s) = ps"
proof -
  have fl: "free_list s (p # ps)" "npages s \<le> 65536"
    using assms by (simp_all add: wf_pages_def)
  from page_alloc_Cons [OF this, of flags] have "free_list (taken_page flags p s) ps"
    unfolding taken_page_def by metis
  then show "wf_pages (taken_page flags p s)" "free_pages (taken_page flags p s) = ps"
    using fl(2) by (auto simp: wf_pages_iff dest: free_list_free_pages)
qed

definition may_free_page :: "nat \<Rightarrow> kstate \<Rightarrow> bool" where
  "may_free_page p s \<longleftrightarrow> p < npages s \<and> pp_ref (pages s p) = 0 \<and> p \<notin> set (free_pages s)"

lemma page_free_wf:
  assumes "wf_pages s" "may_free_page p s"
  obtains s' where "page_free p s = Ok s'" "wf_pages s'" "free_pages s' = p # free_pages s"
    "npages s' = npages s"
proof -
  have fl: "free_list s (free_pages s)" "npages s \<le> 65536"
    using assms(1) by (simp_all add: wf_pages_def)
  let ?s' = "(set_pp_link p (page_free_list s) s)\<lparr>page_free_list := Some p\<rparr>"
  have ok: "page_free p s = Ok ?s'" "free_list ?s' (p # free_pages s)"
    using assms(2) page_free_ok [OF fl(1)] by (auto simp: may_free_page_def)
  then have "wf_pages ?s'" "free_pages ?s' = p # free_pages s" "npages ?s' = npages s"
    using fl by (auto simp: wf_pages_iff dest: free_list_free_pages)
  with ok that show ?thesis by blast
qed

interpretation page_pool: resource_pool
  "\<lambda>s r s'. page_alloc ALLOC_ZERO s = Ok (Some r, s')"
  "\<lambda>s. page_alloc ALLOC_ZERO s = Ok (None, s)"
  "\<lambda>r s s'. page_free r s = Ok s'"
  may_free_page "\<lambda>s. set (free_pages s)" wf_pages
proof
  fix s r s'
  assume wf: "wf_pages s" and al: "page_alloc ALLOC_ZERO s = Ok (Some r, s')"
  then obtain ps where ps: "free_pages s = r # ps" "s' = taken_page ALLOC_ZERO r s"
    by (auto simp: page_alloc_eq split: list.splits)
  moreover have "distinct (free_pages s)"
    using wf unfolding wf_pages_def by (blast dest: free_list_distinct)
  ultimately show "r \<in> set (free_pages s) \<and> set (free_pages s') = set (free_pages s) - {r}"
    using taken_page_wf [OF wf ps(1)] by auto
  show "wf_pages s'" using taken_page_wf [OF wf ps(1)] ps(2) by simp
next
  fix s p
  assume "wf_pages s" "may_free_page p s"
  then show "\<exists>s'. page_free p s = Ok s'" using page_free_wf by metis
next
  fix s p s'
  assume "wf_pages s" "may_free_page p s" "page_free p s = Ok s'"
  then show "set (free_pages s') = insert p (set (free_pages s))" "wf_pages s'"
    by (metis page_free_wf res.inject(1) list.simps(15))+
qed (auto simp: page_alloc_eq split: list.splits)

section \<open>Properties\<close>

text \<open>
  C1. The page allocator is a stack of free pages. On a well-formed free list \<open>page_alloc\<close> never
  panics: it returns NULL exactly when no page is free, else the first free page, which it takes
  off the list with a reference count of 0 and, under \<open>ALLOC_ZERO\<close>, with every word cleared; no
  other page frame changes. \<open>page_free\<close> of an unreferenced page that is not on the list pushes
  it. Both keep the list well-formed.
\<close>

theorem page_allocator_refines_stack:
  assumes "wf_pages s"
  shows "(\<exists>s'. page_alloc flags s = Ok (case free_pages s of [] \<Rightarrow> None | p # _ \<Rightarrow> Some p, s')
      \<and> wf_pages s' \<and> free_pages s' = tl (free_pages s)
      \<and> (\<forall>p ps. free_pages s = p # ps \<longrightarrow> pp_ref (pages s' p) = 0
           \<and> frames s' = (if flags AND ALLOC_ZERO \<noteq> 0
                          then (frames s)(p := (\<lambda>i. 0)) else frames s)))
    \<and> (may_free_page p s \<longrightarrow>
      (\<exists>s'. page_free p s = Ok s' \<and> wf_pages s' \<and> free_pages s' = p # free_pages s))"
proof (intro conjI impI)
  show "\<exists>s'. page_alloc flags s = Ok (case free_pages s of [] \<Rightarrow> None | p # _ \<Rightarrow> Some p, s')
      \<and> wf_pages s' \<and> free_pages s' = tl (free_pages s)
      \<and> (\<forall>p ps. free_pages s = p # ps \<longrightarrow> pp_ref (pages s' p) = 0
           \<and> frames s' = (if flags AND ALLOC_ZERO \<noteq> 0
                          then (frames s)(p := (\<lambda>i. 0)) else frames s))"
    using assms taken_page_wf [OF assms] by (cases "free_pages s") (auto simp: page_alloc_eq)
  show "may_free_page p s \<Longrightarrow>
      \<exists>s'. page_free p s = Ok s' \<and> wf_pages s' \<and> free_pages s' = p # free_pages s"
    using page_free_wf [OF assms] by metis
qed

text \<open>A state with the single free page 1, for the examples.\<close>

definition one_free_page :: kstate where
  "one_free_page = (bss_kstate 4 4)\<lparr>page_free_list := Some 1\<rparr>"

lemma one_free_page_wf: "wf_pages one_free_page" "free_pages one_free_page = [1]"
proof -
  have "free_list one_free_page [1]"
    by (simp add: free_list_def one_free_page_def bss_kstate_def)
  then show "wf_pages one_free_page" "free_pages one_free_page = [1]"
    by (auto simp: wf_pages_iff one_free_page_def bss_kstate_def dest: free_list_free_pages)
qed

theorem page_allocator_refines_stack_witness:
  "(\<exists>s'. page_alloc ALLOC_ZERO one_free_page = Ok (Some 1, s') \<and> wf_pages s' \<and> free_pages s' = [])
   \<and> (\<exists>s'. page_free 2 one_free_page = Ok s' \<and> free_pages s' = [2, 1])"
proof -
  have "may_free_page 2 one_free_page"
    by (simp add: may_free_page_def one_free_page_wf) (simp add: one_free_page_def bss_kstate_def)
  then show ?thesis
    using page_allocator_refines_stack [OF one_free_page_wf(1), of ALLOC_ZERO 2]
    by (auto simp: one_free_page_wf(2))
qed

text \<open>
  C2. \<open>page_init\<close>, started with an empty free list, builds exactly this list: the pages of
  extended memory from the end of the kernel's boot-time data on, then the pages of base memory
  from page 1 on, both downwards, without the page of the AP startup code (page 7). Page 0, page
  7 and the pages between base memory and the end of the boot-time data (the IO hole, the kernel
  and what \<open>boot_alloc\<close> handed out) get a reference count of 1, every other page 0.
\<close>

theorem page_init_builds_free_list:
  assumes "boot_alloc kend 0 s = Ok (kva, s0)" "page_free_list s = None"
    and "npages s \<le> 65536" "npages_basemem s \<le> npages s"
    and "n1 = max 1 (npages_basemem s)" "n2 = PGNUM (kva - KERNBASE)"
  shows "\<exists>s'. page_init kend s = Ok s' \<and> wf_pages s'
     \<and> free_pages s' = rev (filter (\<lambda>i. i \<noteq> 7) [max n1 n2..<npages s])
                        @ rev (filter (\<lambda>i. i \<noteq> 7) [1..<npages_basemem s])
     \<and> (\<forall>i<npages s. pp_ref (pages s' i) = (if i = 0 \<or> i = 7 \<or> n1 \<le> i \<and> i < n2 then 1 else 0))"
proof -
  obtain s' where s': "page_init kend s = Ok s'"
    "free_list s' (rev (filter (\<lambda>i. i \<noteq> 7) [max n1 n2..<npages s])
             @ rev (filter (\<lambda>i. i \<noteq> 7) [1..<npages_basemem s]))"
    "\<And>i. i < npages s \<Longrightarrow> pp_ref (pages s' i)
             = (if i = 0 \<or> i = 7 \<or> n1 \<le> i \<and> i < n2 then 1 else 0)"
    "npages s' = npages s"
    by (rule page_init_result [OF assms(1-4)]) (simp add: assms(5,6))
  moreover from this have "wf_pages s'" using assms(3) by (auto simp: wf_pages_iff)
  ultimately show ?thesis by (auto dest: free_list_free_pages)
qed

theorem page_init_builds_free_list_witness:
  "\<exists>s'. page_init 0xF0003000 (bss_kstate 10 2) = Ok s' \<and> wf_pages s'
     \<and> free_pages s' = [9, 8, 6, 5, 4, 3, 1] \<and> pp_ref (pages s' 2) = 1"
proof -
  have "boot_alloc 0xF0003000 0 (bss_kstate 10 2)
      = Ok (0xF0003000, (bss_kstate 10 2)\<lparr>nextfree := 0xF0003000\<rparr>)"
    by (simp add: boot_alloc_def bss_kstate_def ROUNDUP_def ROUNDDOWN_def mmu_defs PGNUM_def)
  from page_init_builds_free_list [OF this, of 2 3] show ?thesis
    by (auto simp: bss_kstate_def PGNUM_def mmu_defs upt_rec)
qed



end
