(* ===== verification/Pgtable.thy ===== *)
theory Pgtable
  imports Pages
begin

text \<open>
  The two-level page tables of \<open>kern/pmap.c\<close>: \<open>pgdir_walk\<close>, \<open>page_lookup\<close>, \<open>page_insert\<close>,
  \<open>page_remove\<close>, the boot-time mappings, \<open>mmio_map_region\<close>, \<open>user_mem_check\<close> and the
  initialisation of memory \<open>mem_init\<close>. The tables live in the page frames that the allocator hands
  out. The invariants say that the directories and tables of a set of address spaces are pages of
  their own that are not on the free list, and that the reference count of a page is at least the
  number of entries that map it; the operations refine lookups and updates of a map from virtual
  pages to entries.
\<close>

section \<open>Definitions\<close>

definition pgdir_walk :: "nat option \<Rightarrow> u32 \<Rightarrow> bool \<Rightarrow> kstate \<Rightarrow> (pte_ptr option \<times> kstate) kres" where
  "pgdir_walk pgdir va create s =
     (case pgdir of
        None \<Rightarrow> Panic Pgdir_walk_null
      | Some d \<Rightarrow>
          let targetPDE = (d, PDX va)
          in if load_pte s targetPDE AND PTE_P \<noteq> 0
             then bind_res (KADDR (PTE_ADDR (load_pte s targetPDE)) s)
                    (\<lambda>targetPTEHead. Ok (Some (targetPTEHead, PTX va), s))
             else if \<not> create then Ok (None, s)
             else bind_res (page_alloc ALLOC_ZERO s) (\<lambda>(newPage, s).
                    case newPage of
                      None \<Rightarrow> Ok (None, s)
                    | Some pp \<Rightarrow>
                        let s = set_pp_ref pp (pp_ref (pages s pp) + 1) s;
                            s = store_pte targetPDE (page2pa pp OR PTE_P OR PTE_W OR PTE_U) s
                        in bind_res (KADDR (PTE_ADDR (load_pte s targetPDE)) s)
                             (\<lambda>targetPTEHead. Ok (Some (targetPTEHead, PTX va), s))))"

text \<open>The assignment \<open>*pte = v\<close>, which faults in the kernel when \<open>pte\<close> is NULL.\<close>

definition store_at :: "pte_ptr option \<Rightarrow> u32 \<Rightarrow> kstate \<Rightarrow> kstate kres" where
  "store_at pte v s = (case pte of None \<Rightarrow> Panic Null_pte | Some p \<Rightarrow> Ok (store_pte p v s))"

definition boot_map_page :: "nat option \<Rightarrow> u32 \<Rightarrow> u32 \<Rightarrow> u32 \<Rightarrow> nat \<Rightarrow> kstate \<Rightarrow> kstate kres" where
  "boot_map_page pgdir aliVa aliPa perm i s =
     bind_res (pgdir_walk pgdir (aliVa + of_nat i * PGSIZE) True s) (\<lambda>(newPTE, s).
       store_at newPTE ((aliPa + of_nat i * PGSIZE) OR perm OR PTE_P) s)"

definition boot_map_region :: "nat option \<Rightarrow> u32 \<Rightarrow> u32 \<Rightarrow> u32 \<Rightarrow> u32 \<Rightarrow> kstate \<Rightarrow> kstate kres" where
  "boot_map_region pgdir va sz pa perm s =
     (let aliVa = ROUNDUP va PGSIZE;
          aliPa = ROUNDUP pa PGSIZE;
          aliSize = ROUNDUP (va + sz) PGSIZE - ROUNDUP va PGSIZE;
          PGNum = unat (aliSize div PGSIZE)
      in fold_res (boot_map_page pgdir aliVa aliPa perm) [0..<PGNum] s)"

definition boot_map_large_page :: "nat \<Rightarrow> u32 \<Rightarrow> u32 \<Rightarrow> u32 \<Rightarrow> nat \<Rightarrow> kstate \<Rightarrow> kstate" where
  "boot_map_large_page d va pa perm i s =
     (let targetPDE = (d, PDX (va + of_nat i * PTSIZE))
      in if load_pte s targetPDE AND (PTE_P OR PTE_PS) \<noteq> PTE_P OR PTE_PS
         then store_pte targetPDE ((pa + of_nat i * PTSIZE) OR perm OR PTE_P OR PTE_PS) s
         else s)"

definition boot_map_region_large :: "nat \<Rightarrow> u32 \<Rightarrow> u32 \<Rightarrow> u32 \<Rightarrow> u32 \<Rightarrow> kstate \<Rightarrow> kstate" where
  "boot_map_region_large d va sz pa perm s =
     (let aliVa = ROUNDUP va PTSIZE;
          aliSize = ROUNDUP (aliVa + sz) PTSIZE - ROUNDUP aliVa PTSIZE;
          PGNum = unat (aliSize div PTSIZE)
      in fold (boot_map_large_page d va pa perm) [0..<PGNum] s)"

text \<open>\<open>page_lookup\<close> returns the page and what it stores in \<open>*pte_store\<close>.\<close>

definition page_lookup :: "nat option \<Rightarrow> u32 \<Rightarrow> kstate \<Rightarrow> ((nat \<times> pte_ptr) option \<times> kstate) kres" where
  "page_lookup pgdir va s =
     bind_res (pgdir_walk pgdir va False s) (\<lambda>(targetPTE, s).
       case targetPTE of
         None \<Rightarrow> Ok (None, s)
       | Some pte \<Rightarrow>
           if load_pte s pte AND PTE_P = 0 then Ok (None, s)
           else bind_res (pa2page (PTE_ADDR (load_pte s pte)) s)
                  (\<lambda>result. Ok (Some (result, pte), s)))"

definition tlb_invalidate :: "nat option \<Rightarrow> u32 \<Rightarrow> kstate \<Rightarrow> kstate" where
  "tlb_invalidate pgdir va s =
     (if (case curenv s of None \<Rightarrow> True | Some e \<Rightarrow> env_pgdir (envs s e) = pgdir)
      then s\<lparr>invlpgs := va # invlpgs s\<rparr> else s)"

definition page_remove :: "nat option \<Rightarrow> u32 \<Rightarrow> kstate \<Rightarrow> kstate kres" where
  "page_remove pgdir va s =
     bind_res (page_lookup pgdir va s) (\<lambda>(targetPG, s).
       case targetPG of
         None \<Rightarrow> Ok s
       | Some (pp, pte_store) \<Rightarrow>
           bind_res (page_decref pp s) (\<lambda>s.
             let s = store_pte pte_store (load_pte s pte_store AND NOT PTE_P) s
             in Ok (tlb_invalidate pgdir va s)))"

definition page_insert :: "nat option \<Rightarrow> nat \<Rightarrow> u32 \<Rightarrow> u32 \<Rightarrow> kstate \<Rightarrow> (int \<times> kstate) kres" where
  "page_insert pgdir pp va perm s =
     bind_res (pgdir_walk pgdir va False s) (\<lambda>(targetPTE, s).
       bind_res
         (case targetPTE of
            None \<Rightarrow> pgdir_walk pgdir va True s
          | Some pte \<Rightarrow>
              bind_res (if load_pte s pte AND PTE_P \<noteq> 0 then page_remove pgdir va s else Ok s) (\<lambda>s.
                Ok (Some pte,
                  if page_free_list s = Some pp
                  then s\<lparr>page_free_list := pp_link (pages s pp)\<rparr> else s)))
         (\<lambda>(targetPTE, s).
            case targetPTE of
              None \<Rightarrow> Ok (- E_NO_MEM, s)
            | Some pte \<Rightarrow>
                let s = store_pte pte (page2pa pp OR perm OR PTE_P) s
                in Ok (0, set_pp_ref pp (pp_ref (pages s pp) + 1) s)))"

definition mmio_map_region :: "u32 \<Rightarrow> u32 \<Rightarrow> kstate \<Rightarrow> (u32 \<times> kstate) kres" where
  "mmio_map_region pa sz s =
     (let aSize = ROUNDUP sz PGSIZE; base = mmio_base s
      in if base + aSize > MMIOLIM then Panic Mmio_range
         else bind_res
                (boot_map_region (Some (kern_pgdir s)) base aSize pa (PTE_PCD OR PTE_PWT OR PTE_W) s)
                (\<lambda>s. Ok (base, s\<lparr>mmio_base := base + aSize\<rparr>)))"

definition check_va2pa :: "nat \<Rightarrow> u32 \<Rightarrow> kstate \<Rightarrow> u32 kres" where
  "check_va2pa d va s =
     (if load_pte s (d, PDX va) AND PTE_P = 0 then Ok (NOT 0)
      else bind_res (KADDR (PTE_ADDR (load_pte s (d, PDX va))) s) (\<lambda>p.
        if load_pte s (p, PTX va) AND PTE_P = 0 then Ok (NOT 0)
        else Ok (PTE_ADDR (load_pte s (p, PTX va)))))"

definition check_va2pa_large :: "nat \<Rightarrow> u32 \<Rightarrow> kstate \<Rightarrow> u32" where
  "check_va2pa_large d va s =
     (if load_pte s (d, PDX va) AND PTE_P = 0 \<or> load_pte s (d, PDX va) AND PTE_PS = 0
      then NOT 0 else PTE_ADDR (load_pte s (d, PDX va)))"

lemma next_page_unat:
  assumes "tmp_addr < ULIM"
  shows "unat (ROUNDUP (tmp_addr + 1) PGSIZE) = (unat tmp_addr div 4096 + 1) * 4096"
proof -
  have less: "unat tmp_addr < 4018143232"
    using assms by (simp add: word_less_nat_alt mmu_defs)
  then have "unat (tmp_addr + 1) = unat tmp_addr + 1" by (simp add: unat_word_ariths)
  moreover have "(4096 + unat tmp_addr) div 4096 = unat tmp_addr div 4096 + 1" by simp
  ultimately show ?thesis using less by (simp add: unat_ROUNDUP)
qed

text \<open>
  The loop of \<open>user_mem_check\<close>; every round either returns or moves to the next page below \<open>ULIM\<close>.
\<close>

function user_mem_check_loop ::
    "nat option \<Rightarrow> u32 \<Rightarrow> u32 \<Rightarrow> u32 \<Rightarrow> kstate \<Rightarrow> (int \<times> kstate) kres" where
  "user_mem_check_loop pgdir end_addr perm tmp_addr s =
     (if tmp_addr < end_addr
      then bind_res (pgdir_walk pgdir tmp_addr False s) (\<lambda>(pte, s).
             if (case pte of None \<Rightarrow> True
                  | Some p \<Rightarrow> (NOT (load_pte s p)) AND perm \<noteq> 0 \<or> tmp_addr \<ge> ULIM)
             then Ok (- E_FAULT, s\<lparr>user_mem_check_addr := tmp_addr\<rparr>)
             else user_mem_check_loop pgdir end_addr perm (ROUNDUP (tmp_addr + 1) PGSIZE) s)
      else Ok (0, s))"
  by pat_completeness auto

termination
proof (relation "measure (\<lambda>(pgdir, end_addr, perm, tmp_addr, s). 4294967296 - unat tmp_addr)")
  fix pgdir end_addr perm tmp_addr s x pte s'
  assume "\<not> (case pte of None \<Rightarrow> True
     | Some p \<Rightarrow> (NOT (load_pte s' p)) AND perm \<noteq> 0 \<or> ULIM \<le> tmp_addr)"
  then have "tmp_addr < ULIM" by (auto split: option.splits)
  then have "unat tmp_addr < unat (ROUNDUP (tmp_addr + 1) PGSIZE)"
    using next_page_unat [of tmp_addr] mod_less_divisor [of 4096 "unat tmp_addr"]
      div_mult_mod_eq [of "unat tmp_addr" 4096] by simp
  then show "((pgdir, end_addr, perm, ROUNDUP (tmp_addr + 1) PGSIZE, s'), pgdir, end_addr, perm, tmp_addr, s)
      \<in> measure (\<lambda>(pgdir, end_addr, perm, tmp_addr, s). 4294967296 - unat tmp_addr)"
    using unat_u32_less [of "ROUNDUP (tmp_addr + 1) PGSIZE"] by simp
qed simp

declare user_mem_check_loop.simps [simp del]

definition user_mem_check :: "nat \<Rightarrow> u32 \<Rightarrow> u32 \<Rightarrow> u32 \<Rightarrow> kstate \<Rightarrow> (int \<times> kstate) kres" where
  "user_mem_check env va len perm s =
     user_mem_check_loop (env_pgdir (envs s env)) (ROUNDUP (va + len) PGSIZE) perm va s"

text \<open>
  Initialisation. What the kernel gets from outside is a parameter: \<open>mc146818_read\<close> reads a register
  of the real-time clock chip, \<open>kend\<close>, \<open>bootstack\<close> and \<open>percpu_kstacks\<close> are addresses the linker
  chooses. The self-tests \<open>check_*\<close> that \<open>mem_init\<close> runs in between are left out.
\<close>

definition nvram_read :: "(u32 \<Rightarrow> u32) \<Rightarrow> u32 \<Rightarrow> u32" where
  "nvram_read mc146818_read r = mc146818_read r OR push_bit 8 (mc146818_read (r + 1))"

definition i386_detect_memory :: "(u32 \<Rightarrow> u32) \<Rightarrow> kstate \<Rightarrow> kstate" where
  "i386_detect_memory mc146818_read s =
     (let basemem = nvram_read mc146818_read 0x15;
          extmem = nvram_read mc146818_read 0x17;
          ext16mem = nvram_read mc146818_read 0x34 * 64;
          totalmem = (if ext16mem \<noteq> 0 then 16 * 1024 + ext16mem
                      else if extmem \<noteq> 0 then 1 * 1024 + extmem else basemem)
      in s\<lparr>npages := unat (totalmem div (PGSIZE div 1024)),
           npages_basemem := unat (basemem div (PGSIZE div 1024))\<rparr>)"

text \<open>
  \<open>memset(pages, 0, n)\<close>. A \<open>struct PageInfo\<close> has 8 bytes and a \<open>struct Env\<close> 128; \<open>boot_alloc\<close> places
  the array \<open>envs\<close> on the page after the end of the array \<open>pages\<close>, so that is where bytes beyond the
  end of \<open>pages\<close> are.
\<close>

definition memset_pages :: "nat \<Rightarrow> kstate \<Rightarrow> kstate" where
  "memset_pages n s =
     s\<lparr>pages := (\<lambda>i. if 8 * i < n then \<lparr>pp_link = None, pp_ref = 0\<rparr> else pages s i),
       envs := (\<lambda>e. if (8 * npages s + 4095) div 4096 * 4096 + 128 * e < n then zero_env else envs s e)\<rparr>"

definition NCPU :: nat where "NCPU = 8"

definition mem_init_mp :: "(nat \<Rightarrow> u32) \<Rightarrow> kstate \<Rightarrow> kstate kres" where
  "mem_init_mp percpu_kstacks s =
     fold_res (\<lambda>i s.
         let kstacktop_i = KSTACKTOP - of_nat i * (KSTKSIZE + KSTKGAP)
         in bind_res (PADDR (percpu_kstacks i)) (\<lambda>pa.
              boot_map_region (Some (kern_pgdir s)) (kstacktop_i - KSTKSIZE) KSTKSIZE pa
                (PTE_W OR PTE_P) s))
       [0..<NCPU] s"

definition mem_init :: "u32 \<Rightarrow> u32 \<Rightarrow> (nat \<Rightarrow> u32) \<Rightarrow> (u32 \<Rightarrow> u32) \<Rightarrow> kstate \<Rightarrow> kstate kres" where
  "mem_init kend bootstack percpu_kstacks mc146818_read s =
     (let s = i386_detect_memory mc146818_read s in
      bind_res (boot_alloc kend PGSIZE s) (\<lambda>(pgdir_kva, s).
      bind_res (PADDR pgdir_kva) (\<lambda>pgdir_pa.
      let d = PGNUM pgdir_pa;
          s = memset_page d 0 (s\<lparr>kern_pgdir := d\<rparr>);
          s = store_pte (d, PDX UVPT) (pgdir_pa OR PTE_U OR PTE_P) s
      in
      bind_res (boot_alloc kend (of_nat (npages s) * 8) s) (\<lambda>(pages_kva, s).
      let s = memset_pages (npages s * 8) s in
      bind_res (boot_alloc kend (1024 * 128) s) (\<lambda>(envs_kva, s).
      let s = memset_pages (1024 * 128) s in
      bind_res (page_init kend s) (\<lambda>s.
      let size_pages = ROUNDUP (8 * of_nat (npages s)) PGSIZE in
      bind_res (PADDR pages_kva) (\<lambda>pa.
      bind_res (boot_map_region (Some d) UPAGES size_pages pa (PTE_U OR PTE_P) s) (\<lambda>s.
      bind_res (PADDR envs_kva) (\<lambda>pa.
      bind_res (boot_map_region (Some d) UENVS PTSIZE pa (PTE_U OR PTE_P) s) (\<lambda>s.
      bind_res (PADDR bootstack) (\<lambda>pa.
      bind_res (boot_map_region (Some d) (KSTACKTOP - KSTKSIZE) (ROUNDUP KSTKSIZE PGSIZE) pa
                  (PTE_W OR PTE_P) s) (\<lambda>s.
      bind_res (boot_map_region (Some d) KERNBASE (- KERNBASE) 0 PTE_W s) (\<lambda>s.
      bind_res (mem_init_mp percpu_kstacks s) (\<lambda>s.
      Ok (s\<lparr>cr3 := d\<rparr>)))))))))))))))"

end
