(* ===== verification/Vm.thy ===== *)
theory Vm
  imports Pgtable
begin

text \<open>
  The correctness of the page tables. \<open>slot s d i j\<close> is the present entry that directory \<open>d\<close> gives
  for directory index \<open>i\<close> and table index \<open>j\<close>, if there is one. \<open>wf_tables U D s\<close> says that for the
  directories in \<open>D\<close> and the directory indexes in \<open>U\<close> all tables are different pages, none of them a
  directory and none of them free; \<open>wf_vm U D s\<close> adds that a mapped page is neither a table nor a
  directory and that its reference count covers its mappings, so a mapped page is never free.
\<close>

section \<open>Definitions\<close>

definition tab :: "kstate \<Rightarrow> nat \<Rightarrow> nat \<Rightarrow> nat option" where
  "tab s d i = (if frames s d i AND PTE_P \<noteq> 0 then Some (PGNUM (frames s d i)) else None)"

definition slot :: "kstate \<Rightarrow> nat \<Rightarrow> nat \<Rightarrow> nat \<Rightarrow> u32 option" where
  "slot s d i j = (case tab s d i of None \<Rightarrow> None
     | Some t \<Rightarrow> if frames s t j AND PTE_P \<noteq> 0 then Some (frames s t j) else None)"

definition translate :: "kstate \<Rightarrow> nat \<Rightarrow> u32 \<Rightarrow> u32 option" where
  "translate s d va = slot s d (PDX va) (PTX va)"

definition tables :: "nat set \<Rightarrow> nat set \<Rightarrow> kstate \<Rightarrow> nat set" where
  "tables U D s = {t. \<exists>d\<in>D. \<exists>i\<in>U. tab s d i = Some t}"

definition wf_tables :: "nat set \<Rightarrow> nat set \<Rightarrow> kstate \<Rightarrow> bool" where
  "wf_tables U D s \<longleftrightarrow> wf_pages s
     \<and> (\<forall>p \<in> D \<union> tables U D s. p < npages s \<and> p \<notin> set (free_pages s))
     \<and> D \<inter> tables U D s = {}
     \<and> (\<forall>d\<in>D. \<forall>i\<in>U. \<forall>d'\<in>D. \<forall>i'\<in>U. \<forall>t. tab s d i = Some t \<longrightarrow> tab s d' i' = Some t \<longrightarrow> d = d' \<and> i = i')"

definition mappings :: "nat set \<Rightarrow> nat set \<Rightarrow> kstate \<Rightarrow> nat \<Rightarrow> (nat \<times> nat \<times> nat) set" where
  "mappings U D s p = {(d, i, j). d \<in> D \<and> i \<in> U \<and> j < 1024 \<and> (\<exists>e. slot s d i j = Some e \<and> PGNUM e = p)}"

definition wf_vm :: "nat set \<Rightarrow> nat set \<Rightarrow> kstate \<Rightarrow> bool" where
  "wf_vm U D s \<longleftrightarrow> wf_tables U D s \<and> finite U \<and> finite D
     \<and> (\<forall>d\<in>D. \<forall>i\<in>U. \<forall>j<1024. \<forall>e. slot s d i j = Some e \<longrightarrow>
          PGNUM e < npages s \<and> PGNUM e \<notin> D \<union> tables U D s)
     \<and> (\<forall>p. card (mappings U D s p) \<le> unat (pp_ref (pages s p)))"

text \<open>
  From \<open>s\<close> to \<open>s'\<close> the slot \<open>(d, i, j)\<close> becomes \<open>v\<close>; the other slots and the tables stay, and so
  does the invariant.
\<close>

definition vm_update :: "nat set \<Rightarrow> nat set \<Rightarrow> nat \<Rightarrow> nat \<Rightarrow> nat \<Rightarrow> u32 option \<Rightarrow> kstate \<Rightarrow> kstate \<Rightarrow> bool" where
  "vm_update U D d i j v s s' \<longleftrightarrow> wf_vm U D s' \<and> npages s' = npages s \<and> tables U D s' = tables U D s
     \<and> (\<forall>d'\<in>D. \<forall>i'\<in>U. tab s' d' i' = tab s d' i')
     \<and> (\<forall>d'\<in>D. \<forall>i'\<in>U. \<forall>j'. slot s' d' i' j' =
          (if d' = d \<and> i' = i \<and> j' = j then v else slot s d' i' j'))"

text \<open>The change that removing the mapping \<open>m\<close> makes to a reference count and to the free list.\<close>

definition refs_drop :: "u32 option \<Rightarrow> nat \<Rightarrow> u16" where
  "refs_drop m q = (case m of None \<Rightarrow> 0 | Some e \<Rightarrow> if q = PGNUM e then 1 else 0)"

definition freed_by :: "u32 option \<Rightarrow> kstate \<Rightarrow> nat list" where
  "freed_by m s = (case m of None \<Rightarrow> []
     | Some e \<Rightarrow> if pp_ref (pages s (PGNUM e)) = 1 then [PGNUM e] else [])"

text \<open>What the operations on page tables leave alone.\<close>

definition vm_frame :: "kstate \<Rightarrow> kstate \<Rightarrow> bool" where
  "vm_frame s s' \<longleftrightarrow> (\<exists>pg fl fr il.
     s' = s\<lparr>pages := pg, page_free_list := fl, frames := fr, invlpgs := il\<rparr>)"

text \<open>The state after a page table has been put into entry \<open>i\<close> of directory \<open>d\<close>.\<close>

definition new_table :: "nat \<Rightarrow> nat \<Rightarrow> nat \<Rightarrow> kstate \<Rightarrow> kstate" where
  "new_table d i p s = store_pte (d, i) (page2pa p OR PTE_P OR PTE_W OR PTE_U)
     (set_pp_ref p 1 (taken_page ALLOC_ZERO p s))"

text \<open>The state after a reference to page \<open>p\<close> has been dropped.\<close>

definition decref_state :: "nat \<Rightarrow> kstate \<Rightarrow> kstate" where
  "decref_state p s =
     (if pp_ref (pages s p) = 1
      then (set_pp_link p (page_free_list s) (set_pp_ref p 0 s))\<lparr>page_free_list := Some p\<rparr>
      else set_pp_ref p (pp_ref (pages s p) - 1) s)"

text \<open>
  What \<open>user_mem_check\<close> requires of an address: a page table entry with all of \<open>perm\<close>, below \<open>ULIM\<close>.
\<close>

definition user_ok :: "kstate \<Rightarrow> nat \<Rightarrow> u32 \<Rightarrow> u32 \<Rightarrow> bool" where
  "user_ok s d perm a \<longleftrightarrow> a < ULIM \<and> (case tab s d (PDX a) of None \<Rightarrow> False
     | Some t \<Rightarrow> (NOT (frames s t (PTX a))) AND perm = 0)"

text \<open>
  The directory entries without a table among those of the first \<open>n\<close> pages from \<open>va\<close> on.
\<close>

definition missing_tables :: "nat \<Rightarrow> u32 \<Rightarrow> nat \<Rightarrow> kstate \<Rightarrow> nat set" where
  "missing_tables d va n s = {i. tab s d i = None \<and> (\<exists>k<n. i = PDX (va + of_nat k * PGSIZE))}"

text \<open>The directory entries below \<open>UTOP\<close>: the part of an address space that belongs to the user.\<close>

definition user_part :: "nat set" where
  "user_part = {..<PDX UTOP}"

text \<open>An example: page 3 mapped at \<open>0x5000\<close> through table page 1 and directory page 2.\<close>

definition mapped_page :: kstate where
  "mapped_page = (bss_kstate 4 4)\<lparr>
     frames := (\<lambda>_ _. 0)(2 := (\<lambda>_. 0)(0 := 0x1007), 1 := (\<lambda>_. 0)(5 := 0x3007)),
     pages := (\<lambda>_. \<lparr>pp_link = None, pp_ref = 0\<rparr>)(1 := \<lparr>pp_link = None, pp_ref = 1\<rparr>,
       2 := \<lparr>pp_link = None, pp_ref = 1\<rparr>, 3 := \<lparr>pp_link = None, pp_ref = 1\<rparr>),
     envs := (\<lambda>_. zero_env\<lparr>env_pgdir := Some 2\<rparr>)\<rparr>"

section \<open>What the operations leave alone\<close>

lemma vm_frame_refl [simp]: "vm_frame s s"
  unfolding vm_frame_def by (rule exI [of _ "pages s"], rule exI [of _ "page_free_list s"],
    rule exI [of _ "frames s"], rule exI [of _ "invlpgs s"]) simp

lemma vm_frame_trans: "vm_frame s s' \<Longrightarrow> vm_frame s' s'' \<Longrightarrow> vm_frame s s''"
  unfolding vm_frame_def by force

lemma vm_frame_eqI:
  assumes "vm_frame t t'" "vm_frame t' t"
  shows "vm_frame s t' = vm_frame s t"
  using assms vm_frame_trans by blast

lemma vm_frame_set:
  "vm_frame s (s\<lparr>pages := pg\<rparr>)" "vm_frame s (s\<lparr>page_free_list := fl\<rparr>)"
  "vm_frame s (s\<lparr>frames := fr\<rparr>)" "vm_frame s (s\<lparr>invlpgs := il\<rparr>)"
  "vm_frame (s\<lparr>pages := pg\<rparr>) s" "vm_frame (s\<lparr>page_free_list := fl\<rparr>) s"
  "vm_frame (s\<lparr>frames := fr\<rparr>) s" "vm_frame (s\<lparr>invlpgs := il\<rparr>) s"
  unfolding vm_frame_def by (cases s; force)+

lemma vm_frame_steps [simp]:
  "vm_frame s (store_pte p v t) = vm_frame s t"
  "vm_frame s (set_pp_ref q r t) = vm_frame s t"
  "vm_frame s (set_pp_link q l t) = vm_frame s t"
  "vm_frame s (memset_page n w t) = vm_frame s t"
  "vm_frame s (t\<lparr>page_free_list := f\<rparr>) = vm_frame s t"
  "vm_frame s (t\<lparr>invlpgs := il\<rparr>) = vm_frame s t"
  by (rule vm_frame_eqI; simp add: store_pte_def set_pp_ref_def set_pp_link_def memset_page_def
      vm_frame_set)+

lemma vm_frame_pre: "vm_frame (set_pp_ref q r s) s' \<Longrightarrow> vm_frame s s'"
  by (rule vm_frame_trans [of _ "set_pp_ref q r s"]) simp_all

lemma vm_frame_fields:
  assumes "vm_frame s s'"
  shows "npages s' = npages s" "npages_basemem s' = npages_basemem s" "kern_pgdir s' = kern_pgdir s"
    "envs s' = envs s" "env_free_list s' = env_free_list s" "cpus s' = cpus s" "cpunum s' = cpunum s"
    "ticks s' = ticks s" "cr3 s' = cr3 s" "curenv s' = curenv s" "mmio_base s' = mmio_base s"
    "user_mem_check_addr s' = user_mem_check_addr s" "cons s' = cons s" "base s' = base s"
    "tx_descs s' = tx_descs s" "rx_descs s' = rx_descs s"
  using assms by (auto simp: vm_frame_def curenv_def)

lemma page_alloc_frame: "page_alloc flags s = Ok (r, s') \<Longrightarrow> vm_frame s s'"
  by (auto simp: page_alloc_def bind_res_eq_Ok Let_def split: option.splits if_splits)

lemma page_free_frame: "page_free p s = Ok s' \<Longrightarrow> vm_frame s s'"
  by (auto simp: page_free_def split: if_splits)

lemma page_decref_frame: "page_decref p s = Ok s' \<Longrightarrow> vm_frame s s'"
  by (auto simp: page_decref_def Let_def split: if_splits dest!: page_free_frame elim!: vm_frame_pre)

lemma pgdir_walk_frame: "pgdir_walk pgdir va create s = Ok (r, s') \<Longrightarrow> vm_frame s s'"
  by (auto simp: pgdir_walk_def bind_res_eq_Ok Let_def split: option.splits if_splits
      dest!: page_alloc_frame)

lemma page_lookup_state: "page_lookup pgdir va s = Ok (r, s') \<Longrightarrow> s' = s"
  by (auto simp: page_lookup_def pgdir_walk_def bind_res_eq_Ok Let_def split: option.splits if_splits)

lemma tlb_invalidate_frame [simp]: "vm_frame s (tlb_invalidate pgdir va t) = vm_frame s t"
  by (simp add: tlb_invalidate_def)

lemma page_remove_frame: "page_remove pgdir va s = Ok s' \<Longrightarrow> vm_frame s s'"
  by (auto simp: page_remove_def bind_res_eq_Ok Let_def split: option.splits
      dest!: page_lookup_state page_decref_frame)

lemma page_insert_frame:
  assumes "page_insert pgdir pp va perm s = Ok (r, s')"
  shows "vm_frame s s'"
proof -
  obtain pte s1 where 1: "pgdir_walk pgdir va False s = Ok (pte, s1)"
    using assms by (auto simp: page_insert_def bind_res_eq_Ok)
  have s1: "vm_frame s s1" using 1 by (rule pgdir_walk_frame)
  have "vm_frame s1 s'"
  proof (cases pte)
    case None
    then obtain r2 s2 where "pgdir_walk pgdir va True s1 = Ok (r2, s2)" "vm_frame s2 s'"
      using assms 1 by (auto simp: page_insert_def bind_res_eq_Ok Let_def split: option.splits)
    then show ?thesis by (blast intro: vm_frame_trans dest: pgdir_walk_frame)
  next
    case (Some p)
    have if_frame: "vm_frame u (if b then t\<lparr>page_free_list := f\<rparr> else t) = vm_frame u t" for b f t u
      by simp
    from Some obtain s2 where s2: "vm_frame s2 s'"
      "(if load_pte s1 p AND PTE_P \<noteq> 0 then page_remove pgdir va s1 else Ok s1) = Ok s2"
      using assms 1 by (auto simp: page_insert_def bind_res_eq_Ok Let_def if_frame)
    then have "vm_frame s1 s2" by (auto split: if_splits dest!: page_remove_frame)
    with s2(1) show ?thesis by (blast intro: vm_frame_trans)
  qed
  with s1 show ?thesis by (rule vm_frame_trans)
qed

section \<open>The free list under the operations\<close>

lemma store_pte_simps [simp]:
  "npages (store_pte p v s) = npages s" "pages (store_pte p v s) = pages s"
  "page_free_list (store_pte p v s) = page_free_list s"
  "frames (store_pte (n, k) v s) = (frames s)(n := (frames s n)(k := v))"
  by (simp_all add: store_pte_def)

lemma wf_pages_cong:
  assumes "wf_pages s" "npages s' = npages s" "page_free_list s' = page_free_list s"
    and "\<And>p. pp_link (pages s' p) = pp_link (pages s p)"
    and "\<And>p. p \<in> set (free_pages s) \<Longrightarrow> pp_ref (pages s' p) = pp_ref (pages s p)"
  shows "wf_pages s'" "free_pages s' = free_pages s"
proof -
  have "free_list s' (free_pages s)"
    using assms unfolding wf_pages_def free_list_def by simp
  then show "wf_pages s'" "free_pages s' = free_pages s"
    using assms by (auto simp: wf_pages_iff dest: free_list_free_pages)
qed

lemma free_pages_ref: "wf_pages s \<Longrightarrow> p \<in> set (free_pages s) \<Longrightarrow> pp_ref (pages s p) = 0 \<and> p < npages s"
  by (simp add: wf_pages_def free_list_def)

lemma store_pte_wf:
  "wf_pages (store_pte p v s) = wf_pages s" "free_pages (store_pte p v s) = free_pages s"
  by (simp_all add: wf_pages_def free_pages_def free_list_def)

lemma set_pp_ref_wf:
  assumes "wf_pages s" "p \<notin> set (free_pages s)"
  shows "wf_pages (set_pp_ref p r s)" "free_pages (set_pp_ref p r s) = free_pages s"
  by (rule wf_pages_cong [OF assms(1)]; use assms(2) in auto)+

section \<open>Directories and tables\<close>

lemma wf_tablesD:
  assumes "wf_tables U D s" "d \<in> D" "i \<in> U" "tab s d i = Some t"
  shows "t < npages s" "t \<notin> set (free_pages s)" "t \<notin> D" "t \<in> tables U D s"
    and "\<And>d' i'. d' \<in> D \<Longrightarrow> i' \<in> U \<Longrightarrow> tab s d' i' = Some t \<Longrightarrow> d' = d \<and> i' = i"
  using assms unfolding wf_tables_def tables_def by blast+

lemma tab_cong: "frames s' d = frames s d \<Longrightarrow> tab s' d = tab s d"
  by (simp add: tab_def fun_eq_iff)

lemma slot_cong:
  assumes "tab s' d i = tab s d i" "\<And>t. tab s d i = Some t \<Longrightarrow> frames s' t j = frames s t j"
  shows "slot s' d i j = slot s d i j"
  using assms by (simp add: slot_def split: option.split)

text \<open>Directories and tables depend on the frames in use and the free list only.\<close>

lemma wf_tables_cong:
  assumes "wf_tables U D s" "wf_pages s'" "npages s' = npages s"
    and "\<And>d i. d \<in> D \<Longrightarrow> i \<in> U \<Longrightarrow> tab s' d i = tab s d i"
    and "set (free_pages s') \<inter> (D \<union> tables U D s) = {}"
  shows "wf_tables U D s'" "tables U D s' = tables U D s"
proof -
  show eq: "tables U D s' = tables U D s" using assms(4) by (simp add: tables_def)
  show "wf_tables U D s'"
    using assms(1-3,5) unfolding wf_tables_def eq by (auto simp: assms(4))
qed

text \<open>Writing an entry of a table changes the one slot and nothing else.\<close>

lemma store_in_table:
  assumes "wf_tables U D s" "d \<in> D" "i \<in> U" "tab s d i = Some t"
  shows "d' \<in> D \<Longrightarrow> tab (store_pte (t, j) v s) d' = tab s d'"
    and "d' \<in> D \<Longrightarrow> i' \<in> U \<Longrightarrow> slot (store_pte (t, j) v s) d' i' j' =
      (if d' = d \<and> i' = i \<and> j' = j then (if v AND PTE_P \<noteq> 0 then Some v else None)
       else slot s d' i' j')"
    and "wf_tables U D (store_pte (t, j) v s)" "tables U D (store_pte (t, j) v s) = tables U D s"
proof -
  note wf = wf_tablesD [OF assms]
  show tab: "tab (store_pte (t, j) v s) d' = tab s d'" if "d' \<in> D" for d'
    using that wf(3) by (intro tab_cong) auto
  show "slot (store_pte (t, j) v s) d' i' j' =
      (if d' = d \<and> i' = i \<and> j' = j then (if v AND PTE_P \<noteq> 0 then Some v else None)
       else slot s d' i' j')" if "d' \<in> D" "i' \<in> U"
  proof (cases "d' = d \<and> i' = i")
    case True
    with assms(4) tab [OF that(1)] show ?thesis by (simp add: slot_def)
  next
    case False
    with wf(5) [OF that] have "tab s d' i' \<noteq> Some t" by blast
    then have "frames (store_pte (t, j) v s) t' j' = frames s t' j'" if "tab s d' i' = Some t'" for t'
      using that by auto
    then have "slot (store_pte (t, j) v s) d' i' j' = slot s d' i' j'"
      by (intro slot_cong) (simp_all only: tab [OF that(1)])
    with False show ?thesis by auto
  qed
  have "wf_pages (store_pte (t, j) v s)" using assms(1) by (simp add: store_pte_wf wf_tables_def)
  moreover have "set (free_pages (store_pte (t, j) v s)) \<inter> (D \<union> tables U D s) = {}"
    using assms(1) unfolding wf_tables_def store_pte_wf by blast
  ultimately show "wf_tables U D (store_pte (t, j) v s)"
    "tables U D (store_pte (t, j) v s) = tables U D s"
    by (intro wf_tables_cong [OF assms(1)]; simp add: tab)+
qed

text \<open>Taking a page off the free list and clearing it changes no directory and no table.\<close>

lemma taken_page_tables:
  assumes "wf_tables U D s" "free_pages s = p # ps"
  shows "wf_tables U D (taken_page flags p s)" "tables U D (taken_page flags p s) = tables U D s"
    and "d \<in> D \<Longrightarrow> tab (taken_page flags p s) d = tab s d"
    and "d \<in> D \<Longrightarrow> i \<in> U \<Longrightarrow> slot (taken_page flags p s) d i j = slot s d i j"
    and "p \<notin> D" "p \<notin> tables U D s"
proof -
  have wf: "wf_pages s" using assms(1) by (simp add: wf_tables_def)
  note tk = taken_page_wf [OF wf assms(2), of flags]
  show notin: "p \<notin> D" "p \<notin> tables U D s" using assms unfolding wf_tables_def by auto
  show tab: "tab (taken_page flags p s) d = tab s d" if "d \<in> D" for d
    using that notin by (intro tab_cong) auto
  show "slot (taken_page flags p s) d i j = slot s d i j" if "d \<in> D" "i \<in> U"
  proof (rule slot_cong)
    fix t
    assume "tab s d i = Some t"
    then have "t \<noteq> p" using wf_tablesD(4) [OF assms(1) that] notin by blast
    then show "frames (taken_page flags p s) t j = frames s t j" by simp
  qed (simp add: tab that)
  have "set ps \<inter> (D \<union> tables U D s) = {}" using assms unfolding wf_tables_def by auto
  then show "wf_tables U D (taken_page flags p s)" "tables U D (taken_page flags p s) = tables U D s"
    by (intro wf_tables_cong [OF assms(1) tk(1)]; simp add: tab tk(2))+
qed

lemma new_table_simps [simp]:
  "npages (new_table d i p s) = npages s"
  "pages (new_table d i p s) = (pages s)(p := (pages s p)\<lparr>pp_ref := 1\<rparr>)"
  by (simp_all add: new_table_def)

lemma new_table_entry:
  assumes "p < npages s" "npages s \<le> 65536"
  shows "tab (new_table d i p s) d i = Some p"
proof -
  let ?e = "page2pa p OR PTE_P OR PTE_W OR PTE_U"
  have "?e AND PTE_P = (PTE_P OR PTE_W OR PTE_U) AND PTE_P"
    using page2pa_flag [of PTE_P p "PTE_P OR PTE_W OR PTE_U"] by (simp add: or.assoc)
  also have "\<dots> \<noteq> 0" by (simp add: mmu_defs)
  finally have "?e AND PTE_P \<noteq> 0" .
  moreover have "PGNUM ?e = p" using assms by simp
  ultimately show ?thesis by (simp add: tab_def new_table_def)
qed

lemma new_table_wf:
  assumes "wf_tables U D s" "free_pages s = p # ps" "d \<in> D" "i \<in> U" "tab s d i = None"
  shows "free_pages (new_table d i p s) = ps"
    and "d' \<in> D \<Longrightarrow> i' \<in> U \<Longrightarrow>
      tab (new_table d i p s) d' i' = (if d' = d \<and> i' = i then Some p else tab s d' i')"
    and "d' \<in> D \<Longrightarrow> i' \<in> U \<Longrightarrow> slot (new_table d i p s) d' i' j = slot s d' i' j"
    and "tables U D (new_table d i p s) = insert p (tables U D s)"
    and "wf_tables U D (new_table d i p s)"
proof -
  let ?s = "new_table d i p s"
  note tk = taken_page_tables [OF assms(1,2)]
  have wf: "wf_pages s" using assms(1) by (simp add: wf_tables_def)
  have p: "p < npages s" "npages s \<le> 65536"
    using assms(1,2) wf free_pages_ref by (auto simp: wf_tables_def wf_pages_def)
  have dist: "distinct (p # ps)"
    using wf assms(2) free_list_distinct unfolding wf_pages_def by metis
  note tkw = taken_page_wf [OF wf assms(2), of ALLOC_ZERO]
  have "p \<notin> set (free_pages (taken_page ALLOC_ZERO p s))" using tkw(2) dist by simp
  note ref = set_pp_ref_wf [OF tkw(1) this, of 1]
  show fp: "free_pages ?s = ps"
    using ref(2) tkw(2) by (simp add: new_table_def store_pte_wf)
  have wfs: "wf_pages ?s" using ref(1) by (simp add: new_table_def store_pte_wf)
  show tab: "tab ?s d' i' = (if d' = d \<and> i' = i then Some p else tab s d' i')"
    if "d' \<in> D" "i' \<in> U" for d' i'
  proof (cases "d' = d \<and> i' = i")
    case True
    with new_table_entry [OF p] show ?thesis by simp
  next
    case False
    with that tk(5) show ?thesis by (auto simp: tab_def new_table_def)
  qed
  show "slot ?s d' i' j = slot s d' i' j" if "d' \<in> D" "i' \<in> U"
  proof (cases "d' = d \<and> i' = i")
    case True
    then have "slot ?s d' i' j = None"
      using tab [OF that] tk(5) assms(3) by (auto simp: slot_def new_table_def ALLOC_ZERO_def)
    with True assms(5) show ?thesis by (simp add: slot_def)
  next
    case False
    have "frames ?s t j = frames s t j" if "tab s d' i' = Some t" for t
      using wf_tablesD(3,4) [OF assms(1) \<open>d' \<in> D\<close> \<open>i' \<in> U\<close> that] tk(6) assms(3)
      by (auto simp: new_table_def)
    with False tab [OF that] show ?thesis by (intro slot_cong) auto
  qed
  show tabs: "tables U D ?s = insert p (tables U D s)"
    using assms(3-5) tab unfolding tables_def by (auto split: if_splits) (metis option.distinct(1))+
  show "wf_tables U D ?s"
    unfolding wf_tables_def tabs fp
    using wfs assms(1,2,5) p dist tk(5,6) tab
    unfolding wf_tables_def by (auto split: if_splits simp: tables_def)
qed

section \<open>Walking, looking up and removing\<close>

lemma pgdir_walk_hit:
  assumes "wf_tables U D s" "d \<in> D" "PDX va \<in> U" "tab s d (PDX va) = Some t"
  shows "pgdir_walk (Some d) va create s = Ok (Some (t, PTX va), s)"
proof -
  have "load_pte s (d, PDX va) AND PTE_P \<noteq> 0" "PGNUM (load_pte s (d, PDX va)) = t"
    using assms(4) by (auto simp: tab_def load_pte_def split: if_splits)
  with wf_tablesD(1) [OF assms] show ?thesis by (simp add: pgdir_walk_def KADDR_def)
qed

lemma pgdir_walk_miss:
  assumes "tab s d (PDX va) = None"
  shows "pgdir_walk (Some d) va False s = Ok (None, s)"
proof -
  have "load_pte s (d, PDX va) AND PTE_P = 0"
    using assms by (auto simp: tab_def load_pte_def split: if_splits)
  then show ?thesis by (simp add: pgdir_walk_def)
qed

lemma pgdir_walk_create:
  assumes "wf_tables U D s" "d \<in> D" "PDX va \<in> U" "tab s d (PDX va) = None"
  shows "pgdir_walk (Some d) va True s =
    (case free_pages s of [] \<Rightarrow> Ok (None, s)
       | p # _ \<Rightarrow> Ok (Some (p, PTX va), new_table d (PDX va) p s))"
proof (cases "free_pages s")
  case Nil
  moreover have "load_pte s (d, PDX va) AND PTE_P = 0"
    using assms by (auto simp: tab_def load_pte_def split: if_splits)
  moreover have "wf_pages s" using assms(1) by (simp add: wf_tables_def)
  ultimately show ?thesis by (simp add: pgdir_walk_def page_alloc_eq)
next
  case (Cons p ps)
  have wf: "wf_pages s" using assms(1) by (simp add: wf_tables_def)
  let ?t = "taken_page ALLOC_ZERO p s"
  have "load_pte s (d, PDX va) AND PTE_P = 0"
    using assms by (auto simp: tab_def load_pte_def split: if_splits)
  moreover have "page_alloc ALLOC_ZERO s = Ok (Some p, ?t)" using wf Cons by (simp add: page_alloc_eq)
  moreover have "p < npages s" "npages s \<le> 65536"
    using wf Cons free_pages_ref [OF wf, of p] by (auto simp: wf_pages_def)
  ultimately show ?thesis
    using Cons by (simp add: pgdir_walk_def new_table_def KADDR_def load_pte_def)
qed

lemma page_lookup_eq:
  assumes "wf_tables U D s" "d \<in> D" "PDX va \<in> U"
    and "\<And>e. translate s d va = Some e \<Longrightarrow> PGNUM e < npages s"
  shows "page_lookup (Some d) va s =
    Ok (case translate s d va of None \<Rightarrow> None
          | Some e \<Rightarrow> Some (PGNUM e, the (tab s d (PDX va)), PTX va), s)"
proof (cases "tab s d (PDX va)")
  case None
  then show ?thesis by (simp add: page_lookup_def pgdir_walk_miss translate_def slot_def)
next
  case (Some t)
  show ?thesis
  proof (cases "frames s t (PTX va) AND PTE_P = 0")
    case True
    with Some pgdir_walk_hit [OF assms(1-3) Some] show ?thesis
      by (simp add: page_lookup_def translate_def slot_def load_pte_def)
  next
    case False
    then have "translate s d va = Some (frames s t (PTX va))"
      using Some by (simp add: translate_def slot_def)
    with False Some assms(4) pgdir_walk_hit [OF assms(1-3) Some] show ?thesis
      by (simp add: page_lookup_def load_pte_def pa2page_def)
  qed
qed

section \<open>Reference counts\<close>

lemma wf_vmD:
  assumes "wf_vm U D s" "d \<in> D" "i \<in> U" "j < 1024" "slot s d i j = Some e"
  shows "PGNUM e < npages s" "PGNUM e \<notin> D" "PGNUM e \<notin> tables U D s"
  using assms unfolding wf_vm_def by blast+

lemma mappings_finite: "wf_vm U D s \<Longrightarrow> finite (mappings U D s p)"
  unfolding wf_vm_def by (rule finite_subset [of _ "D \<times> U \<times> {..<1024}"]) (auto simp: mappings_def)

text \<open>A mapped page has references, so it is not on the free list.\<close>

lemma mapped_not_free:
  assumes "wf_vm U D s" "d \<in> D" "i \<in> U" "j < 1024" "slot s d i j = Some e"
  shows "pp_ref (pages s (PGNUM e)) \<noteq> 0" "PGNUM e \<notin> set (free_pages s)"
proof -
  have "(d, i, j) \<in> mappings U D s (PGNUM e)" using assms by (simp add: mappings_def)
  then have "0 < card (mappings U D s (PGNUM e))"
    using mappings_finite [OF assms(1)] by (auto simp: card_gt_0_iff)
  then have "0 < unat (pp_ref (pages s (PGNUM e)))"
    using assms(1) unfolding wf_vm_def by (meson order_less_le_trans)
  then show ref: "pp_ref (pages s (PGNUM e)) \<noteq> 0" by auto
  have "wf_pages s" using assms(1) by (simp add: wf_vm_def wf_tables_def)
  with ref show "PGNUM e \<notin> set (free_pages s)" using free_pages_ref by blast
qed

lemma unmapped_if_unreferenced:
  assumes "wf_vm U D s" "pp_ref (pages s p) = 0"
  shows "mappings U D s p = {}"
proof -
  have "card (mappings U D s p) = 0"
    using assms unfolding wf_vm_def by (metis le_0_eq unsigned_0)
  then show ?thesis using mappings_finite [OF assms(1)] by simp
qed

text \<open>The mappings of a page after one slot has changed.\<close>

lemma mappings_update:
  assumes "\<And>d' i' j'. d' \<in> D \<Longrightarrow> i' \<in> U \<Longrightarrow>
      slot s' d' i' j' = (if d' = d \<and> i' = i \<and> j' = j then v else slot s d' i' j')"
    and "d \<in> D" "i \<in> U" "j < 1024"
  shows "mappings U D s' p = (if \<exists>e. v = Some e \<and> PGNUM e = p
     then insert (d, i, j) (mappings U D s p) else mappings U D s p - {(d, i, j)})"
  using assms(2-) by (auto simp: mappings_def assms(1) split: if_splits)

lemma wf_vm_update:
  assumes "wf_vm U D s" "wf_tables U D s'" "npages s' = npages s" "tables U D s' = tables U D s"
    and "\<And>d' i' j'. d' \<in> D \<Longrightarrow> i' \<in> U \<Longrightarrow>
      slot s' d' i' j' = (if d' = d \<and> i' = i \<and> j' = j then v else slot s d' i' j')"
    and "d \<in> D" "i \<in> U" "j < 1024"
    and "\<And>e. v = Some e \<Longrightarrow> PGNUM e < npages s \<and> PGNUM e \<notin> D \<union> tables U D s"
    and "\<And>p. card (mappings U D s' p) \<le> unat (pp_ref (pages s' p))"
  shows "wf_vm U D s'"
proof -
  have "PGNUM e < npages s' \<and> PGNUM e \<notin> D \<union> tables U D s'"
    if "d' \<in> D" "i' \<in> U" "j' < 1024" "slot s' d' i' j' = Some e" for d' i' j' e
    using that wf_vmD [OF assms(1) that(1-3), of e] assms(9) by (auto simp: assms(3,4,5) split: if_splits)
  then show ?thesis using assms(1,2,10) unfolding wf_vm_def by blast
qed

section \<open>Removing a mapping\<close>

lemma vm_cong:
  assumes "npages s' = npages s" "pages s' = pages s" "page_free_list s' = page_free_list s"
    "frames s' = frames s"
  shows "wf_pages s' = wf_pages s" "free_pages s' = free_pages s" "tab s' = tab s" "slot s' = slot s"
    "tables U D s' = tables U D s" "wf_tables U D s' = wf_tables U D s"
    "mappings U D s' = mappings U D s" "wf_vm U D s' = wf_vm U D s" "translate s' = translate s"
proof -
  show tab: "tab s' = tab s" using assms(4) by (simp add: fun_eq_iff tab_def)
  show slot: "slot s' = slot s" using assms(4) by (intro ext slot_cong) (simp_all add: tab)
  show free: "free_pages s' = free_pages s" using assms by (simp add: free_pages_def)
  show wf: "wf_pages s' = wf_pages s" using assms free by (simp add: wf_pages_def free_list_def)
  show tabs: "tables U D s' = tables U D s" by (simp add: tables_def tab)
  show wft: "wf_tables U D s' = wf_tables U D s"
    using assms by (simp add: wf_tables_def wf free tab tabs)
  show maps: "mappings U D s' = mappings U D s" by (simp add: fun_eq_iff mappings_def slot)
  show "wf_vm U D s' = wf_vm U D s" using assms by (simp add: wf_vm_def wft maps slot tabs)
  show "translate s' = translate s" by (simp add: fun_eq_iff translate_def slot)
qed

lemma tlb_invalidate_simps [simp]:
  "npages (tlb_invalidate pgdir va s) = npages s" "pages (tlb_invalidate pgdir va s) = pages s"
  "page_free_list (tlb_invalidate pgdir va s) = page_free_list s"
  "frames (tlb_invalidate pgdir va s) = frames s"
  by (simp_all add: tlb_invalidate_def)

lemmas tlb_invalidate_vm [simp] = vm_cong [OF tlb_invalidate_simps]

lemma page_decref_eq: "page_decref p s = Ok (decref_state p s)"
proof (cases "pp_ref (pages s p) = 1")
  case True
  then show ?thesis by (simp add: page_decref_def page_free_def decref_state_def)
next
  case False
  then have "pp_ref (pages s p) - 1 \<noteq> 0" by simp
  with False show ?thesis by (simp add: page_decref_def decref_state_def)
qed

lemma decref_state_simps [simp]:
  "npages (decref_state p s) = npages s" "frames (decref_state p s) = frames s"
  "pp_ref (pages (decref_state p s) q) = pp_ref (pages s q) - (if q = p then 1 else 0)"
  by (simp_all add: decref_state_def)

lemma decref_state_wf:
  assumes "wf_pages s" "p < npages s" "p \<notin> set (free_pages s)"
  shows "wf_pages (decref_state p s)"
    and "free_pages (decref_state p s) = (if pp_ref (pages s p) = 1 then p # free_pages s else free_pages s)"
proof -
  have "wf_pages (decref_state p s) \<and> free_pages (decref_state p s)
      = (if pp_ref (pages s p) = 1 then p # free_pages s else free_pages s)"
  proof (cases "pp_ref (pages s p) = 1")
    case True
    note ref = set_pp_ref_wf [OF assms(1,3), of 0]
    have "may_free_page p (set_pp_ref p 0 s)" using assms ref by (simp add: may_free_page_def)
    then obtain s' where "page_free p (set_pp_ref p 0 s) = Ok s'" "wf_pages s'"
      "free_pages s' = p # free_pages (set_pp_ref p 0 s)"
      using page_free_wf [OF ref(1)] by metis
    with True ref show ?thesis by (simp add: page_free_def decref_state_def)
  next
    case False
    with set_pp_ref_wf [OF assms(1,3)] show ?thesis by (simp add: decref_state_def)
  qed
  then show "wf_pages (decref_state p s)"
    "free_pages (decref_state p s) = (if pp_ref (pages s p) = 1 then p # free_pages s else free_pages s)"
    by auto
qed

text \<open>The state after the entry at \<open>(d, i, j)\<close>, which maps page \<open>p\<close>, has been taken out.\<close>

lemma remove_slot:
  assumes "wf_vm U D s" "d \<in> D" "i \<in> U" "j < 1024" "tab s d i = Some t" "slot s d i j = Some e"
  defines "p \<equiv> PGNUM e"
  defines "s' \<equiv> store_pte (t, j) (e AND NOT PTE_P) (decref_state p s)"
  shows "wf_vm U D s'" "tables U D s' = tables U D s"
    and "\<And>d' i'. d' \<in> D \<Longrightarrow> i' \<in> U \<Longrightarrow> tab s' d' i' = tab s d' i'"
    and "\<And>d' i' j'. d' \<in> D \<Longrightarrow> i' \<in> U \<Longrightarrow>
      slot s' d' i' j' = (if d' = d \<and> i' = i \<and> j' = j then None else slot s d' i' j')"
    and "free_pages s' = (if pp_ref (pages s p) = 1 then p # free_pages s else free_pages s)"
proof -
  note wf = wf_vmD [OF assms(1-4,6), folded p_def] mapped_not_free [OF assms(1-4,6), folded p_def]
  have wft: "wf_tables U D s" "wf_pages s" using assms(1) by (simp_all add: wf_vm_def wf_tables_def)
  note dec = decref_state_wf [OF wft(2) wf(1,5)]
  have tab0: "tab (decref_state p s) d' = tab s d'" for d' by (rule tab_cong) simp
  have slot0: "slot (decref_state p s) d' i' j' = slot s d' i' j'" for d' i' j'
    by (rule slot_cong) (simp_all add: tab0)
  have "set (free_pages (decref_state p s)) \<inter> (D \<union> tables U D s) = {}"
    using wft(1) wf(2,3) unfolding dec(2) wf_tables_def by auto
  then have wft0: "wf_tables U D (decref_state p s)" "tables U D (decref_state p s) = tables U D s"
    by (intro wf_tables_cong [OF wft(1) dec(1)]; simp add: tab0)+
  have t0: "tab (decref_state p s) d i = Some t" using assms(5) by (simp add: tab0)
  note st = store_in_table [OF wft0(1) assms(2,3) t0, where j = j and v = "e AND NOT PTE_P"]
  have np: "(e AND NOT PTE_P) AND PTE_P = 0" by (simp add: and.assoc)
  show tab: "tab s' d' i' = tab s d' i'" if "d' \<in> D" "i' \<in> U" for d' i'
    using st(1) [OF that(1)] by (simp add: s'_def tab0)
  show slot: "slot s' d' i' j' = (if d' = d \<and> i' = i \<and> j' = j then None else slot s d' i' j')"
    if "d' \<in> D" "i' \<in> U" for d' i' j'
    using st(2) [OF that] np by (simp add: s'_def slot0)
  show tabs: "tables U D s' = tables U D s" using store_in_table(4) [OF wft0(1) assms(2,3) t0] wft0(2)
    by (simp add: s'_def)
  have wft': "wf_tables U D s'" using store_in_table(3) [OF wft0(1) assms(2,3) t0] by (simp add: s'_def)
  show "free_pages s' = (if pp_ref (pages s p) = 1 then p # free_pages s else free_pages s)"
    using dec(2) by (simp add: s'_def store_pte_wf)
  have in_map: "(d, i, j) \<in> mappings U D s p" using assms(2-4,6) by (simp add: mappings_def p_def)
  have "card (mappings U D s' q) \<le> unat (pp_ref (pages s' q))" for q
  proof -
    have eq: "mappings U D s' q = mappings U D s q - {(d, i, j)}"
      using mappings_update [OF slot assms(2-4)] by simp
    have le: "card (mappings U D s q) \<le> unat (pp_ref (pages s q))" using assms(1) by (simp add: wf_vm_def)
    show ?thesis
    proof (cases "q = p")
      case True
      then have "card (mappings U D s' q) = card (mappings U D s q) - 1"
        using eq in_map mappings_finite [OF assms(1)] by simp
      moreover have "unat (pp_ref (pages s p) - 1) = unat (pp_ref (pages s p)) - 1"
        using wf(4) by (simp add: unat_minus_one)
      ultimately show ?thesis using le True by (simp add: s'_def)
    next
      case False
      moreover have "card (mappings U D s' q) \<le> card (mappings U D s q)"
        unfolding eq by (rule card_Diff1_le)
      ultimately show ?thesis using le by (simp add: s'_def)
    qed
  qed
  then show "wf_vm U D s'"
    using wf_vm_update [OF assms(1) wft' _ tabs slot assms(2-4)] by (simp add: s'_def)
qed

lemma page_remove_eq:
  assumes "wf_vm U D s" "d \<in> D" "PDX va \<in> U" "tab s d (PDX va) = Some t"
    "slot s d (PDX va) (PTX va) = Some e"
  shows "page_remove (Some d) va s = Ok (tlb_invalidate (Some d) va
      (store_pte (t, PTX va) (e AND NOT PTE_P) (decref_state (PGNUM e) s)))"
proof -
  have e: "frames s t (PTX va) = e"
    using assms(4,5) by (simp add: slot_def split: if_splits)
  have "page_lookup (Some d) va s = Ok (Some (PGNUM e, t, PTX va), s)"
    using page_lookup_eq [of U D s d va] assms wf_vmD(1) [OF assms(1-3) PTX_less assms(5)]
    by (simp add: wf_vm_def translate_def)
  with e show ?thesis by (simp add: page_remove_def page_decref_eq load_pte_def)
qed

text \<open>
  What \<open>page_remove\<close> does: it empties the slot, drops the reference, and frees the page when that
  was the last one.
\<close>

lemma page_remove_spec:
  assumes "wf_vm U D s" "d \<in> D" "PDX va \<in> U"
  obtains s' where "page_remove (Some d) va s = Ok s'" "vm_update U D d (PDX va) (PTX va) None s s'"
    "free_pages s' = freed_by (translate s d va) s @ free_pages s"
    "\<forall>q. pp_ref (pages s' q) = pp_ref (pages s q) - refs_drop (translate s d va) q"
proof (cases "translate s d va")
  case None
  have "page_lookup (Some d) va s = Ok (None, s)"
    using page_lookup_eq [of U D s d va] assms None by (simp add: wf_vm_def)
  then have "page_remove (Some d) va s = Ok s" by (simp add: page_remove_def)
  with None assms(1) that [of s] show ?thesis
    by (auto simp: translate_def vm_update_def refs_drop_def freed_by_def)
next
  case (Some e)
  then have sl: "slot s d (PDX va) (PTX va) = Some e" by (simp add: translate_def)
  then obtain t where t: "tab s d (PDX va) = Some t"
    by (auto simp: slot_def split: option.splits)
  note rs = remove_slot [OF assms PTX_less t sl]
  let ?s' = "store_pte (t, PTX va) (e AND NOT PTE_P) (decref_state (PGNUM e) s)"
  have "page_remove (Some d) va s = Ok (tlb_invalidate (Some d) va ?s')"
    by (rule page_remove_eq [OF assms t sl])
  moreover have "vm_update U D d (PDX va) (PTX va) None s (tlb_invalidate (Some d) va ?s')"
    using rs(1-4) by (simp add: vm_update_def)
  ultimately show ?thesis
    by (rule that) (simp_all add: rs(5) freed_by_def refs_drop_def Some)
qed

section \<open>Inserting a mapping\<close>

text \<open>Filling an empty slot with page \<open>pp\<close> and counting the reference.\<close>

lemma fill_slot:
  assumes "wf_vm U D s" "d \<in> D" "i \<in> U" "j < 1024" "tab s d i = Some t" "slot s d i j = None"
    and "pp < npages s" "pp \<notin> D \<union> tables U D s" "pp \<notin> set (free_pages s)"
    and "low12 perm" "unat (pp_ref (pages s pp)) < 65535"
  defines "e \<equiv> page2pa pp OR perm OR PTE_P"
  defines "s' \<equiv> set_pp_ref pp (pp_ref (pages s pp) + 1) (store_pte (t, j) e s)"
  shows "wf_vm U D s'" "tables U D s' = tables U D s" "free_pages s' = free_pages s"
    and "\<And>d' i' j'. d' \<in> D \<Longrightarrow> i' \<in> U \<Longrightarrow>
      slot s' d' i' j' = (if d' = d \<and> i' = i \<and> j' = j then Some e else slot s d' i' j')"
    and "\<And>d'. d' \<in> D \<Longrightarrow> tab s' d' = tab s d'"
proof -
  let ?s1 = "store_pte (t, j) e s"
  have wft: "wf_tables U D s" "wf_pages s" "npages s \<le> 65536"
    using assms(1) by (simp_all add: wf_vm_def wf_tables_def wf_pages_def)
  have "PTE_P \<noteq> 0" by (simp add: mmu_defs)
  then have e: "e AND PTE_P \<noteq> 0" "PGNUM e = pp" using assms(7,10) wft(3) by (simp_all add: e_def)
  note st = store_in_table [OF wft(1) assms(2,3,5), where j = j and v = e]
  have "wf_pages ?s1" "pp \<notin> set (free_pages ?s1)" using wft(2) assms(9) by (simp_all add: store_pte_wf)
  note ref = set_pp_ref_wf [OF this]
  show free: "free_pages s' = free_pages s" by (simp add: s'_def ref store_pte_wf)
  have fr: "frames s' = frames ?s1" and np: "npages s' = npages s" and wf': "wf_pages s'"
    by (simp_all add: s'_def ref)
  have tab': "tab s' d' = tab ?s1 d'" for d' by (rule tab_cong) (simp only: fr)
  have slot': "slot s' d' i' j' = slot ?s1 d' i' j'" for d' i' j'
    by (rule slot_cong) (simp_all only: tab' fr)
  show "tab s' d' = tab s d'" if "d' \<in> D" for d' using st(1) [OF that] by (simp add: tab')
  show slot: "slot s' d' i' j' = (if d' = d \<and> i' = i \<and> j' = j then Some e else slot s d' i' j')"
    if "d' \<in> D" "i' \<in> U" for d' i' j'
    using st(2) [OF that] e(1) by (simp add: slot')
  have "set (free_pages s') \<inter> (D \<union> tables U D s) = {}"
    using wft(1) unfolding free wf_tables_def by auto
  then have wft': "wf_tables U D s'" and tabs: "tables U D s' = tables U D s"
    by (intro wf_tables_cong [OF wft(1) wf' np]; simp only: tab' st(1))+
  show "tables U D s' = tables U D s" by (rule tabs)
  have notin: "(d, i, j) \<notin> mappings U D s pp" using assms(6) by (simp add: mappings_def)
  have "card (mappings U D s' q) \<le> unat (pp_ref (pages s' q))" for q
  proof -
    have le: "card (mappings U D s q) \<le> unat (pp_ref (pages s q))" using assms(1) by (simp add: wf_vm_def)
    show ?thesis
    proof (cases "q = pp")
      case True
      then have "mappings U D s' q = insert (d, i, j) (mappings U D s q)"
        using mappings_update [OF slot assms(2-4), of q] e(2) by simp
      then have "card (mappings U D s' q) = card (mappings U D s q) + 1"
        using notin True mappings_finite [OF assms(1)] by simp
      moreover have "unat (pp_ref (pages s pp) + 1) = unat (pp_ref (pages s pp)) + 1"
        using assms(11) by (simp add: unat_word_ariths)
      ultimately show ?thesis using le True by (simp add: s'_def)
    next
      case False
      then have "mappings U D s' q = mappings U D s q - {(d, i, j)}"
        using mappings_update [OF slot assms(2-4), of q] e(2) by auto
      then have "card (mappings U D s' q) \<le> card (mappings U D s q)" by (simp add: card_Diff1_le)
      with le False show ?thesis by (simp add: s'_def)
    qed
  qed
  then show "wf_vm U D s'"
    using wf_vm_update [OF assms(1) wft' np tabs slot assms(2-4)] e(2) assms(7,8) by simp
qed

lemma new_table_vm:
  assumes "wf_vm U D s" "free_pages s = p # ps" "d \<in> D" "i \<in> U" "tab s d i = None"
  shows "wf_vm U D (new_table d i p s)"
proof -
  let ?s = "new_table d i p s"
  have wft: "wf_tables U D s" "wf_pages s" using assms(1) by (simp_all add: wf_vm_def wf_tables_def)
  note nt = new_table_wf [OF wft(1) assms(2-5)]
  have "pp_ref (pages s p) = 0" using free_pages_ref [OF wft(2)] assms(2) by simp
  then have none: "mappings U D s p = {}" by (rule unmapped_if_unreferenced [OF assms(1)])
  have maps: "mappings U D ?s = mappings U D s"
    by (auto simp: fun_eq_iff mappings_def nt(3))
  have "card (mappings U D ?s q) \<le> unat (pp_ref (pages ?s q))" for q
    using assms(1) none by (auto simp: maps wf_vm_def)
  moreover have "PGNUM e < npages ?s \<and> PGNUM e \<notin> D \<union> tables U D ?s"
    if "d' \<in> D" "i' \<in> U" "j < 1024" "slot ?s d' i' j = Some e" for d' i' j e
  proof -
    have sl: "slot s d' i' j = Some e" using that nt(3) by simp
    then have "(d', i', j) \<in> mappings U D s (PGNUM e)" using that by (simp add: mappings_def)
    then have "PGNUM e \<noteq> p" using none by auto
    with wf_vmD [OF assms(1) that(1-3) sl] nt(4) show ?thesis by simp
  qed
  ultimately show ?thesis using nt(5) assms(1) unfolding wf_vm_def by blast
qed

lemma wf_vm_frame:
  assumes "wf_vm U D s" "wf_pages s'" "npages s' = npages s"
    and "\<And>p. p \<in> D \<union> tables U D s \<Longrightarrow> frames s' p = frames s p"
    and "\<And>q. card (mappings U D s q) \<le> unat (pp_ref (pages s' q))"
    and "set (free_pages s') \<inter> (D \<union> tables U D s) = {}"
  shows "wf_vm U D s'" "tables U D s' = tables U D s"
    and "\<And>d i. d \<in> D \<Longrightarrow> i \<in> U \<Longrightarrow> tab s' d i = tab s d i"
    and "\<And>d i j. d \<in> D \<Longrightarrow> i \<in> U \<Longrightarrow> slot s' d i j = slot s d i j"
proof -
  have wft: "wf_tables U D s" using assms(1) by (simp add: wf_vm_def)
  show tab: "tab s' d i = tab s d i" if "d \<in> D" "i \<in> U" for d i
    using that assms(4) [of d] by (simp add: tab_def)
  show slot: "slot s' d i j = slot s d i j" if "d \<in> D" "i \<in> U" for d i j
    by (rule slot_cong) (use tab [OF that] in simp, use assms(4) wf_tablesD(4) [OF wft that] in simp)
  show tabs: "tables U D s' = tables U D s"
    by (rule wf_tables_cong(2) [OF wft assms(2,3) _ assms(6)]) (rule tab)
  have wft': "wf_tables U D s'"
    by (rule wf_tables_cong(1) [OF wft assms(2,3) _ assms(6)]) (rule tab)
  have maps: "mappings U D s' q = mappings U D s q" for q by (auto simp: mappings_def slot)
  have "card (mappings U D s' q) \<le> unat (pp_ref (pages s' q))" for q
    unfolding maps by (rule assms(5))
  moreover have "\<forall>d\<in>D. \<forall>i\<in>U. \<forall>j<1024. \<forall>e. slot s' d i j = Some e \<longrightarrow>
      PGNUM e < npages s' \<and> PGNUM e \<notin> D \<union> tables U D s'"
    using wf_vmD [OF assms(1)] by (simp add: slot tabs assms(3))
  ultimately show "wf_vm U D s'" using wft' assms(1) unfolding wf_vm_def by blast
qed

lemma wf_vm_other:
  assumes "wf_vm U D s" "wf_pages s'" "npages s' = npages s"
    and "\<And>p. p \<in> D \<union> tables U D s \<Longrightarrow> frames s' p = frames s p"
    and "\<And>q. unat (pp_ref (pages s q)) \<le> unat (pp_ref (pages s' q))"
    and "set (free_pages s') \<inter> (D \<union> tables U D s) = {}"
  shows "wf_vm U D s'" "tables U D s' = tables U D s"
    and "\<And>d i. d \<in> D \<Longrightarrow> i \<in> U \<Longrightarrow> tab s' d i = tab s d i"
    and "\<And>d i j. d \<in> D \<Longrightarrow> i \<in> U \<Longrightarrow> slot s' d i j = slot s d i j"
proof -
  have "card (mappings U D s q) \<le> unat (pp_ref (pages s' q))" for q
    using assms(1,5) unfolding wf_vm_def by (meson order_trans)
  note fr = wf_vm_frame [OF assms(1-4) this assms(6)]
  show "wf_vm U D s'" "tables U D s' = tables U D s"
    and "\<And>d i. d \<in> D \<Longrightarrow> i \<in> U \<Longrightarrow> tab s' d i = tab s d i"
    and "\<And>d i j. d \<in> D \<Longrightarrow> i \<in> U \<Longrightarrow> slot s' d i j = slot s d i j"
    by (rule fr; simp)+
qed

lemma pop_free_list:
  assumes "wf_pages s" "free_pages s = p # ps"
  defines "s' \<equiv> s\<lparr>page_free_list := pp_link (pages s p)\<rparr>"
  shows "wf_pages s'" "free_pages s' = ps"
proof -
  have "free_list s' ps" using assms by (auto simp: wf_pages_def free_list_def)
  then show "wf_pages s'" "free_pages s' = ps"
    using assms(1) by (auto simp: wf_pages_iff s'_def dest: free_list_free_pages)
qed

lemma free_list_head: "wf_pages s \<Longrightarrow> page_free_list s = Some p \<Longrightarrow> \<exists>ps. free_pages s = p # ps"
  using free_pages_cases by fastforce

text \<open>
  The part of \<open>page_insert\<close> that empties the slot. When \<open>page_remove\<close> has just freed the very page
  that is to be inserted, that page is taken off the free list again.
\<close>

lemma insert_clears_slot:
  assumes "wf_vm U D s" "d \<in> D" "PDX va \<in> U" "tab s d (PDX va) = Some t"
    and "pp \<notin> D \<union> tables U D s" "pp \<notin> set (free_pages s)"
  obtains s1 where
    "bind_res (if load_pte s (t, PTX va) AND PTE_P \<noteq> 0 then page_remove (Some d) va s else Ok s)
       (\<lambda>s. Ok (Some (t, PTX va), if page_free_list s = Some pp
          then s\<lparr>page_free_list := pp_link (pages s pp)\<rparr> else s)) = Ok (Some (t, PTX va), s1)"
    "vm_update U D d (PDX va) (PTX va) None s s1" "pp \<notin> set (free_pages s1)"
    "set (free_pages s1) = set (freed_by (translate s d va) s) \<union> set (free_pages s) - {pp}"
    "\<forall>q. pp_ref (pages s1 q) = pp_ref (pages s q) - refs_drop (translate s d va) q"
proof -
  obtain s2 where s2: "page_remove (Some d) va s = Ok s2" "vm_update U D d (PDX va) (PTX va) None s s2"
    and free2: "free_pages s2 = freed_by (translate s d va) s @ free_pages s"
    and ref2: "\<forall>q. pp_ref (pages s2 q) = pp_ref (pages s q) - refs_drop (translate s d va) q"
    by (rule page_remove_spec [OF assms(1-3)])
  have wf: "wf_pages s" "wf_vm U D s2" "wf_pages s2"
    using assms(1) s2(2) by (simp_all add: vm_update_def wf_vm_def wf_tables_def)
  have "(if load_pte s (t, PTX va) AND PTE_P \<noteq> 0 then page_remove (Some d) va s else Ok s) = Ok s2"
  proof (cases "load_pte s (t, PTX va) AND PTE_P \<noteq> 0")
    case False
    then have none: "translate s d va = None" using assms(4) by (simp add: translate_def slot_def load_pte_def)
    have "page_lookup (Some d) va s = Ok (None, s)"
      using page_lookup_eq [of U D s d va] assms none by (simp add: wf_vm_def)
    with s2(1) False show ?thesis by (simp add: page_remove_def)
  qed (simp add: s2(1))
  then have eq: "bind_res (if load_pte s (t, PTX va) AND PTE_P \<noteq> 0 then page_remove (Some d) va s else Ok s)
       (\<lambda>s. Ok (Some (t, PTX va), if page_free_list s = Some pp
          then s\<lparr>page_free_list := pp_link (pages s pp)\<rparr> else s)) = Ok (Some (t, PTX va),
      if page_free_list s2 = Some pp then s2\<lparr>page_free_list := pp_link (pages s2 pp)\<rparr> else s2)"
    by simp
  show ?thesis
  proof (cases "page_free_list s2 = Some pp")
    case True
    then obtain ps where ps: "free_pages s2 = pp # ps" using free_list_head [OF wf(3)] by blast
    then have ps_eq: "ps = free_pages s" and fr: "set (freed_by (translate s d va) s) = {pp}"
      using free2 assms(6) unfolding freed_by_def by (auto split: option.splits if_splits)
    let ?s1 = "s2\<lparr>page_free_list := pp_link (pages s2 pp)\<rparr>"
    note pop = pop_free_list [OF wf(3) ps, unfolded ps_eq]
    have "set (free_pages ?s1) \<inter> (D \<union> tables U D s2) = {}"
      using s2(2) assms(1) unfolding pop(2) vm_update_def wf_vm_def wf_tables_def by auto
    note oth = wf_vm_other [OF wf(2) pop(1) _ _ _ this, simplified]
    have "vm_update U D d (PDX va) (PTX va) None s ?s1"
      using s2(2) oth unfolding vm_update_def by simp
    then show ?thesis
      using that [of ?s1] eq True pop(2) assms(6) ref2 fr by simp
  next
    case False
    have "pp \<notin> set (free_pages s2)"
    proof
      assume "pp \<in> set (free_pages s2)"
      then have "free_pages s2 = pp # free_pages s"
        using free2 assms(6) unfolding freed_by_def by (auto split: option.splits if_splits)
      then have "page_free_list s2 = Some pp" using free_pages_cases [OF wf(3)] by auto
      with False show False ..
    qed
    then show ?thesis
      using that [of s2] eq False s2(2) ref2 free2 assms(6) by auto
  qed
qed

text \<open>What \<open>page_insert\<close> does, in each of its cases.\<close>

lemma page_insert_no_mem:
  assumes "wf_vm U D s" "d \<in> D" "PDX va \<in> U" "tab s d (PDX va) = None" "free_pages s = []"
  shows "page_insert (Some d) pp va perm s = Ok (- E_NO_MEM, s)"
  using assms pgdir_walk_create [of U D s d va]
  by (simp add: page_insert_def pgdir_walk_miss wf_vm_def)

lemma page_insert_new_table:
  assumes "wf_vm U D s" "d \<in> D" "PDX va \<in> U" "tab s d (PDX va) = None" "free_pages s = p # ps"
    and "pp < npages s" "pp \<notin> D \<union> tables U D s" "pp \<notin> set (free_pages s)"
    and "low12 perm" "unat (pp_ref (pages s pp)) < 65535"
  obtains s' where "page_insert (Some d) pp va perm s = Ok (0, s')" "wf_vm U D s'"
    "\<forall>d'\<in>D. \<forall>i'\<in>U. \<forall>j'. slot s' d' i' j' = (if d' = d \<and> i' = PDX va \<and> j' = PTX va
       then Some (page2pa pp OR perm OR PTE_P) else slot s d' i' j')"
    "\<forall>q. q \<notin> set (free_pages s) \<longrightarrow> pp_ref (pages s' q) = pp_ref (pages s q) + (if q = pp then 1 else 0)"
    "set (free_pages s') \<subseteq> set (free_pages s)"
    "\<forall>d'\<in>D. \<forall>i'\<in>U. d' \<noteq> d \<longrightarrow> tab s' d' i' = tab s d' i'"
proof -
  let ?t = "new_table d (PDX va) p s"
  have wft: "wf_tables U D s" using assms(1) by (simp add: wf_vm_def)
  note nt = new_table_wf [OF wft assms(5,2,3,4)]
  have wfn: "wf_vm U D ?t" by (rule new_table_vm [OF assms(1,5,2,3,4)])
  have tabn: "tab ?t d (PDX va) = Some p" using nt(2) [OF assms(2,3)] by simp
  have none: "slot ?t d (PDX va) (PTX va) = None"
    using nt(3) [OF assms(2,3)] assms(4) by (simp add: slot_def)
  have pp: "pp \<noteq> p" using assms(5,8) by auto
  let ?e = "page2pa pp OR perm OR PTE_P"
  let ?s' = "set_pp_ref pp (pp_ref (pages ?t pp) + 1) (store_pte (p, PTX va) ?e ?t)"
  have "pp \<notin> D \<union> tables U D ?t" "pp \<notin> set (free_pages ?t)" "unat (pp_ref (pages ?t pp)) < 65535"
    using assms(5,7,8,10) pp by (simp_all add: nt(1,4))
  note fs = fill_slot [OF wfn assms(2,3) PTX_less tabn none _ this(1,2) assms(9) this(3), simplified]
  have "page_insert (Some d) pp va perm s = Ok (0, ?s')"
    using assms(4,5) pgdir_walk_create [OF wft assms(2-4)]
    by (simp add: page_insert_def pgdir_walk_miss)
  moreover have "wf_vm U D ?s'" using fs(1) assms(6) by simp
  ultimately show ?thesis
  proof (rule that)
    show "set (free_pages ?s') \<subseteq> set (free_pages s)" using fs(3) assms(5,6) nt(1) by auto
    show "\<forall>d'\<in>D. \<forall>i'\<in>U. d' \<noteq> d \<longrightarrow> tab ?s' d' i' = tab s d' i'" using fs(5) nt(2) assms(6) by simp
  qed (use fs(4) nt(3) assms(5,6) pp in auto)
qed

lemma page_insert_old_table:
  assumes "wf_vm U D s" "d \<in> D" "PDX va \<in> U" "tab s d (PDX va) = Some t"
    and "pp < npages s" "pp \<notin> D \<union> tables U D s" "pp \<notin> set (free_pages s)"
    and "low12 perm" "unat (pp_ref (pages s pp)) < 65535"
  obtains s' where "page_insert (Some d) pp va perm s = Ok (0, s')" "wf_vm U D s'"
    "\<forall>d'\<in>D. \<forall>i'\<in>U. \<forall>j'. slot s' d' i' j' = (if d' = d \<and> i' = PDX va \<and> j' = PTX va
       then Some (page2pa pp OR perm OR PTE_P) else slot s d' i' j')"
    "\<forall>q. pp_ref (pages s' q) = pp_ref (pages s q) - refs_drop (translate s d va) q + (if q = pp then 1 else 0)"
    "set (free_pages s') = set (freed_by (translate s d va) s) \<union> set (free_pages s) - {pp}"
    "\<forall>d'\<in>D. \<forall>i'\<in>U. tab s' d' i' = tab s d' i'"
proof -
  obtain s1 where s1:
    "bind_res (if load_pte s (t, PTX va) AND PTE_P \<noteq> 0 then page_remove (Some d) va s else Ok s)
       (\<lambda>s. Ok (Some (t, PTX va), if page_free_list s = Some pp
          then s\<lparr>page_free_list := pp_link (pages s pp)\<rparr> else s)) = Ok (Some (t, PTX va), s1)"
    and upd: "vm_update U D d (PDX va) (PTX va) None s s1" "pp \<notin> set (free_pages s1)"
    "set (free_pages s1) = set (freed_by (translate s d va) s) \<union> set (free_pages s) - {pp}"
    and ref: "\<forall>q. pp_ref (pages s1 q) = pp_ref (pages s q) - refs_drop (translate s d va) q"
    by (rule insert_clears_slot [OF assms(1-4,6,7)])
  have wf1: "wf_vm U D s1" "tab s1 d (PDX va) = Some t" "slot s1 d (PDX va) (PTX va) = None"
    "pp < npages s1" "pp \<notin> D \<union> tables U D s1"
    using upd(1) assms(2-6) by (auto simp: vm_update_def)
  have "unat (pp_ref (pages s1 pp)) < 65535"
  proof (cases "refs_drop (translate s d va) pp = 0")
    case True
    with ref assms(9) show ?thesis by simp
  next
    case False
    then obtain e where e: "slot s d (PDX va) (PTX va) = Some e" "PGNUM e = pp"
      "refs_drop (translate s d va) pp = 1"
      by (auto simp: refs_drop_def translate_def split: option.splits if_splits)
    then have "pp_ref (pages s pp) \<noteq> 0"
      using mapped_not_free(1) [OF assms(1-3) PTX_less e(1)] by simp
    with e(3) ref assms(9) show ?thesis by (simp add: unat_minus_one)
  qed
  note fs = fill_slot [OF wf1(1) assms(2,3) PTX_less wf1(2-5) upd(2) assms(8) this]
  let ?s' = "set_pp_ref pp (pp_ref (pages s1 pp) + 1)
      (store_pte (t, PTX va) (page2pa pp OR perm OR PTE_P) s1)"
  have "pgdir_walk (Some d) va False s = Ok (Some (t, PTX va), s)"
    by (rule pgdir_walk_hit [OF _ assms(2-4)]) (use assms(1) in \<open>simp add: wf_vm_def\<close>)
  then have "page_insert (Some d) pp va perm s = Ok (0, ?s')"
    using s1 by (simp add: page_insert_def)
  then show ?thesis using fs(1)
  proof (rule that)
    show "set (free_pages ?s') = set (freed_by (translate s d va) s) \<union> set (free_pages s) - {pp}"
      using fs(3) upd(3) by simp
    show "\<forall>d'\<in>D. \<forall>i'\<in>U. tab ?s' d' i' = tab s d' i'" using fs(5) upd(1) by (simp add: vm_update_def)
  qed (use fs(4) upd(1) ref in \<open>auto simp: vm_update_def\<close>)
qed

lemma PDX_PTX_PGNUM: "PDX va = PDX va' \<and> PTX va = PTX va' \<longleftrightarrow> PGNUM va = PGNUM va'"
proof
  assume eq: "PGNUM va = PGNUM va'"
  have "PDX a = PGNUM a div 1024" "PTX a = PGNUM a mod 1024" for a
    by (simp_all add: PDX_div PTX_div PGNUM_div div_mult2_eq [symmetric])
  with eq show "PDX va = PDX va' \<and> PTX va = PTX va'" by simp
qed (blast intro: PDX_PTX_inject)

section \<open>The boot-time mappings\<close>

lemma boot_map_page_spec:
  fixes pa perm :: u32
  assumes "wf_tables U D s" "d \<in> D" "PDX (va + of_nat k * PGSIZE) \<in> U"
    and "tab s d (PDX (va + of_nat k * PGSIZE)) \<noteq> None \<or> free_pages s \<noteq> []"
  defines "a \<equiv> va + of_nat k * PGSIZE" and "v \<equiv> (pa + of_nat k * PGSIZE) OR perm OR PTE_P"
  obtains s' where "boot_map_page (Some d) va pa perm k s = Ok s'" "wf_tables U D s'"
    "npages s' = npages s"
    "\<forall>d'\<in>D. \<forall>i'\<in>U. \<forall>j'. slot s' d' i' j' =
      (if d' = d \<and> i' = PDX a \<and> j' = PTX a then Some v else slot s d' i' j')"
    "\<forall>d'\<in>D. \<forall>i'\<in>U. tab s' d' i' = None \<longleftrightarrow> tab s d' i' = None \<and> \<not> (d' = d \<and> i' = PDX a)"
    "length (free_pages s) \<le> length (free_pages s') + (if tab s d (PDX a) = None then 1 else 0)"
proof -
  have v: "v AND PTE_P \<noteq> 0"
    using PTE_P_OR [of "(pa + of_nat k * PGSIZE) OR perm"] unfolding v_def or.assoc .
  note result = that
  have step: thesis if walk: "pgdir_walk (Some d) a True s = Ok (Some (t, PTX a), s1)"
    and s1: "wf_tables U D s1" "npages s1 = npages s" "tab s1 d (PDX a) = Some t"
      "\<forall>d'\<in>D. \<forall>i'\<in>U. \<forall>j'. slot s1 d' i' j' = slot s d' i' j'"
      "\<forall>d'\<in>D. \<forall>i'\<in>U. tab s1 d' i' = None \<longleftrightarrow> tab s d' i' = None \<and> \<not> (d' = d \<and> i' = PDX a)"
      "length (free_pages s) \<le> length (free_pages s1) + (if tab s d (PDX a) = None then 1 else 0)"
    for t s1
  proof (rule result)
    let ?s' = "store_pte (t, PTX a) v s1"
    note st = store_in_table [OF s1(1) assms(2,3) s1(3) [unfolded a_def], where j = "PTX a" and v = v]
    show "boot_map_page (Some d) va pa perm k s = Ok ?s'"
      using walk by (simp add: boot_map_page_def store_at_def a_def v_def)
    show "wf_tables U D ?s'" "npages ?s' = npages s" using st(3) s1(2) by simp_all
    show "\<forall>d'\<in>D. \<forall>i'\<in>U. \<forall>j'. slot ?s' d' i' j' =
        (if d' = d \<and> i' = PDX a \<and> j' = PTX a then Some v else slot s d' i' j')"
      using st(2) s1(4) v by (simp add: a_def)
    show "\<forall>d'\<in>D. \<forall>i'\<in>U. tab ?s' d' i' = None \<longleftrightarrow> tab s d' i' = None \<and> \<not> (d' = d \<and> i' = PDX a)"
      using st(1) s1(5) by simp
    show "length (free_pages s) \<le> length (free_pages ?s') + (if tab s d (PDX a) = None then 1 else 0)"
      using s1(6) by (simp add: store_pte_wf)
  qed
  show ?thesis
  proof (cases "tab s d (PDX a)")
    case (Some t)
    show ?thesis
      by (rule step [of t s]) (use pgdir_walk_hit [OF assms(1,2)] assms(1-3) Some in \<open>auto simp: a_def\<close>)
  next
    case None
    then obtain p ps where fr: "free_pages s = p # ps" using assms(4) by (cases "free_pages s") (auto simp: a_def)
    note nt = new_table_wf [OF assms(1) fr assms(2,3) None [unfolded a_def], folded a_def]
    show ?thesis
    proof (rule step [of p "new_table d (PDX a) p s"])
      show "pgdir_walk (Some d) a True s = Ok (Some (p, PTX a), new_table d (PDX a) p s)"
        using pgdir_walk_create [OF assms(1-3)] None fr by (simp add: a_def)
    qed (use nt assms(2,3) None fr in \<open>auto simp: a_def\<close>)
  qed
qed

lemma boot_map_loop:
  assumes "wf_tables U D s" "d \<in> D" "\<forall>k<n. PDX (va + of_nat k * PGSIZE) \<in> U"
    and "card (missing_tables d va n s) \<le> length (free_pages s)"
    and "\<forall>k<n. \<forall>k'<n. PGNUM (va + of_nat k * PGSIZE) = PGNUM (va + of_nat k' * PGSIZE) \<longrightarrow> k = k'"
    and "m \<le> n"
  shows "\<exists>s'. fold_res (boot_map_page (Some d) va pa perm) [0..<m] s = Ok s' \<and> wf_tables U D s'
    \<and> npages s' = npages s
    \<and> (\<forall>k<m. translate s' d (va + of_nat k * PGSIZE) = Some ((pa + of_nat k * PGSIZE) OR perm OR PTE_P))
    \<and> (\<forall>d'\<in>D. \<forall>a. PDX a \<in> U \<longrightarrow> d' \<noteq> d \<or> (\<forall>k<m. PGNUM a \<noteq> PGNUM (va + of_nat k * PGSIZE)) \<longrightarrow>
          translate s' d' a = translate s d' a)
    \<and> card (missing_tables d va n s') \<le> length (free_pages s')"
  using \<open>m \<le> n\<close>
proof (induction m)
  case 0
  show ?case using assms(1,4) by simp
next
  case (Suc m)
  let ?a = "\<lambda>k. va + of_nat k * PGSIZE" and ?v = "\<lambda>k. (pa + of_nat k * PGSIZE) OR perm OR PTE_P"
  from Suc obtain s1 where s1: "fold_res (boot_map_page (Some d) va pa perm) [0..<m] s = Ok s1"
    "wf_tables U D s1" "npages s1 = npages s" "\<forall>k<m. translate s1 d (?a k) = Some (?v k)"
    "\<forall>d'\<in>D. \<forall>a. PDX a \<in> U \<longrightarrow> d' \<noteq> d \<or> (\<forall>k<m. PGNUM a \<noteq> PGNUM (?a k)) \<longrightarrow>
       translate s1 d' a = translate s d' a"
    "card (missing_tables d va n s1) \<le> length (free_pages s1)"
    by (auto dest: Suc_leD)
  have mU: "PDX (?a m) \<in> U" using assms(3) Suc.prems by simp
  have fin: "finite (missing_tables d va n s1)" unfolding missing_tables_def by simp
  have room: "tab s1 d (PDX (?a m)) \<noteq> None \<or> free_pages s1 \<noteq> []"
  proof (rule disjCI)
    assume "\<not> free_pages s1 \<noteq> []"
    with s1(6) fin have "PDX (?a m) \<notin> missing_tables d va n s1" by simp
    then show "tab s1 d (PDX (?a m)) \<noteq> None"
      using Suc.prems by (auto simp: missing_tables_def Suc_le_eq)
  qed
  obtain s2 where s2: "boot_map_page (Some d) va pa perm m s1 = Ok s2" "wf_tables U D s2"
    "npages s2 = npages s1"
    "\<forall>d'\<in>D. \<forall>i'\<in>U. \<forall>j'. slot s2 d' i' j' =
      (if d' = d \<and> i' = PDX (?a m) \<and> j' = PTX (?a m) then Some (?v m) else slot s1 d' i' j')"
    "\<forall>d'\<in>D. \<forall>i'\<in>U. tab s2 d' i' = None \<longleftrightarrow> tab s1 d' i' = None \<and> \<not> (d' = d \<and> i' = PDX (?a m))"
    "length (free_pages s1) \<le> length (free_pages s2) + (if tab s1 d (PDX (?a m)) = None then 1 else 0)"
    by (rule boot_map_page_spec [OF s1(2) assms(2) mU room])
  have tr: "translate s2 d' a = (if d' = d \<and> PGNUM a = PGNUM (?a m) then Some (?v m) else translate s1 d' a)"
    if "d' \<in> D" "PDX a \<in> U" for d' a
    using s2(4) that unfolding translate_def by (simp add: PDX_PTX_PGNUM)
  have "missing_tables d va n s2 = missing_tables d va n s1 - {PDX (?a m)}"
    using s2(5) assms(2,3) mU unfolding missing_tables_def by auto
  moreover have "PDX (?a m) \<in> missing_tables d va n s1 \<longleftrightarrow> tab s1 d (PDX (?a m)) = None"
    using Suc.prems by (auto simp: missing_tables_def Suc_le_eq)
  ultimately have "card (missing_tables d va n s2) = card (missing_tables d va n s1)
      - (if tab s1 d (PDX (?a m)) = None then 1 else 0)"
    by (simp add: card_Diff_singleton_if)
  with s1(6) s2(6) have "card (missing_tables d va n s2) \<le> length (free_pages s2)"
    by (cases "tab s1 d (PDX (?a m)) = None") linarith+
  moreover have "\<forall>k<Suc m. translate s2 d (?a k) = Some (?v k)"
  proof (intro allI impI)
    fix k
    assume k: "k < Suc m"
    then have "PDX (?a k) \<in> U" "k < n" "m < n" using assms(3) Suc.prems by simp_all
    with tr [OF assms(2), of "?a k"] s1(4) k assms(5) show "translate s2 d (?a k) = Some (?v k)"
      by (cases "k = m") auto
  qed
  moreover have "translate s2 d' a = translate s d' a"
    if "d' \<in> D" "PDX a \<in> U" "d' \<noteq> d \<or> (\<forall>k<Suc m. PGNUM a \<noteq> PGNUM (?a k))" for d' a
  proof -
    have "translate s2 d' a = translate s1 d' a" using tr [OF that(1,2)] that(3) by auto
    moreover have "translate s1 d' a = translate s d' a" using s1(5) that by auto
    ultimately show ?thesis by simp
  qed
  moreover have "fold_res (boot_map_page (Some d) va pa perm) [0..<Suc m] s = Ok s2"
    using s1(1) s2(1) by (simp add: fold_res_append)
  ultimately show ?case using s1(3) s2(2,3) by (intro exI [of _ s2]) simp
qed

lemma PGNUM_add_pages:
  assumes "unat va mod 4096 = 0" "unat va + k * 4096 < 4294967296"
  shows "PGNUM (va + of_nat k * PGSIZE) = PGNUM va + k"
proof -
  have "unat (of_nat k * PGSIZE :: u32) = k * 4096"
    using assms(2) by (simp add: unat_word_ariths unat_of_nat mmu_defs)
  then have "unat (va + of_nat k * PGSIZE) = unat va + k * 4096"
    using assms(2) by (simp add: unat_word_ariths)
  then show ?thesis by (simp add: PGNUM_div)
qed

lemma aligned_add_pages:
  assumes "unat pa mod 4096 = 0"
  shows "unat (pa + of_nat k * PGSIZE) mod 4096 = 0"
proof -
  have "unat (pa + of_nat k * PGSIZE) mod 4096 = (unat pa + unat (of_nat k * PGSIZE :: u32)) mod 4294967296 mod 4096"
    by (simp add: unat_word_ariths)
  also have "\<dots> = (unat pa + unat (of_nat k * PGSIZE :: u32)) mod 4096" by (rule mod_mod_cancel) simp
  also have "unat (of_nat k * PGSIZE :: u32) mod 4096 = 0"
    by (simp add: unat_word_ariths mmu_defs mod_mod_cancel)
  with assms have "(unat pa + unat (of_nat k * PGSIZE :: u32)) mod 4096 = 0"
    by (simp add: mod_add_eq [symmetric, of "unat pa"])
  finally show ?thesis .
qed

lemma boot_map_size:
  assumes "unat va mod 4096 = 0" "n < 1048576"
  shows "unat ((ROUNDUP (va + of_nat n * PGSIZE) PGSIZE - va) div PGSIZE) = n"
proof -
  have "unat (of_nat n * PGSIZE :: u32) = n * 4096"
    using assms(2) by (simp add: unat_word_ariths unat_of_nat mmu_defs)
  moreover have "ROUNDUP (va + of_nat n * PGSIZE) PGSIZE - va = of_nat n * PGSIZE"
    using aligned_add_pages [OF assms(1)] by (simp add: ROUNDUP_of_aligned)
  ultimately show ?thesis by (simp add: unat_div_distrib mmu_defs)
qed

lemma PTE_ADDR_entry:
  assumes "unat pa mod 4096 = 0" "low12 perm"
  shows "PTE_ADDR (pa OR perm OR PTE_P) = pa"
proof -
  have "take_bit 12 pa = 0"
    using assms(1) by (simp add: take_bit_eq_mod word_unat_eq_iff unat_mod_distrib)
  then have "\<not> bit (take_bit 12 pa) n" for n by simp
  then have "\<not> bit pa n" if "n < 12" for n using that by (simp add: bit_take_bit_iff)
  moreover have "low12 (perm OR PTE_P)" using assms(2) by simp
  ultimately show ?thesis
    unfolding PTE_ADDR_def mask12 low12_iff bit_eq_iff by (auto simp: bit_simps not_le dest: u32_bit_less)
qed

lemma check_va2pa_translate:
  assumes "wf_tables U D s" "d \<in> D" "PDX va \<in> U" "translate s d va = Some e"
  shows "check_va2pa d va s = Ok (PTE_ADDR e)"
proof -
  obtain t where t: "tab s d (PDX va) = Some t" "frames s t (PTX va) AND PTE_P \<noteq> 0" "e = frames s t (PTX va)"
    using assms(4) by (auto simp: translate_def slot_def split: option.splits if_splits)
  then have "load_pte s (d, PDX va) AND PTE_P \<noteq> 0" "PGNUM (load_pte s (d, PDX va)) = t"
    by (auto simp: tab_def load_pte_def split: if_splits)
  with t wf_tablesD(1) [OF assms(1-3) t(1)] show ?thesis
    by (simp add: check_va2pa_def KADDR_def) (simp add: load_pte_def)
qed

section \<open>Checking user memory\<close>

lemma pgdir_walk_no_create:
  assumes "\<And>t. tab s d (PDX va) = Some t \<Longrightarrow> t < npages s"
  shows "pgdir_walk (Some d) va False s =
    Ok (case tab s d (PDX va) of None \<Rightarrow> None | Some t \<Rightarrow> Some (t, PTX va), s)"
proof (cases "tab s d (PDX va)")
  case None
  then show ?thesis by (simp add: pgdir_walk_miss)
next
  case (Some t)
  then have "load_pte s (d, PDX va) AND PTE_P \<noteq> 0" "PGNUM (load_pte s (d, PDX va)) = t"
    by (auto simp: tab_def load_pte_def split: if_splits)
  with Some assms show ?thesis by (simp add: pgdir_walk_def KADDR_def)
qed

lemma user_ok_page:
  assumes "PGNUM a = PGNUM a'"
  shows "user_ok s d perm a = user_ok s d perm a'"
proof -
  have "b < ULIM \<longleftrightarrow> PGNUM b < 980992" for b
    by (simp add: word_less_nat_alt mmu_defs PGNUM_div div_less_iff_less_mult)
  moreover have "PDX a = PDX a'" "PTX a = PTX a'" using assms PDX_PTX_PGNUM by blast+
  ultimately show ?thesis using assms by (simp add: user_ok_def split: option.split)
qed

lemma user_mem_check_loop_spec:
  assumes "\<forall>i<1024. \<forall>t. tab s d i = Some t \<longrightarrow> t < npages s"
  shows "(\<forall>a. tmp_addr \<le> a \<longrightarrow> a < end_addr \<longrightarrow> user_ok s d perm a)
           \<and> user_mem_check_loop (Some d) end_addr perm tmp_addr s = Ok (0, s)
       \<or> (\<exists>a0. tmp_addr \<le> a0 \<and> a0 < end_addr \<and> \<not> user_ok s d perm a0
           \<and> (\<forall>a. tmp_addr \<le> a \<longrightarrow> a < a0 \<longrightarrow> user_ok s d perm a)
           \<and> user_mem_check_loop (Some d) end_addr perm tmp_addr s
              = Ok (- E_FAULT, s\<lparr>user_mem_check_addr := a0\<rparr>))"
  using assms
proof (induction "Some d" end_addr perm tmp_addr s rule: user_mem_check_loop.induct)
  case (1 end_addr perm tmp_addr s)
  let ?loop = "user_mem_check_loop (Some d) end_addr perm"
  have walk: "pgdir_walk (Some d) tmp_addr False s =
      Ok (case tab s d (PDX tmp_addr) of None \<Rightarrow> None | Some t \<Rightarrow> Some (t, PTX tmp_addr), s)"
    using "1.prems" PDX_less by (intro pgdir_walk_no_create) blast
  consider "\<not> tmp_addr < end_addr" | "tmp_addr < end_addr" "\<not> user_ok s d perm tmp_addr"
    | "tmp_addr < end_addr" "user_ok s d perm tmp_addr" by blast
  then show ?case
  proof cases
    case 1
    then have "?loop tmp_addr s = Ok (0, s)" by (subst user_mem_check_loop.simps) simp
    with 1 show ?thesis by auto
  next
    case 2
    have "?loop tmp_addr s = Ok (- E_FAULT, s\<lparr>user_mem_check_addr := tmp_addr\<rparr>)"
      using 2 by (subst user_mem_check_loop.simps)
        (auto simp: walk user_ok_def load_pte_def split: option.split)
    with 2 show ?thesis by auto
  next
    case 3
    let ?next = "ROUNDUP (tmp_addr + 1) PGSIZE"
    obtain t where t: "tab s d (PDX tmp_addr) = Some t" "(NOT (frames s t (PTX tmp_addr))) AND perm = 0"
      "tmp_addr < ULIM" "\<not> ULIM \<le> tmp_addr"
      using 3(2) by (auto simp: user_ok_def split: option.splits)
    have eq: "?loop tmp_addr s = ?loop ?next s"
      using 3(1) t by (subst user_mem_check_loop.simps) (simp add: walk load_pte_def)
    have in_page: "user_ok s d perm a" if "tmp_addr \<le> a" "a < ?next" for a
    proof -
      have "unat tmp_addr \<le> unat a" "unat a < (unat tmp_addr div 4096 + 1) * 4096"
        using that next_page_unat [OF t(3)] by (simp_all add: word_le_nat_alt word_less_nat_alt)
      then have "unat a div 4096 = unat tmp_addr div 4096"
        by (intro antisym) (simp_all add: div_le_mono less_Suc_eq_le [symmetric] div_less_iff_less_mult)
      with 3(2) show ?thesis using user_ok_page [of a tmp_addr] by (simp add: PGNUM_div)
    qed
    have later: "tmp_addr \<le> a" if "?next \<le> a" for a
    proof -
      have "unat tmp_addr \<le> (unat tmp_addr div 4096 + 1) * 4096"
        using div_mult_mod_eq [of "unat tmp_addr" 4096] mod_less_divisor [of 4096 "unat tmp_addr"] by simp
      with that next_page_unat [OF t(3)] show ?thesis by (simp add: word_le_nat_alt)
    qed
    have "(\<forall>a. ?next \<le> a \<longrightarrow> a < end_addr \<longrightarrow> user_ok s d perm a) \<and> ?loop ?next s = Ok (0, s)
       \<or> (\<exists>a0. ?next \<le> a0 \<and> a0 < end_addr \<and> \<not> user_ok s d perm a0
           \<and> (\<forall>a. ?next \<le> a \<longrightarrow> a < a0 \<longrightarrow> user_ok s d perm a)
           \<and> ?loop ?next s = Ok (- E_FAULT, s\<lparr>user_mem_check_addr := a0\<rparr>))"
      by (rule "1.hyps" [OF 3(1) walk refl _ "1.prems"]) (use t in \<open>simp add: load_pte_def\<close>)
    then show ?thesis unfolding eq using in_page later by (meson not_le)
  qed
qed

lemma user_mem_check_page:
  assumes "\<forall>i<1024. \<forall>t. tab s d i = Some t \<longrightarrow> t < npages s" "env_pgdir (envs s env) = Some d"
    and "unat va mod 4096 = 0" "user_ok s d perm va"
  shows "user_mem_check env va PGSIZE perm s = Ok (0, s)"
proof -
  have va: "unat va < 4018143232" using assms(4) by (simp add: user_ok_def word_less_nat_alt mmu_defs)
  then have sum: "unat (va + PGSIZE) = unat va + 4096" by (simp add: unat_word_ariths mmu_defs)
  then have "ROUNDUP (va + PGSIZE) PGSIZE = va + PGSIZE" using assms(3) by (intro ROUNDUP_of_aligned) simp
  moreover have "user_ok s d perm a" if "va \<le> a" "a < va + PGSIZE" for a
  proof -
    obtain k where k: "unat va = 4096 * k" using assms(3) by (auto simp: mod_eq_0_iff_dvd)
    have "4096 * k \<le> unat a" "unat a < 4096 * (k + 1)"
      using that sum k by (simp_all add: word_le_nat_alt word_less_nat_alt)
    then have "unat a div 4096 = k" by (intro div_nat_eqI) simp_all
    with assms(4) show ?thesis using user_ok_page [of a va] by (simp add: PGNUM_div k)
  qed
  ultimately show ?thesis
    using user_mem_check_loop_spec [OF assms(1), of va "va + PGSIZE" perm] assms(2)
    by (auto simp: user_mem_check_def)
qed

section \<open>Example states\<close>

lemma user_part_eq: "user_part = {..<955}"
  by (simp add: user_part_def PDX_def mmu_defs)

lemma one_free_page_vm: "wf_vm user_part {2} one_free_page" "tab one_free_page 2 i = None"
  "wf_tables U {2} one_free_page"
proof -
  show tab: "tab one_free_page 2 i = None" for i
    by (simp add: tab_def one_free_page_def bss_kstate_def)
  have tabs: "tables U {2} one_free_page = {}" for U by (simp add: tables_def tab)
  show "wf_tables U {2} one_free_page" for U
    using one_free_page_wf by (simp add: wf_tables_def tabs tab)
      (simp add: one_free_page_def bss_kstate_def)
  then have "wf_tables user_part {2} one_free_page" .
  moreover have "mappings user_part {2} one_free_page p = {}" for p
    by (auto simp: mappings_def slot_def tab)
  ultimately show "wf_vm user_part {2} one_free_page"
    by (simp add: wf_vm_def slot_def tab user_part_def)
qed

lemma mapped_page_vm:
  "wf_vm user_part {2} mapped_page" "tab mapped_page 2 i = (if i = 0 then Some 1 else None)"
  "slot mapped_page 2 0 5 = Some 0x3007" "free_pages mapped_page = []"
proof -
  show tab: "tab mapped_page 2 i = (if i = 0 then Some 1 else None)" for i
    by (simp add: tab_def mapped_page_def bss_kstate_def mmu_defs PGNUM_def)
  have slot: "slot mapped_page 2 i j = (if i = 0 \<and> j = 5 then Some 0x3007 else None)" for i j
    by (simp add: slot_def tab) (simp add: mapped_page_def bss_kstate_def mmu_defs)
  show "slot mapped_page 2 0 5 = Some 0x3007" by (simp add: slot)
  have "free_list mapped_page []" by (simp add: free_list_def mapped_page_def bss_kstate_def)
  then show free: "free_pages mapped_page = []" by (rule free_list_free_pages)
  have wf: "wf_pages mapped_page"
    using \<open>free_list mapped_page []\<close> by (auto simp: wf_pages_iff) (simp add: mapped_page_def bss_kstate_def)
  have U: "0 \<in> user_part" by (simp add: user_part_eq)
  have tabs: "tables user_part {2} mapped_page = {1}" using U by (auto simp: tables_def tab)
  have "wf_tables user_part {2} mapped_page"
    using wf by (simp add: wf_tables_def tabs free tab) (simp add: mapped_page_def bss_kstate_def)
  moreover have "mappings user_part {2} mapped_page p = (if p = 3 then {(2, 0, 5)} else {})" for p
    using U by (auto simp: mappings_def slot PGNUM_def split: if_splits)
  moreover have "finite user_part" by (simp add: user_part_def)
  moreover have "npages mapped_page = 4" "pp_ref (pages mapped_page 3) = 1"
    by (simp_all add: mapped_page_def bss_kstate_def)
  ultimately show "wf_vm user_part {2} mapped_page"
    by (simp add: wf_vm_def slot tabs PGNUM_def)
qed

section \<open>Properties\<close>

text \<open>
  C4. \<open>page_insert\<close> implements the update of a map. For address spaces that satisfy the
  invariant, a page that is neither free nor used as directory or table, and permissions that are
  permission bits: it returns \<open>-E_NO_MEM\<close> without changing anything exactly when a page table is
  missing and no page is free; otherwise it returns 0, the address then translates to the page with
  \<open>perm|PTE_P\<close>, every other address of every address space translates as before, and the
  invariant holds again.
\<close>

theorem page_insert_refines_map:
  assumes "wf_vm U D s" "d \<in> D" "PDX va \<in> U"
    and "pp < npages s" "pp \<notin> D \<union> tables U D s" "pp \<notin> set (free_pages s)"
    and "low12 perm" "unat (pp_ref (pages s pp)) < 65535"
  shows "if tab s d (PDX va) = None \<and> free_pages s = []
     then page_insert (Some d) pp va perm s = Ok (- E_NO_MEM, s)
     else \<exists>s'. page_insert (Some d) pp va perm s = Ok (0, s') \<and> wf_vm U D s'
       \<and> (\<forall>d'\<in>D. \<forall>va'. PDX va' \<in> U \<longrightarrow> translate s' d' va' =
            (if d' = d \<and> PGNUM va' = PGNUM va then Some (page2pa pp OR perm OR PTE_P)
             else translate s d' va'))"
proof (cases "tab s d (PDX va)")
  case None
  show ?thesis
  proof (cases "free_pages s")
    case Nil
    with None page_insert_no_mem [OF assms(1-3)] show ?thesis by simp
  next
    case (Cons p ps)
    obtain s' where "page_insert (Some d) pp va perm s = Ok (0, s')" "wf_vm U D s'"
      "\<forall>d'\<in>D. \<forall>i'\<in>U. \<forall>j'. slot s' d' i' j' = (if d' = d \<and> i' = PDX va \<and> j' = PTX va
         then Some (page2pa pp OR perm OR PTE_P) else slot s d' i' j')"
      by (rule page_insert_new_table [OF assms(1-3) None Cons assms(4-8)])
    with Cons show ?thesis by (simp add: translate_def PDX_PTX_PGNUM)
  qed
next
  case (Some t)
  obtain s' where "page_insert (Some d) pp va perm s = Ok (0, s')" "wf_vm U D s'"
    "\<forall>d'\<in>D. \<forall>i'\<in>U. \<forall>j'. slot s' d' i' j' = (if d' = d \<and> i' = PDX va \<and> j' = PTX va
       then Some (page2pa pp OR perm OR PTE_P) else slot s d' i' j')"
    by (rule page_insert_old_table [OF assms(1-3) Some assms(4-8)])
  with Some show ?thesis by (simp add: translate_def PDX_PTX_PGNUM)
qed

theorem page_insert_refines_map_witness:
  "\<exists>s'. page_insert (Some 2) 3 0x800000 PTE_W one_free_page = Ok (0, s')
     \<and> translate s' 2 0x800FFF = Some (page2pa 3 OR PTE_W OR PTE_P)"
proof -
  have "PDX 0x800000 \<in> user_part" "PDX 0x800FFF \<in> user_part"
    by (simp_all add: user_part_eq PDX_def)
  moreover have "tables user_part {2} one_free_page = {}" by (simp add: tables_def one_free_page_vm)
  moreover have "npages one_free_page = 4" "pp_ref (pages one_free_page 3) = 0"
    by (simp_all add: one_free_page_def bss_kstate_def)
  ultimately show ?thesis
    using page_insert_refines_map [OF one_free_page_vm(1), of 2 "0x800000" 3 PTE_W]
    by (auto simp: one_free_page_wf PGNUM_def)
qed

text \<open>
  C5. \<open>page_remove\<close> implements the deletion from a map, and frees the page exactly when that was
  its last reference: afterwards the address translates to nothing, every other address of every
  address space translates as before, the reference count has dropped by one, the page is on the
  free list if the count is now 0, and the invariant holds again; in particular no page that is
  still mapped is ever free. Where nothing was mapped it changes nothing of this.
\<close>

theorem page_remove_refines_map:
  assumes "wf_vm U D s" "d \<in> D" "PDX va \<in> U"
  shows "\<exists>s'. page_remove (Some d) va s = Ok s' \<and> wf_vm U D s'
     \<and> (\<forall>d'\<in>D. \<forall>va'. PDX va' \<in> U \<longrightarrow> translate s' d' va' =
          (if d' = d \<and> PGNUM va' = PGNUM va then None else translate s d' va'))
     \<and> (case translate s d va of
           None \<Rightarrow> free_pages s' = free_pages s \<and> (\<forall>q. pp_ref (pages s' q) = pp_ref (pages s q))
         | Some e \<Rightarrow>
             free_pages s' = (if pp_ref (pages s (PGNUM e)) = 1 then [PGNUM e] else []) @ free_pages s
             \<and> (\<forall>q. pp_ref (pages s' q) = pp_ref (pages s q) - (if q = PGNUM e then 1 else 0)))"
proof -
  obtain s' where "page_remove (Some d) va s = Ok s'" "vm_update U D d (PDX va) (PTX va) None s s'"
    "free_pages s' = freed_by (translate s d va) s @ free_pages s"
    "\<forall>q. pp_ref (pages s' q) = pp_ref (pages s q) - refs_drop (translate s d va) q"
    by (rule page_remove_spec [OF assms])
  then show ?thesis
    by (intro exI [of _ s'] conjI)
       (auto simp: vm_update_def translate_def PDX_PTX_PGNUM freed_by_def refs_drop_def split: option.split)
qed

theorem page_remove_refines_map_witness:
  "\<exists>s'. page_remove (Some 2) 0x5000 mapped_page = Ok s' \<and> translate s' 2 0x5000 = None
     \<and> free_pages s' = [3] \<and> pp_ref (pages s' 3) = 0"
proof -
  have va: "PDX 0x5000 = 0" "PTX 0x5000 = 5" by (simp_all add: PDX_def PTX_def)
  have "PDX 0x5000 \<in> user_part" by (simp add: user_part_eq va)
  moreover have "translate mapped_page 2 0x5000 = Some 0x3007"
    by (simp add: translate_def va mapped_page_vm(3))
  moreover have "PGNUM 0x3007 = 3" by (simp add: PGNUM_def)
  moreover have "pp_ref (pages mapped_page 3) = 1" by (simp add: mapped_page_def)
  ultimately show ?thesis
    using page_remove_refines_map [OF mapped_page_vm(1), of 2 "0x5000"]
    by (auto simp: mapped_page_vm(4))
qed

text \<open>
  C6. \<open>boot_map_region\<close> maps exactly the requested region: for page-aligned addresses and a region
  of \<open>n\<close> pages in the part of the directory that the invariant covers, with enough free pages for the
  missing tables, it does not panic, \<open>check_va2pa\<close> then gives \<open>pa + k*PGSIZE\<close> for page \<open>k\<close> of the
  region, and every other address translates as before. The region may end at the very top of the
  address space, where \<open>va + size\<close> wraps to 0, as in the mapping of all of physical memory.
\<close>

theorem boot_map_region_maps:
  assumes "wf_tables U D s" "d \<in> D" "\<forall>k<n. PDX (va + of_nat k * PGSIZE) \<in> U"
    and "unat va mod 4096 = 0" "unat pa mod 4096 = 0" "unat va + n * 4096 \<le> 4294967296" "n < 1048576"
    and "card (missing_tables d va n s) \<le> length (free_pages s)" "low12 perm"
  shows "\<exists>s'. boot_map_region (Some d) va (of_nat n * PGSIZE) pa perm s = Ok s' \<and> wf_tables U D s'
     \<and> (\<forall>k<n. check_va2pa d (va + of_nat k * PGSIZE) s' = Ok (pa + of_nat k * PGSIZE))
     \<and> (\<forall>d'\<in>D. \<forall>a. PDX a \<in> U \<longrightarrow> d' \<noteq> d \<or> (\<forall>k<n. PGNUM a \<noteq> PGNUM (va + of_nat k * PGSIZE)) \<longrightarrow>
          translate s' d' a = translate s d' a)"
proof -
  have page: "PGNUM (va + of_nat k * PGSIZE) = PGNUM va + k" if "k < n" for k
    by (rule PGNUM_add_pages) (use that assms(4,6) in simp_all)
  obtain s' where s': "fold_res (boot_map_page (Some d) va pa perm) [0..<n] s = Ok s'" "wf_tables U D s'"
    "\<forall>k<n. translate s' d (va + of_nat k * PGSIZE) = Some ((pa + of_nat k * PGSIZE) OR perm OR PTE_P)"
    "\<forall>d'\<in>D. \<forall>a. PDX a \<in> U \<longrightarrow> d' \<noteq> d \<or> (\<forall>k<n. PGNUM a \<noteq> PGNUM (va + of_nat k * PGSIZE)) \<longrightarrow>
          translate s' d' a = translate s d' a"
    using boot_map_loop [OF assms(1-3,8), of n pa perm] page by auto
  have "boot_map_region (Some d) va (of_nat n * PGSIZE) pa perm s = Ok s'"
    using s'(1) boot_map_size [OF assms(4,7)] assms(4,5)
    by (simp add: boot_map_region_def Let_def ROUNDUP_of_aligned)
  moreover have "check_va2pa d (va + of_nat k * PGSIZE) s' = Ok (pa + of_nat k * PGSIZE)" if "k < n" for k
    using check_va2pa_translate [OF s'(2) assms(2)] s'(3) assms(3,5,9) that aligned_add_pages [of pa k]
    by (simp add: PTE_ADDR_entry)
  ultimately show ?thesis using s'(2,4) by blast
qed

theorem boot_map_region_maps_witness:
  "\<exists>s'. boot_map_region (Some 2) 0xFFFFE000 0x2000 0x1000 PTE_W one_free_page = Ok s'
     \<and> check_va2pa 2 0xFFFFE000 s' = Ok 0x1000 \<and> check_va2pa 2 0xFFFFF000 s' = Ok 0x2000"
proof -
  have va: "(0xFFFFE000 :: u32) + of_nat k * PGSIZE = (if k = 0 then 0xFFFFE000 else 0xFFFFF000)"
    if "k < 2" for k
    using that by (auto simp: less_2_cases_iff mmu_defs)
  have pdx: "PDX 0xFFFFE000 = 1023" "PDX 0xFFFFF000 = 1023" by (simp_all add: PDX_def)
  then have U: "\<forall>k<2. PDX (0xFFFFE000 + of_nat k * PGSIZE) \<in> {1023}"
    by (simp add: va)
  have "missing_tables 2 0xFFFFE000 2 one_free_page \<subseteq> {1023}"
    unfolding missing_tables_def using U by auto
  then have "card (missing_tables 2 0xFFFFE000 2 one_free_page) \<le> card {1023 :: nat}"
    by (rule card_mono [rotated]) simp
  then have "card (missing_tables 2 0xFFFFE000 2 one_free_page) \<le> length (free_pages one_free_page)"
    by (simp add: one_free_page_wf(2))
  from boot_map_region_maps [OF one_free_page_vm(3) _ U _ _ _ _ this, of "0x1000" PTE_W]
  obtain s' where s': "boot_map_region (Some 2) 0xFFFFE000 (of_nat 2 * PGSIZE) 0x1000 PTE_W one_free_page = Ok s'"
    "\<forall>k<2. check_va2pa 2 (0xFFFFE000 + of_nat k * PGSIZE) s' = Ok (0x1000 + of_nat k * PGSIZE)"
    by auto
  from s'(2) have "check_va2pa 2 (0xFFFFE000 + of_nat 0 * PGSIZE) s' = Ok (0x1000 + of_nat 0 * PGSIZE)"
    "check_va2pa 2 (0xFFFFE000 + of_nat 1 * PGSIZE) s' = Ok (0x1000 + of_nat 1 * PGSIZE)"
    by (simp_all only: numeral_2_eq_2 lessI zero_less_Suc One_nat_def)
  with s'(1) show ?thesis by (intro exI [of _ s']) (simp add: mmu_defs)
qed



text \<open>
  C8. \<open>page_remove\<close> clears only the present bit of the entry and \<open>user_mem_check\<close> does not ask for
  it, so \<open>user_mem_check\<close> with permissions that do not contain \<open>PTE_P\<close>, as \<open>user_mem_assert\<close> passes
  them, still accepts a page after it has been unmapped.
\<close>

theorem user_mem_check_accepts_unmapped:
  assumes "wf_vm U D s" "d \<in> D" "PDX va \<in> U" "\<forall>i<1024. \<forall>t. tab s d i = Some t \<longrightarrow> t < npages s"
    and "env_pgdir (envs s env) = Some d" "unat va mod 4096 = 0" "va < ULIM"
    and "translate s d va = Some e" "(NOT e) AND perm = 0" "perm AND PTE_P = 0"
  shows "\<exists>s'. page_remove (Some d) va s = Ok s' \<and> translate s' d va = None
     \<and> user_mem_check env va PGSIZE perm s' = Ok (0, s')"
proof -
  obtain t where t: "tab s d (PDX va) = Some t" "slot s d (PDX va) (PTX va) = Some e"
    using assms(8) by (auto simp: translate_def slot_def split: option.splits)
  define s' where "s' = tlb_invalidate (Some d) va
      (store_pte (t, PTX va) (e AND NOT PTE_P) (decref_state (PGNUM e) s))"
  have eq: "page_remove (Some d) va s = Ok s'"
    unfolding s'_def by (rule page_remove_eq [OF assms(1-3) t])
  have "t \<noteq> d" using wf_tablesD(3) [of U D s d "PDX va" t] assms(1-3) t(1) by (auto simp: wf_vm_def)
  then have tab: "tab s' d = tab s d" by (intro tab_cong) (simp add: s'_def)
  have fr: "frames s' t (PTX va) = e AND NOT PTE_P" by (simp add: s'_def)
  have "(NOT (e AND NOT PTE_P)) AND perm = 0"
    using assms(9,10) unfolding bit_eq_iff by (auto simp: bit_simps)
  then have "user_ok s' d perm va" using assms(7) t(1) fr by (simp add: user_ok_def tab)
  moreover have "env_pgdir (envs s' env) = Some d" "npages s' = npages s"
    using vm_frame_fields(1,4) [OF page_remove_frame [OF eq]] assms(5) by simp_all
  ultimately have "user_mem_check env va PGSIZE perm s' = Ok (0, s')"
    using assms(4,6) by (intro user_mem_check_page) (simp_all add: tab)
  moreover have "translate s' d va = None"
    using t(1) fr by (simp add: translate_def slot_def tab and.assoc)
  ultimately show ?thesis using eq by blast
qed

theorem user_mem_check_accepts_unmapped_witness:
  "\<exists>s'. page_remove (Some 2) 0x5000 mapped_page = Ok s' \<and> translate s' 2 0x5000 = None
     \<and> user_mem_check 0 0x5000 PGSIZE (0 OR PTE_U) s' = Ok (0, s')"
proof -
  have va: "PDX 0x5000 = 0" "PTX 0x5000 = 5" by (simp_all add: PDX_def PTX_def)
  have "\<forall>i<1024. \<forall>t. tab mapped_page 2 i = Some t \<longrightarrow> t < npages mapped_page"
    by (simp add: mapped_page_vm(2)) (simp add: mapped_page_def bss_kstate_def)
  moreover have "env_pgdir (envs mapped_page 0) = Some 2" by (simp add: mapped_page_def)
  ultimately show ?thesis
    using user_mem_check_accepts_unmapped [OF mapped_page_vm(1), of 2 "0x5000" 0 "0x3007" "0 OR PTE_U"]
    by (simp add: va user_part_eq translate_def mapped_page_vm(3)) (simp add: mmu_defs)
qed



end
