(* ===== verification/Access.thy ===== *)
theory Access
  imports Vm
begin

text \<open>
  Memory accesses of kernel code to user memory through virtual addresses: what the processor does
  with a load or a store under the installed page directory \<open>cr3\<close> (user memory is mapped by
  pages of 4096 bytes only; the 4-megabyte mappings of the kernel are not used here). A missing mapping, or a store to a read-only
  page (the kernel runs with the write-protect bit set), is a page fault in the kernel. Words are
  little-endian and need not be aligned.
\<close>

section \<open>Definitions\<close>

definition get_byte :: "nat \<Rightarrow> u32 \<Rightarrow> u8" where
  "get_byte k w = ucast (drop_bit (8 * k) w)"

definition set_byte :: "nat \<Rightarrow> u8 \<Rightarrow> u32 \<Rightarrow> u32" where
  "set_byte k b w = (w AND NOT (push_bit (8 * k) (mask 8))) OR push_bit (8 * k) (ucast b)"

text \<open>The byte at offset \<open>off\<close> of page frame \<open>p\<close>.\<close>

definition frame_byte :: "kstate \<Rightarrow> nat \<Rightarrow> nat \<Rightarrow> u8" where
  "frame_byte s p off = get_byte (off mod 4) (frames s p (off div 4))"

definition set_frame_byte :: "nat \<Rightarrow> nat \<Rightarrow> u8 \<Rightarrow> kstate \<Rightarrow> kstate" where
  "set_frame_byte p off b s =
     store_pte (p, off div 4) (set_byte (off mod 4) b (frames s p (off div 4))) s"

definition va_load8 :: "u32 \<Rightarrow> kstate \<Rightarrow> u8 kres" where
  "va_load8 va s = (case translate s (cr3 s) va of None \<Rightarrow> Panic Kernel_page_fault
     | Some e \<Rightarrow> Ok (frame_byte s (PGNUM e) (unat (PGOFF va))))"

definition va_store8 :: "u32 \<Rightarrow> u8 \<Rightarrow> kstate \<Rightarrow> kstate kres" where
  "va_store8 va b s = (case translate s (cr3 s) va of None \<Rightarrow> Panic Kernel_page_fault
     | Some e \<Rightarrow> if e AND PTE_W = 0 then Panic Kernel_page_fault
                 else Ok (set_frame_byte (PGNUM e) (unat (PGOFF va)) b s))"

fun va_load_bytes :: "u32 \<Rightarrow> nat \<Rightarrow> kstate \<Rightarrow> u8 list kres" where
  "va_load_bytes va 0 s = Ok []"
| "va_load_bytes va (Suc n) s =
     bind_res (va_load8 va s) (\<lambda>b. bind_res (va_load_bytes (va + 1) n s) (\<lambda>bs. Ok (b # bs)))"

fun va_store_bytes :: "u32 \<Rightarrow> u8 list \<Rightarrow> kstate \<Rightarrow> kstate kres" where
  "va_store_bytes va [] s = Ok s"
| "va_store_bytes va (b # bs) s = bind_res (va_store8 va b s) (va_store_bytes (va + 1) bs)"

text \<open>Little-endian words as bytes.\<close>

definition bytes_of32 :: "u32 \<Rightarrow> u8 list" where
  "bytes_of32 w = [get_byte 0 w, get_byte 1 w, get_byte 2 w, get_byte 3 w]"

fun le_value :: "u8 list \<Rightarrow> nat" where
  "le_value [] = 0"
| "le_value (b # bs) = unat b + 256 * le_value bs"

definition le32 :: "u8 list \<Rightarrow> nat \<Rightarrow> u32" where
  "le32 bs off = of_nat (le_value (take 4 (drop off bs)))"

definition le16 :: "u8 list \<Rightarrow> nat \<Rightarrow> u16" where
  "le16 bs off = of_nat (le_value (take 2 (drop off bs)))"

section \<open>Bytes and words\<close>

lemma get_set_byte:
  assumes "k < 4" "j < 4"
  shows "get_byte j (set_byte k b w) = (if j = k then b else get_byte j w)"
proof (rule bit_eqI)
  fix n
  assume "possible_bit TYPE(8 word) n"
  then have n: "n < 8" by simp
  then have "8 * j + n < 32" using assms by simp
  moreover have "8 * k \<le> 8 * j + n \<Longrightarrow> 8 * j + n - 8 * k < 8 \<Longrightarrow> j = k" using n by auto
  moreover have "bit b m \<Longrightarrow> m < 8" for m using bit_imp_le_length by fastforce
  ultimately show "bit (get_byte j (set_byte k b w)) n = bit (if j = k then b else get_byte j w) n"
    using n by (auto simp: get_byte_def set_byte_def bit_simps)
qed

lemma le_value_bytes: "le_value (bytes_of32 w) = unat w"
proof -
  have b: "unat (get_byte k w) = unat w div 2 ^ (8 * k) mod 256" for k
    by (simp only: get_byte_def unsigned_ucast_eq unat_drop_bit_eq) (simp add: take_bit_eq_mod drop_bit_eq_div)
  define x where "x = unat w"
  have "x div 256 div 256 div 256 < 256"
    using unat_u32_less [of w] by (simp add: x_def div_mult2_eq [symmetric])
  then have "x = x mod 256 + 256 * (x div 256 mod 256 + 256 * (x div 256 div 256 mod 256
      + 256 * (x div 256 div 256 div 256 mod 256)))"
    by simp
  moreover have "x div 256 div 256 = x div 65536" "x div 256 div 256 div 256 = x div 16777216"
    by (simp_all add: div_mult2_eq [symmetric])
  ultimately show ?thesis unfolding bytes_of32_def by (simp add: b x_def [symmetric])
qed

lemma le32_bytes_of32: "le32 (bytes_of32 w @ bs) 0 = w"
  using le_value_bytes [of w] by (simp add: le32_def bytes_of32_def)

lemma frame_byte_set:
  "frame_byte (set_frame_byte p off b s) q k = (if q = p \<and> k = off then b else frame_byte s q k)"
proof -
  have "k div 4 = off div 4 \<and> k mod 4 = off mod 4 \<longleftrightarrow> k = off"
    by (metis div_mult_mod_eq)
  then show ?thesis
    by (auto simp: frame_byte_def set_frame_byte_def get_set_byte)
qed

section \<open>Stores to user pages\<close>

lemma set_frame_byte_frame [simp]: "vm_frame s (set_frame_byte p off b t) = vm_frame s t"
  by (simp add: set_frame_byte_def)

lemma set_frame_byte_vm:
  assumes "wf_vm U D s" "p \<notin> D \<union> tables U D s"
  shows "wf_vm U D (set_frame_byte p off b s)"
    "tables U D (set_frame_byte p off b s) = tables U D s"
    "\<And>d i. d \<in> D \<Longrightarrow> i \<in> U \<Longrightarrow> tab (set_frame_byte p off b s) d i = tab s d i"
    "\<And>d i j. d \<in> D \<Longrightarrow> i \<in> U \<Longrightarrow> slot (set_frame_byte p off b s) d i j = slot s d i j"
    "free_pages (set_frame_byte p off b s) = free_pages s"
    "pages (set_frame_byte p off b s) = pages s"
proof -
  have wf: "wf_pages s" using assms(1) by (simp add: wf_vm_def wf_tables_def)
  have fr: "frames (set_frame_byte p off b s) q = frames s q" if "q \<in> D \<union> tables U D s" for q
    using that assms(2) by (auto simp: set_frame_byte_def)
  have np: "npages (set_frame_byte p off b s) = npages s" by (simp add: set_frame_byte_def)
  show free: "free_pages (set_frame_byte p off b s) = free_pages s"
    by (simp add: set_frame_byte_def store_pte_wf)
  have disj: "set (free_pages (set_frame_byte p off b s)) \<inter> (D \<union> tables U D s) = {}"
    using assms(1) unfolding free wf_vm_def wf_tables_def by auto
  show pg: "pages (set_frame_byte p off b s) = pages s" by (simp add: set_frame_byte_def)
  have wf': "wf_pages (set_frame_byte p off b s)" using wf by (simp add: set_frame_byte_def store_pte_wf)
  note oth = wf_vm_other [OF assms(1) wf' np fr _ disj]
  show "wf_vm U D (set_frame_byte p off b s)"
    "tables U D (set_frame_byte p off b s) = tables U D s"
    "\<And>d i. d \<in> D \<Longrightarrow> i \<in> U \<Longrightarrow> tab (set_frame_byte p off b s) d i = tab s d i"
    "\<And>d i j. d \<in> D \<Longrightarrow> i \<in> U \<Longrightarrow> slot (set_frame_byte p off b s) d i j = slot s d i j"
    by (rule oth; simp add: pg)+
qed

text \<open>A store through a user address changes the page it hits and no translation.\<close>

lemma va_store8_vm:
  assumes "wf_vm U D s" "cr3 s \<in> D" "PDX va \<in> U" "va_store8 va b s = Ok s'"
  shows "wf_vm U D s' \<and> vm_frame s s' \<and> free_pages s' = free_pages s \<and> pages s' = pages s
    \<and> (\<forall>d\<in>D. \<forall>i\<in>U. \<forall>j. slot s' d i j = slot s d i j)"
proof -
  obtain e where e: "translate s (cr3 s) va = Some e"
    "s' = set_frame_byte (PGNUM e) (unat (PGOFF va)) b s"
    using assms(4) by (auto simp: va_store8_def split: option.splits if_splits)
  have "PGNUM e \<notin> D \<union> tables U D s"
    using wf_vmD(2,3) [OF assms(1-3) PTX_less] e(1) by (simp add: translate_def)
  from set_frame_byte_vm [OF assms(1) this] show ?thesis by (simp add: e(2))
qed

lemma va_store_bytes_vm:
  assumes "wf_vm U D s" "cr3 s \<in> D" "\<forall>k<length bs. PDX (va + of_nat k) \<in> U"
    and "va_store_bytes va bs s = Ok s'"
  shows "wf_vm U D s' \<and> vm_frame s s' \<and> free_pages s' = free_pages s \<and> pages s' = pages s
    \<and> (\<forall>d\<in>D. \<forall>i\<in>U. \<forall>j. slot s' d i j = slot s d i j)"
  using assms
proof (induction bs arbitrary: va s)
  case (Cons b bs)
  from Cons.prems(4) obtain s1 where s1: "va_store8 va b s = Ok s1" "va_store_bytes (va + 1) bs s1 = Ok s'"
    by (auto simp: bind_res_eq_Ok)
  have va: "PDX va \<in> U" using Cons.prems(3) [rule_format, of 0] by simp
  note st = va_store8_vm [OF Cons.prems(1,2) va s1(1)]
  have c: "cr3 s1 \<in> D" using st Cons.prems(2) vm_frame_fields(9) [of s s1] by simp
  have "PDX (va + 1 + of_nat k) \<in> U" if "k < length bs" for k
    using Cons.prems(3) [rule_format, of "Suc k"] that by (simp add: ac_simps)
  then have "wf_vm U D s' \<and> vm_frame s1 s' \<and> free_pages s' = free_pages s1 \<and> pages s' = pages s1
    \<and> (\<forall>d\<in>D. \<forall>i\<in>U. \<forall>j. slot s' d i j = slot s1 d i j)"
    by (intro Cons.IH [OF _ c _ s1(2)]) (simp_all add: st)
  with st show ?case using vm_frame_trans [of s s1 s'] by simp
qed simp

lemma PGOFF_inj:
  assumes "k < 4096" "k' < 4096" "unat (PGOFF (va + of_nat k)) = unat (PGOFF (va + of_nat k'))"
  shows "k = k'"
proof -
  have "unat (va + of_nat n) mod 4096 = (unat va + n) mod 4096" if "n < 4096" for n
    using that by (simp add: unat_word_ariths unat_of_nat mod_mod_cancel)
  then have "(unat va + k) mod 4096 = (unat va + k') mod 4096"
    using assms by (simp add: PGOFF_mod)
  then have "int ((unat va + k) mod 4096) = int ((unat va + k') mod 4096)" by simp
  then have "int (unat va + k) mod 4096 = int (unat va + k') mod 4096" by (simp only: zmod_int of_nat_numeral)
  then have "4096 dvd int (unat va + k) - int (unat va + k')" by (simp only: mod_eq_dvd_iff)
  then obtain c where "int (unat va + k) - int (unat va + k') = 4096 * c" by (rule dvdE)
  then have "int k - int k' = 4096 * c" by simp
  moreover from this have "c < 1" "- 1 < c" using assms(1,2) by linarith+
  ultimately show ?thesis by simp
qed

lemma va_store_bytes_other:
  assumes "wf_vm U D s" "cr3 s \<in> D" "\<forall>k<length bs. PDX (va + of_nat k) \<in> U"
    and "va_store_bytes va bs s = Ok s'" "\<forall>k<length bs. off \<noteq> unat (PGOFF (va + of_nat k))"
  shows "frame_byte s' p off = frame_byte s p off"
  using assms
proof (induction bs arbitrary: va s)
  case (Cons b bs)
  from Cons.prems(4) obtain s1 where s1: "va_store8 va b s = Ok s1" "va_store_bytes (va + 1) bs s1 = Ok s'"
    by (auto simp: bind_res_eq_Ok)
  have va: "PDX va \<in> U" using Cons.prems(3) [rule_format, of 0] by simp
  note st = va_store8_vm [OF Cons.prems(1,2) va s1(1)]
  have c: "cr3 s1 \<in> D" using st Cons.prems(2) vm_frame_fields(9) [of s s1] by simp
  have "PDX (va + 1 + of_nat k) \<in> U" "off \<noteq> unat (PGOFF (va + 1 + of_nat k))" if "k < length bs" for k
    using Cons.prems(3,5) [rule_format, of "Suc k"] that by (simp_all add: ac_simps)
  then have "frame_byte s' p off = frame_byte s1 p off"
    using st by (intro Cons.IH [OF _ c _ s1(2)]) simp_all
  moreover have "off \<noteq> unat (PGOFF va)" using Cons.prems(5) [rule_format, of 0] by simp
  then have "frame_byte s1 p off = frame_byte s p off"
    using s1(1) by (auto simp: va_store8_def frame_byte_set split: option.splits if_splits)
  ultimately show ?case by simp
qed simp

text \<open>What is stored can be loaded again.\<close>

lemma va_store_load:
  assumes "wf_vm U D s" "cr3 s \<in> D" "\<forall>k<length bs. PDX (va + of_nat k) \<in> U" "length bs \<le> 4096"
    and "va_store_bytes va bs s = Ok s'"
  shows "va_load_bytes va (length bs) s' = Ok bs"
  using assms
proof (induction bs arbitrary: va s)
  case (Cons b bs)
  from Cons.prems(5) obtain s1 where s1: "va_store8 va b s = Ok s1" "va_store_bytes (va + 1) bs s1 = Ok s'"
    by (auto simp: bind_res_eq_Ok)
  have va: "PDX va \<in> U" using Cons.prems(3) [rule_format, of 0] by simp
  note st = va_store8_vm [OF Cons.prems(1,2) va s1(1)]
  have c: "cr3 s1 \<in> D" using st Cons.prems(2) vm_frame_fields(9) [of s s1] by simp
  have U: "PDX (va + 1 + of_nat k) \<in> U" if "k < length bs" for k
    using Cons.prems(3) [rule_format, of "Suc k"] that by (simp add: ac_simps)
  have rest: "va_load_bytes (va + 1) (length bs) s' = Ok bs"
    using st U Cons.prems(4) by (intro Cons.IH [OF _ c _ _ s1(2)]) simp_all
  obtain e where e: "translate s (cr3 s) va = Some e" "s1 = set_frame_byte (PGNUM e) (unat (PGOFF va)) b s"
    using s1(1) by (auto simp: va_store8_def split: option.splits if_splits)
  have st': "vm_frame s1 s'" "\<forall>d\<in>D. \<forall>i\<in>U. \<forall>j. slot s' d i j = slot s1 d i j"
    using va_store_bytes_vm [OF _ c _ s1(2)] st U by blast+
  have "cr3 s' = cr3 s" using st st'(1) vm_frame_fields(9) by metis
  moreover have "translate s' (cr3 s) va = Some e"
    using st st'(2) Cons.prems(2) va e(1) by (simp add: translate_def)
  moreover have "frame_byte s' (PGNUM e) (unat (PGOFF va)) = b"
  proof -
    have "unat (PGOFF va) \<noteq> unat (PGOFF (va + 1 + of_nat k))" if "k < length bs" for k
      using PGOFF_inj [of 0 "Suc k" va] that Cons.prems(4) by (auto simp: ac_simps)
    then have "frame_byte s' (PGNUM e) (unat (PGOFF va)) = frame_byte s1 (PGNUM e) (unat (PGOFF va))"
      using st U by (intro va_store_bytes_other [of U, OF _ c _ s1(2)]) simp_all
    then show ?thesis by (simp add: e(2) frame_byte_set)
  qed
  ultimately show ?case using rest by (simp add: va_load8_def)
qed simp

end
