(* ===== verification/Env.thy ===== *)
theory Env
  imports Access
begin

text \<open>
  Environments, after \<open>kern/env.c\<close> and \<open>kern/sched.c\<close>: the table \<open>envs[]\<close> with its free list,
  allocation with the page directory of a new environment, loading of an ELF image, destruction,
  and the context switch. \<open>env_run\<close>, \<open>sched_yield\<close> and \<open>env_destroy\<close> may leave the kernel; their
  outcomes are those of \<open>kout\<close>. Loading of descriptor tables and segment registers
  (\<open>env_init_percpu\<close>) and console messages are not modelled.
\<close>

section \<open>Environment ids and the table\<close>

definition NENV :: nat where "NENV = 1024"

definition ENVX :: "u32 \<Rightarrow> nat" where
  "ENVX envid = unat (envid AND (1024 - 1))"

definition ENVGENSHIFT :: nat where "ENVGENSHIFT = 12"

text \<open>\<open>envid2env\<close> returns its result and what it stores in \<open>*env_store\<close>.\<close>

definition envid2env :: "u32 \<Rightarrow> bool \<Rightarrow> kstate \<Rightarrow> (int \<times> nat option) kres" where
  "envid2env envid checkperm s =
     (if envid = 0 then Ok (0, curenv s)
      else
        let e = ENVX envid
        in if env_status (envs s e) = ENV_FREE \<or> env_id (envs s e) \<noteq> envid
           then Ok (- E_BAD_ENV, None)
           else if checkperm \<and> curenv s \<noteq> Some e
           then (case curenv s of
                   None \<Rightarrow> Panic Null_curenv
                 | Some c \<Rightarrow> if env_parent_id (envs s e) \<noteq> env_id (envs s c)
                             then Ok (- E_BAD_ENV, None) else Ok (0, Some e))
           else Ok (0, Some e))"

definition env_init_step :: "nat \<Rightarrow> kstate \<Rightarrow> kstate" where
  "env_init_step i s =
     (upd_env i (\<lambda>e. e\<lparr>env_id := 0, env_status := ENV_FREE,
        env_link := (if i = NENV then None else env_free_list s)\<rparr>) s)\<lparr>env_free_list := Some i\<rparr>"

definition env_init :: "kstate \<Rightarrow> kstate" where
  "env_init s = fold env_init_step (rev [0..<NENV]) (s\<lparr>env_free_list := None\<rparr>)"

section \<open>Allocation\<close>

definition env_setup_vm :: "nat \<Rightarrow> kstate \<Rightarrow> (int \<times> kstate) kres" where
  "env_setup_vm e s =
     bind_res (page_alloc ALLOC_ZERO s) (\<lambda>(p, s).
       case p of
         None \<Rightarrow> Ok (- E_NO_MEM, s)
       | Some pp \<Rightarrow>
           let s = set_pp_ref pp (pp_ref (pages s pp) + 1) s
           in bind_res (page2kva pp s) (\<lambda>kva.
                let s = upd_env e (\<lambda>v. v\<lparr>env_pgdir := Some kva\<rparr>) s;
                    s = s\<lparr>frames := (frames s)(kva := frames s (kern_pgdir s))\<rparr>;
                    s = store_pte (kva, PDX UVPT) (page2pa kva OR PTE_P OR PTE_U) s
                in Ok (0, s)))"

definition next_env_id :: "u32 \<Rightarrow> nat \<Rightarrow> u32" where
  "next_env_id old e =
     (let generation = (old + push_bit ENVGENSHIFT 1) AND NOT (1024 - 1);
          generation = (if sint generation \<le> 0 then push_bit ENVGENSHIFT 1 else generation)
      in generation OR of_nat e)"

text \<open>The trap frame of a new environment: cleared, with the segments and flags set.\<close>

definition new_trapframe :: Trapframe where
  "new_trapframe = zero_tf\<lparr>tf_ds := GD_UD OR 3, tf_es := GD_UD OR 3, tf_ss := GD_UD OR 3,
     tf_esp := USTACKTOP, tf_cs := GD_UT OR 3, tf_eflags := 0 OR FL_IF\<rparr>"

definition env_alloc :: "u32 \<Rightarrow> kstate \<Rightarrow> ((int \<times> nat option) \<times> kstate) kres" where
  "env_alloc parent_id s =
     (case env_free_list s of
        None \<Rightarrow> Ok ((- E_NO_FREE_ENV, None), s)
      | Some e \<Rightarrow>
          bind_res (env_setup_vm e s) (\<lambda>(r, s).
            if r < 0 then Ok ((r, None), s)
            else
              let s = upd_env e (\<lambda>v. v\<lparr>env_id := next_env_id (env_id v) e,
                        env_parent_id := parent_id, env_type := ENV_TYPE_USER,
                        env_status := ENV_RUNNABLE, env_runs := 0, env_tf := new_trapframe,
                        env_pgfault_upcall := 0, env_ipc_recving := False\<rparr>) s
              in Ok ((0, Some e), s\<lparr>env_free_list := env_link (envs s e)\<rparr>)))"

section \<open>Loading a program\<close>

definition region_alloc_page :: "nat option \<Rightarrow> u32 \<Rightarrow> kstate \<Rightarrow> kstate kres" where
  "region_alloc_page pgdir tmp_addr s =
     bind_res (page_alloc ALLOC_ZERO s) (\<lambda>(nPage, s).
       case nPage of
         None \<Rightarrow> Panic Region_alloc_failed
       | Some pp \<Rightarrow>
           let s = set_pp_ref pp (pp_ref (pages s pp) + 1) s
           in bind_res (page_insert pgdir pp tmp_addr (PTE_P OR PTE_U OR PTE_W) s) (\<lambda>(ret, s).
                if ret \<noteq> 0 then Panic Region_insert_failed else Ok s))"

text \<open>
  \<open>region_alloc\<close> visits the page addresses from \<open>start_addr\<close> below \<open>end_addr\<close>; both are page-aligned
  and \<open>end_addr\<close> is at most \<open>UTOP\<close>, so the loop counter does not wrap.
\<close>

definition region_alloc :: "nat \<Rightarrow> u32 \<Rightarrow> u32 \<Rightarrow> kstate \<Rightarrow> kstate kres" where
  "region_alloc e va len s =
     (let start_addr = ROUNDDOWN va PGSIZE;
          end_addr = ROUNDUP (va + len) PGSIZE
      in if end_addr > UTOP then Panic Region_alloc_range
         else fold_res (\<lambda>k s. region_alloc_page (env_pgdir (envs s e)) (start_addr + of_nat k * PGSIZE) s)
                [0..<(if start_addr < end_addr then unat ((end_addr - start_addr) div PGSIZE) else 0)] s)"

record Elf =
  e_magic :: u32
  e_entry :: u32
  e_phoff :: u32
  e_phnum :: u16

record Proghdr =
  p_type :: u32
  p_offset :: u32
  p_va :: u32
  p_pa :: u32
  p_filesz :: u32
  p_memsz :: u32

definition elf_header :: "u8 list \<Rightarrow> Elf" where
  "elf_header binary = \<lparr>e_magic = le32 binary 0, e_entry = le32 binary 24, e_phoff = le32 binary 28,
     e_phnum = le16 binary 44\<rparr>"

definition prog_header :: "u8 list \<Rightarrow> nat \<Rightarrow> Proghdr" where
  "prog_header binary off = \<lparr>p_type = le32 binary off, p_offset = le32 binary (off + 4),
     p_va = le32 binary (off + 8), p_pa = le32 binary (off + 12),
     p_filesz = le32 binary (off + 16), p_memsz = le32 binary (off + 20)\<rparr>"

definition ELF_PROG_LOAD :: u32 where "ELF_PROG_LOAD = 1"

definition load_segment :: "nat \<Rightarrow> u8 list \<Rightarrow> Proghdr \<Rightarrow> kstate \<Rightarrow> kstate kres" where
  "load_segment e binary ph s =
     (if p_type ph = ELF_PROG_LOAD
      then bind_res (region_alloc e (p_va ph) (p_memsz ph) s)
             (va_store_bytes (p_va ph) (take (unat (p_filesz ph)) (drop (unat (p_offset ph)) binary)))
      else Ok s)"

definition load_icode :: "nat \<Rightarrow> u8 list \<Rightarrow> kstate \<Rightarrow> kstate kres" where
  "load_icode e binary s =
     (let elf = elf_header binary in
      case env_pgdir (envs s e) of
        None \<Rightarrow> Panic Paddr_bad_kva
      | Some d \<Rightarrow>
          bind_res
            (fold_res (\<lambda>i. load_segment e binary (prog_header binary (unat (e_phoff elf) + 32 * i)))
               [0..<unat (e_phnum elf)] (s\<lparr>cr3 := d\<rparr>)) (\<lambda>s.
            let s = s\<lparr>cr3 := kern_pgdir s\<rparr>;
                s = upd_env e (\<lambda>v. v\<lparr>env_tf := (env_tf v)\<lparr>tf_eip := e_entry elf\<rparr>\<rparr>) s
            in bind_res (region_alloc e (USTACKTOP - PGSIZE) PGSIZE s) (\<lambda>s.
                 Ok (upd_env e (\<lambda>v. v\<lparr>env_break := ROUNDDOWN (USTACKTOP - PGSIZE) PGSIZE\<rparr>) s))))"

definition env_create :: "u8 list \<Rightarrow> EnvType \<Rightarrow> kstate \<Rightarrow> kstate kres" where
  "env_create binary type s =
     bind_res (env_alloc 0 s) (\<lambda>((ret, e), s).
       case e of
         None \<Rightarrow> Panic Env_create_failed
       | Some e \<Rightarrow>
           if ret < 0 then Panic Env_create_failed
           else bind_res (load_icode e binary s) (\<lambda>s.
             let s = upd_env e (\<lambda>v. v\<lparr>env_type := type\<rparr>) s
             in Ok (if type = ENV_TYPE_FS
                    then upd_env e (\<lambda>v. v\<lparr>env_tf := (env_tf v)\<lparr>tf_eflags :=
                           tf_eflags (env_tf v) OR FL_IOPL_MASK\<rparr>\<rparr>) s
                    else s)))"

section \<open>Destruction\<close>

definition env_free_pte :: "nat \<Rightarrow> nat \<Rightarrow> nat \<Rightarrow> nat \<Rightarrow> kstate \<Rightarrow> kstate kres" where
  "env_free_pte d pt pdeno pteno s =
     (if load_pte s (pt, pteno) AND PTE_P \<noteq> 0 then page_remove (Some d) (PGADDR pdeno pteno 0) s
      else Ok s)"

definition env_free_pde :: "nat \<Rightarrow> nat \<Rightarrow> kstate \<Rightarrow> kstate kres" where
  "env_free_pde d pdeno s =
     (if load_pte s (d, pdeno) AND PTE_P = 0 then Ok s
      else
        let pa = PTE_ADDR (load_pte s (d, pdeno))
        in bind_res (KADDR pa s) (\<lambda>pt.
             bind_res (fold_res (env_free_pte d pt pdeno) [0..<PTX (NOT 0) + 1] s) (\<lambda>s.
               let s = store_pte (d, pdeno) 0 s
               in bind_res (pa2page pa s) (\<lambda>pp. page_decref pp s))))"

definition env_free :: "nat \<Rightarrow> kstate \<Rightarrow> kstate kres" where
  "env_free e s =
     (let s = (if curenv s = Some e then s\<lparr>cr3 := kern_pgdir s\<rparr> else s) in
      case env_pgdir (envs s e) of
        None \<Rightarrow> Panic Null_pgdir
      | Some d \<Rightarrow>
          bind_res (fold_res (env_free_pde d) [0..<PDX UTOP] s) (\<lambda>s.
            let s = upd_env e (\<lambda>v. v\<lparr>env_pgdir := None\<rparr>) s
            in bind_res (pa2page (page2pa d) s) (\<lambda>pp.
                 bind_res (page_decref pp s) (\<lambda>s.
                   let s = upd_env e (\<lambda>v. v\<lparr>env_status := ENV_FREE, env_link := env_free_list s\<rparr>) s
                   in Ok (s\<lparr>env_free_list := Some e\<rparr>)))))"

section \<open>Running and scheduling\<close>

definition env_pop_tf :: "nat \<Rightarrow> kstate \<Rightarrow> 'a kout" where
  "env_pop_tf e s = KRun e (upd_env e (\<lambda>v. v\<lparr>env_cpunum := cpunum s\<rparr>) s)"

definition env_run :: "nat \<Rightarrow> kstate \<Rightarrow> 'a kout" where
  "env_run e s =
     (if curenv s \<noteq> Some e
      then
        let s = (case curenv s of
                   None \<Rightarrow> s
                 | Some c \<Rightarrow> if env_status (envs s c) = ENV_RUNNING
                             then upd_env c (\<lambda>v. v\<lparr>env_status := ENV_RUNNABLE\<rparr>) s else s);
            s = set_curenv (Some e) s;
            s = upd_env e (\<lambda>v. v\<lparr>env_status := ENV_RUNNING, env_runs := env_runs v + 1\<rparr>) s
        in (case env_pgdir (envs s e) of
              None \<Rightarrow> KPanic Paddr_bad_kva
            | Some d \<Rightarrow> env_pop_tf e (s\<lparr>cr3 := d\<rparr>))
      else env_pop_tf e s)"

text \<open>
  \<open>kern/sched.c\<close>. The search loop looks at \<open>NENV\<close> entries from \<open>i\<close> on; the index starts as
  \<open>ENVX(curenv->env_id) + 1\<close> and is reduced modulo \<open>NENV\<close> only after the first round, so it may
  name the memory behind the table, which \<open>envs s NENV\<close> stands for.
\<close>

fun sched_search :: "nat \<Rightarrow> nat \<Rightarrow> kstate \<Rightarrow> nat option" where
  "sched_search 0 i s = None"
| "sched_search (Suc n) i s =
     (if env_status (envs s i) = ENV_RUNNABLE then Some i else sched_search n ((i + 1) mod NENV) s)"

definition sched_halt :: "kstate \<Rightarrow> 'a kout" where
  "sched_halt s =
     (if \<forall>i\<in>{..<NENV}. env_status (envs s i) \<notin> {ENV_RUNNABLE, ENV_RUNNING, ENV_DYING}
      then KMonitor s
      else
        let s = (set_curenv None s)\<lparr>cr3 := kern_pgdir s\<rparr>
        in KHalt (s\<lparr>cpus := (cpus s)(cpunum s := (cpus s (cpunum s))\<lparr>cpu_status := CPU_HALTED\<rparr>)\<rparr>))"

definition sched_yield :: "kstate \<Rightarrow> 'a kout" where
  "sched_yield s =
     (let i = (case curenv s of None \<Rightarrow> 0 | Some c \<Rightarrow> ENVX (env_id (envs s c)) + 1)
      in case sched_search NENV i s of
           Some e \<Rightarrow> env_run e s
         | None \<Rightarrow>
             (case curenv s of
                None \<Rightarrow> sched_halt s
              | Some c \<Rightarrow> if env_status (envs s c) = ENV_RUNNING then env_run c s else sched_halt s))"

definition env_destroy :: "nat \<Rightarrow> kstate \<Rightarrow> unit kout" where
  "env_destroy e s =
     (if env_status (envs s e) = ENV_RUNNING \<and> curenv s \<noteq> Some e
      then KRet () (upd_env e (\<lambda>v. v\<lparr>env_status := ENV_DYING\<rparr>) s)
      else bind_out (out_of_state (env_free e s)) (\<lambda>_ s.
             if curenv s = Some e then sched_yield (set_curenv None s) else KRet () s))"

definition user_mem_assert :: "nat \<Rightarrow> u32 \<Rightarrow> u32 \<Rightarrow> u32 \<Rightarrow> kstate \<Rightarrow> unit kout" where
  "user_mem_assert env va len perm s =
     bind_out (out_of (user_mem_check env va len (perm OR PTE_U) s)) (\<lambda>r s.
       if r < 0 then env_destroy env s else KRet () s)"

end
