(* ===== verification/Env_Inv.thy ===== *)
theory Env_Inv
  imports Env
begin

text \<open>
  The invariant of the kernel and its preservation by the operations on environments. \<open>wf_envs\<close>
  says that the free list holds exactly the free entries of \<open>envs[]\<close>, that every active environment
  carries its own index in its id and has a page directory that no other one has; \<open>wf_kernel\<close> adds
  the invariant of the page tables for all these directories and the kernel's own.
\<close>

section \<open>Definitions\<close>

definition active :: "kstate \<Rightarrow> nat \<Rightarrow> bool" where
  "active s e \<longleftrightarrow> e < NENV \<and> env_status (envs s e) \<noteq> ENV_FREE"

definition env_dirs :: "kstate \<Rightarrow> nat set" where
  "env_dirs s = {d. \<exists>e. active s e \<and> env_pgdir (envs s e) = Some d}"

definition all_dirs :: "kstate \<Rightarrow> nat set" where
  "all_dirs s = insert (kern_pgdir s) (env_dirs s)"

definition free_envs :: "kstate \<Rightarrow> nat list \<Rightarrow> bool" where
  "free_envs s fl \<longleftrightarrow> chain (\<lambda>e. env_link (envs s e)) (env_free_list s) fl
     \<and> set fl = {e. e < NENV \<and> env_status (envs s e) = ENV_FREE}"

definition wf_envs :: "kstate \<Rightarrow> bool" where
  "wf_envs s \<longleftrightarrow> (\<exists>fl. free_envs s fl)
     \<and> (\<forall>e. active s e \<longrightarrow> ENVX (env_id (envs s e)) = e \<and> sint (env_id (envs s e)) > 0
          \<and> env_pgdir (envs s e) \<noteq> None)
     \<and> (\<forall>e e'. active s e \<longrightarrow> active s e' \<longrightarrow> env_pgdir (envs s e) = env_pgdir (envs s e') \<longrightarrow> e = e')"

definition wf_kernel :: "kstate \<Rightarrow> bool" where
  "wf_kernel s \<longleftrightarrow> wf_envs s \<and> wf_vm user_part (all_dirs s) s \<and> kern_pgdir s \<notin> env_dirs s
     \<and> (\<forall>i\<in>user_part. tab s (kern_pgdir s) i = None)"

text \<open>The environment that the CPU runs, if any, is an active one.\<close>

definition curenv_active :: "kstate \<Rightarrow> bool" where
  "curenv_active s \<longleftrightarrow> (\<forall>c. curenv s = Some c \<longrightarrow> active s c)"

section \<open>Address spaces come and go\<close>

lemma vm_pre [simp]:
  "wf_vm U D (s\<lparr>cr3 := c\<rparr>) = wf_vm U D s" "wf_vm U D (upd_env e f s) = wf_vm U D s"
  "wf_vm U D (set_curenv x s) = wf_vm U D s" "wf_vm U D (s\<lparr>env_free_list := l\<rparr>) = wf_vm U D s"
  by (rule vm_cong; simp add: upd_env_def set_curenv_def)+

lemma slot_pre [simp]:
  "slot (s\<lparr>cr3 := c\<rparr>) = slot s" "slot (upd_env e f s) = slot s"
  "slot (set_curenv x s) = slot s" "slot (s\<lparr>env_free_list := l\<rparr>) = slot s"
  by (rule vm_cong; simp add: upd_env_def set_curenv_def)+

lemma tab_pre [simp]:
  "tab (s\<lparr>cr3 := c\<rparr>) = tab s" "tab (upd_env e f s) = tab s"
  "tab (set_curenv x s) = tab s" "tab (s\<lparr>env_free_list := l\<rparr>) = tab s"
  by (rule vm_cong; simp add: upd_env_def set_curenv_def)+

lemma upd_env_simps [simp]:
  "envs (upd_env e f s) = (envs s)(e := f (envs s e))" "kern_pgdir (upd_env e f s) = kern_pgdir s"
  "env_free_list (upd_env e f s) = env_free_list s" "npages (upd_env e f s) = npages s"
  "cpunum (upd_env e f s) = cpunum s" "curenv (upd_env e f s) = curenv s"
  "cpus (upd_env e f s) = cpus s" "frames (upd_env e f s) = frames s" "pages (upd_env e f s) = pages s"
  "page_free_list (upd_env e f s) = page_free_list s" "cr3 (upd_env e f s) = cr3 s"
  by (simp_all add: upd_env_def curenv_def)

lemma small_bit:
  assumes "(i :: nat) < 1024" "bit i n"
  shows "n < 10"
proof (rule ccontr)
  assume "\<not> n < 10"
  then have "(2 :: nat) ^ 10 \<le> 2 ^ n" by (intro power_increasing) simp_all
  with assms(1) have "i < 2 ^ n" by simp
  then have "i div 2 ^ n = 0" by simp
  with assms(2) show False by (simp add: bit_iff_odd)
qed

lemma PDX_PTX_PGADDR:
  assumes "i < 1024" "j < 1024"
  shows "PDX (PGADDR i j 0) = i" "PTX (PGADDR i j 0) = j"
proof -
  have "drop_bit 22 (PGADDR i j 0) AND mask 10 = of_nat i"
    unfolding PGADDR_def
    by (rule bit_eqI) (auto simp: bit_simps dest: small_bit [OF assms(1)] small_bit [OF assms(2)])
  then show "PDX (PGADDR i j 0) = i" using assms(1) by (simp add: PDX_def mask10 unat_of_nat)
  have "drop_bit 12 (PGADDR i j 0) AND mask 10 = of_nat j"
    unfolding PGADDR_def
    by (rule bit_eqI) (auto simp: bit_simps dest: small_bit [OF assms(1)] small_bit [OF assms(2)])
  then show "PTX (PGADDR i j 0) = j" using assms(2) by (simp add: PTX_def mask10 unat_of_nat)
qed

lemma wf_vm_add_dir:
  assumes "wf_vm U D s" "p < npages s" "p \<notin> set (free_pages s)" "p \<notin> tables U D s"
    and "\<And>i. i \<in> U \<Longrightarrow> tab s p i = None" "mappings U D s p = {}"
  shows "wf_vm U (insert p D) s"
proof -
  have tabs: "tables U (insert p D) s = tables U D s" using assms(5) by (auto simp: tables_def)
  have slot: "slot s p i j = None" if "i \<in> U" for i j using assms(5) [OF that] by (simp add: slot_def)
  have maps: "mappings U (insert p D) s q = mappings U D s q" for q
    by (auto simp: mappings_def slot)
  have "PGNUM e \<noteq> p" if "d \<in> D" "i \<in> U" "j < 1024" "slot s d i j = Some e" for d i j e
    using that assms(6) by (auto simp: mappings_def)
  then show ?thesis
    using assms(1-4) unfolding wf_vm_def wf_tables_def tabs maps by (auto simp: slot assms(5))
qed

lemma wf_vm_subset:
  assumes "wf_vm U D s" "D' \<subseteq> D"
  shows "wf_vm U D' s"
proof -
  have tabs: "tables U D' s \<subseteq> tables U D s" using assms(2) by (auto simp: tables_def)
  have fin: "finite D'" using assms by (auto simp: wf_vm_def intro: finite_subset)
  have "card (mappings U D' s q) \<le> card (mappings U D s q)" for q
    using mappings_finite [OF assms(1)] assms(2) by (intro card_mono) (auto simp: mappings_def)
  then have "card (mappings U D' s q) \<le> unat (pp_ref (pages s q))" for q
    using assms(1) unfolding wf_vm_def by (meson order_trans)
  moreover have "wf_tables U D' s"
    using assms tabs unfolding wf_vm_def wf_tables_def by blast
  moreover have "\<forall>d\<in>D'. \<forall>i\<in>U. \<forall>j<1024. \<forall>e. slot s d i j = Some e \<longrightarrow>
      PGNUM e < npages s \<and> PGNUM e \<notin> D' \<union> tables U D' s"
    using wf_vmD [OF assms(1)] assms(2) tabs by blast
  ultimately show ?thesis using fin assms(1) unfolding wf_vm_def by blast
qed

text \<open>Dropping a reference to a page that nobody maps any more.\<close>

lemma decref_vm:
  assumes "wf_vm U D s" "p < npages s" "p \<notin> set (free_pages s)" "p \<notin> D \<union> tables U D s"
    and "mappings U D s p = {}"
  shows "wf_vm U D (decref_state p s)" "tables U D (decref_state p s) = tables U D s"
    and "\<And>d i. d \<in> D \<Longrightarrow> i \<in> U \<Longrightarrow> tab (decref_state p s) d i = tab s d i"
    and "\<And>d i j. d \<in> D \<Longrightarrow> i \<in> U \<Longrightarrow> slot (decref_state p s) d i j = slot s d i j"
proof -
  have wf: "wf_pages s" using assms(1) by (simp add: wf_vm_def wf_tables_def)
  note dec = decref_state_wf [OF wf assms(2,3)]
  have "card (mappings U D s q) \<le> unat (pp_ref (pages (decref_state p s) q))" for q
    using assms(1,5) by (cases "q = p") (auto simp: wf_vm_def)
  moreover have "set (free_pages (decref_state p s)) \<inter> (D \<union> tables U D s) = {}"
    using assms(1,4) unfolding dec(2) wf_vm_def wf_tables_def by auto
  ultimately show "wf_vm U D (decref_state p s)" "tables U D (decref_state p s) = tables U D s"
    and "\<And>d i. d \<in> D \<Longrightarrow> i \<in> U \<Longrightarrow> tab (decref_state p s) d i = tab s d i"
    and "\<And>d i j. d \<in> D \<Longrightarrow> i \<in> U \<Longrightarrow> slot (decref_state p s) d i j = slot s d i j"
    by (intro wf_vm_frame [OF assms(1) dec(1)]; simp)+
qed

lemma decref_frame [simp]: "vm_frame s (decref_state p t) = vm_frame s t"
  by (simp add: decref_state_def)

text \<open>Taking an empty table out of its directory.\<close>

lemma clear_pde_vm:
  assumes "wf_vm U D s" "d \<in> D" "i \<in> U" "tab s d i = Some t" "\<And>j. j < 1024 \<Longrightarrow> slot s d i j = None"
  defines "s' \<equiv> store_pte (d, i) 0 s"
  shows "wf_vm U D s'" "t \<notin> D \<union> tables U D s'" "mappings U D s' t = {}" "tab s' d i = None"
    and "\<And>d' i'. d' \<in> D \<Longrightarrow> i' \<in> U \<Longrightarrow> d' \<noteq> d \<or> i' \<noteq> i \<Longrightarrow> tab s' d' i' = tab s d' i'"
    and "\<And>d' i' j. d' \<in> D \<Longrightarrow> i' \<in> U \<Longrightarrow> d' \<noteq> d \<or> i' \<noteq> i \<Longrightarrow> slot s' d' i' j = slot s d' i' j"
proof -
  have wft: "wf_tables U D s" using assms(1) by (simp add: wf_vm_def)
  note t = wf_tablesD [OF wft assms(2-4)]
  show none: "tab s' d i = None" by (simp add: tab_def s'_def)
  show tab: "tab s' d' i' = tab s d' i'" if "d' \<in> D" "i' \<in> U" "d' \<noteq> d \<or> i' \<noteq> i" for d' i'
    using that by (auto simp: tab_def s'_def)
  show slot: "slot s' d' i' j = slot s d' i' j" if "d' \<in> D" "i' \<in> U" "d' \<noteq> d \<or> i' \<noteq> i" for d' i' j
  proof (rule slot_cong [OF tab [OF that]])
    fix t'
    assume "tab s d' i' = Some t'"
    then have "t' \<noteq> d" using wf_tablesD(3) [OF wft that(1,2)] assms(2) by blast
    then show "frames s' t' j = frames s t' j" by (simp add: s'_def)
  qed
  have slot0: "slot s' d i j = None" for j by (simp add: slot_def none)
  have tabs: "tables U D s' = tables U D s - {t}"
  proof (intro set_eqI iffI)
    fix x
    assume "x \<in> tables U D s'"
    then obtain d' i' where x: "d' \<in> D" "i' \<in> U" "tab s' d' i' = Some x" by (auto simp: tables_def)
    then have ne: "d' \<noteq> d \<or> i' \<noteq> i" using none by auto
    with x tab have "tab s d' i' = Some x" by simp
    with x ne t(5) show "x \<in> tables U D s - {t}" by (auto simp: tables_def)
  next
    fix x
    assume "x \<in> tables U D s - {t}"
    then obtain d' i' where x: "d' \<in> D" "i' \<in> U" "tab s d' i' = Some x" "x \<noteq> t" by (auto simp: tables_def)
    then have "d' \<noteq> d \<or> i' \<noteq> i" using assms(4) by auto
    with x(1-3) tab [OF x(1,2)] show "x \<in> tables U D s'" unfolding tables_def by fastforce
  qed
  show "t \<notin> D \<union> tables U D s'" using t(3) tabs by simp
  have same: "slot s' d' i' j = slot s d' i' j" if "d' \<in> D" "i' \<in> U" "j < 1024" for d' i' j
    using slot slot0 assms(5) that by (cases "d' = d \<and> i' = i") auto
  have maps: "mappings U D s' q = mappings U D s q" for q
    unfolding mappings_def by (auto simp: same)
  have "mappings U D s t = {}"
    using wf_vmD(3) [OF assms(1)] t(4) by (auto simp: mappings_def)
  then show "mappings U D s' t = {}" by (simp add: maps)
  have wft': "wf_tables U D s'"
    unfolding wf_tables_def tabs
  proof (intro conjI)
    show "wf_pages s'" "D \<inter> (tables U D s - {t}) = {}"
      "\<forall>p\<in>D \<union> (tables U D s - {t}). p < npages s' \<and> p \<notin> set (free_pages s')"
      using wft by (auto simp: wf_tables_def s'_def store_pte_wf)
    show "\<forall>d\<in>D. \<forall>i\<in>U. \<forall>d'\<in>D. \<forall>i'\<in>U. \<forall>t. tab s' d i = Some t \<longrightarrow> tab s' d' i' = Some t \<longrightarrow> d = d' \<and> i = i'"
      using wft none tab unfolding wf_tables_def by (metis option.distinct(1))
  qed
  have "\<forall>d'\<in>D. \<forall>i'\<in>U. \<forall>j<1024. \<forall>e. slot s' d' i' j = Some e \<longrightarrow>
      PGNUM e < npages s' \<and> PGNUM e \<notin> D \<union> tables U D s'"
    using wf_vmD [OF assms(1)] same tabs by (simp add: s'_def)
  moreover have "card (mappings U D s' q) \<le> unat (pp_ref (pages s' q))" for q
    using assms(1) unfolding maps by (simp add: wf_vm_def s'_def)
  ultimately show "wf_vm U D s'" using wft' assms(1) unfolding wf_vm_def by blast
qed

section \<open>Freeing an address space\<close>

lemma env_free_pte_spec:
  assumes "wf_vm U D s" "d \<in> D" "i \<in> U" "i < 1024" "j < 1024" "tab s d i = Some t"
  obtains s' where "env_free_pte d t i j s = Ok s'" "vm_update U D d i j None s s'" "vm_frame s s'"
proof -
  have va: "PDX (PGADDR i j 0) = i" "PTX (PGADDR i j 0) = j"
    using PDX_PTX_PGADDR [OF assms(4,5)] by simp_all
  obtain s' where s': "page_remove (Some d) (PGADDR i j 0) s = Ok s'" "vm_update U D d i j None s s'"
    using page_remove_spec [OF assms(1,2), of "PGADDR i j 0"] assms(3) unfolding va by metis
  show ?thesis
  proof (cases "load_pte s (t, j) AND PTE_P \<noteq> 0")
    case True
    with s' that page_remove_frame show ?thesis by (simp add: env_free_pte_def)
  next
    case False
    then have "slot s d i j = None" using assms(6) by (simp add: slot_def load_pte_def)
    with assms(1) have "vm_update U D d i j None s s" by (simp add: vm_update_def)
    with False that show ?thesis by (simp add: env_free_pte_def)
  qed
qed

lemma env_free_ptes:
  assumes "wf_vm U D s" "d \<in> D" "i \<in> U" "i < 1024" "tab s d i = Some t" "n \<le> 1024"
  shows "\<exists>s'. fold_res (env_free_pte d t i) [0..<n] s = Ok s' \<and> wf_vm U D s' \<and> vm_frame s s'
    \<and> (\<forall>d'\<in>D. \<forall>i'\<in>U. tab s' d' i' = tab s d' i')
    \<and> (\<forall>d'\<in>D. \<forall>i'\<in>U. \<forall>j. slot s' d' i' j = (if d' = d \<and> i' = i \<and> j < n then None else slot s d' i' j))"
  using \<open>n \<le> 1024\<close>
proof (induction n)
  case 0
  then show ?case using assms(1) by simp
next
  case (Suc n)
  then obtain s1 where s1: "fold_res (env_free_pte d t i) [0..<n] s = Ok s1" "wf_vm U D s1" "vm_frame s s1"
    "\<forall>d'\<in>D. \<forall>i'\<in>U. tab s1 d' i' = tab s d' i'"
    "\<forall>d'\<in>D. \<forall>i'\<in>U. \<forall>j. slot s1 d' i' j = (if d' = d \<and> i' = i \<and> j < n then None else slot s d' i' j)"
    by auto
  have "tab s1 d i = Some t" using s1(4) assms(2,3,5) by simp
  then obtain s2 where s2: "env_free_pte d t i n s1 = Ok s2" "vm_update U D d i n None s1 s2" "vm_frame s1 s2"
    using env_free_pte_spec [OF s1(2) assms(2-4), of n t] Suc.prems by (metis Suc_le_eq)
  have "fold_res (env_free_pte d t i) [0..<Suc n] s = Ok s2"
    using s1(1) s2(1) by (simp add: fold_res_append)
  moreover have "vm_frame s s2" using s1(3) s2(3) by (rule vm_frame_trans)
  moreover have "wf_vm U D s2" "\<forall>d'\<in>D. \<forall>i'\<in>U. tab s2 d' i' = tab s d' i'"
    using s1(4) s2(2) by (simp_all add: vm_update_def)
  moreover have "slot s2 d' i' j = (if d' = d \<and> i' = i \<and> j < Suc n then None else slot s d' i' j)"
    if "d' \<in> D" "i' \<in> U" for d' i' j
  proof -
    have "slot s2 d' i' j = (if d' = d \<and> i' = i \<and> j = n then None else slot s1 d' i' j)"
      using s2(2) that by (simp add: vm_update_def)
    with s1(5) that show ?thesis by (auto simp: less_Suc_eq)
  qed
  ultimately show ?case by blast
qed

lemma PTX_top: "PTX (NOT 0) + 1 = 1024"
  by code_simp

lemma env_free_pde_spec:
  assumes "wf_vm U D s" "d \<in> D" "i \<in> U" "i < 1024"
  shows "\<exists>s'. env_free_pde d i s = Ok s' \<and> wf_vm U D s' \<and> vm_frame s s' \<and> tab s' d i = None
    \<and> (\<forall>d'\<in>D. \<forall>i'\<in>U. d' \<noteq> d \<or> i' \<noteq> i \<longrightarrow>
         tab s' d' i' = tab s d' i' \<and> (\<forall>j. slot s' d' i' j = slot s d' i' j))"
proof (cases "tab s d i")
  case None
  then have "load_pte s (d, i) AND PTE_P = 0" by (auto simp: tab_def load_pte_def split: if_splits)
  with None assms(1) show ?thesis by (simp add: env_free_pde_def)
next
  case (Some t)
  have wft: "wf_tables U D s" using assms(1) by (simp add: wf_vm_def)
  note t = wf_tablesD [OF wft assms(2,3) Some]
  have pde: "load_pte s (d, i) AND PTE_P \<noteq> 0" "PGNUM (load_pte s (d, i)) = t"
    using Some by (auto simp: tab_def load_pte_def split: if_splits)
  obtain s1 where s1: "fold_res (env_free_pte d t i) [0..<1024] s = Ok s1" "wf_vm U D s1" "vm_frame s s1"
    "\<forall>d'\<in>D. \<forall>i'\<in>U. tab s1 d' i' = tab s d' i'"
    "\<forall>d'\<in>D. \<forall>i'\<in>U. \<forall>j. slot s1 d' i' j = (if d' = d \<and> i' = i \<and> j < 1024 then None else slot s d' i' j)"
    using env_free_ptes [OF assms Some, of 1024] by auto
  have t1: "tab s1 d i = Some t" "t < npages s1"
    using s1(3,4) assms(2,3) Some t(1) vm_frame_fields(1) [of s s1] by simp_all
  have "slot s1 d i j = None" if "j < 1024" for j using s1(5) assms(2,3) that by simp
  then have empty: "\<And>j. j < 1024 \<Longrightarrow> slot s1 d i j = None" .
  have cl: "wf_vm U D (store_pte (d, i) 0 s1)" "t \<notin> D \<union> tables U D (store_pte (d, i) 0 s1)"
    "mappings U D (store_pte (d, i) 0 s1) t = {}" "tab (store_pte (d, i) 0 s1) d i = None"
    by (rule clear_pde_vm [OF s1(2) assms(2,3) t1(1) empty]; assumption)+
  have cl': "tab (store_pte (d, i) 0 s1) d' i' = tab s1 d' i'"
    "slot (store_pte (d, i) 0 s1) d' i' j = slot s1 d' i' j"
    if "d' \<in> D" "i' \<in> U" "d' \<noteq> d \<or> i' \<noteq> i" for d' i' j
    by (rule clear_pde_vm(5,6) [OF s1(2) assms(2,3) t1(1) empty that]; assumption)+
  let ?s2 = "store_pte (d, i) 0 s1"
  have "t \<notin> set (free_pages ?s2)"
    using s1(2) t1(1) wf_tablesD(2) [of U D s1 d i t] assms(2,3) by (simp add: wf_vm_def store_pte_wf)
  note dec = decref_vm [OF cl(1) _ this cl(2,3), simplified, OF t1(2)]
  have "env_free_pde d i s = Ok (decref_state t ?s2)"
    using pde t(1) t1(2) s1(1) PTX_top
    by (simp add: env_free_pde_def KADDR_def pa2page_def page_decref_eq)
  moreover have "vm_frame s (decref_state t ?s2)" using s1(3) by simp
  moreover have "wf_vm U D (decref_state t ?s2)" "tab (decref_state t ?s2) d i = None"
    using dec(1,3) cl(4) assms(2,3) by simp_all
  moreover have "tab (decref_state t ?s2) d' i' = tab s d' i'"
    "slot (decref_state t ?s2) d' i' j = slot s d' i' j"
    if "d' \<in> D" "i' \<in> U" "d' \<noteq> d \<or> i' \<noteq> i" for d' i' j
    using dec(3,4) [OF that(1,2)] cl' [OF that] s1(4,5) that by auto
  ultimately show ?thesis by (intro exI [of _ "decref_state t ?s2"]) simp
qed

lemma env_free_pdes:
  assumes "wf_vm U D s" "d \<in> D" "{..<n} \<subseteq> U" "n \<le> 1024"
  shows "\<exists>s'. fold_res (env_free_pde d) [0..<n] s = Ok s' \<and> wf_vm U D s' \<and> vm_frame s s'
    \<and> (\<forall>i<n. tab s' d i = None)
    \<and> (\<forall>d'\<in>D. \<forall>i'\<in>U. d' \<noteq> d \<or> \<not> i' < n \<longrightarrow>
         tab s' d' i' = tab s d' i' \<and> (\<forall>j. slot s' d' i' j = slot s d' i' j))"
  using assms(3,4)
proof (induction n)
  case 0
  then show ?case using assms(1) by simp
next
  case (Suc n)
  then have pre: "{..<n} \<subseteq> U" "n \<le> 1024" by auto
  from Suc.IH [OF this] obtain s1 where s1: "fold_res (env_free_pde d) [0..<n] s = Ok s1" "wf_vm U D s1" "vm_frame s s1"
    "\<forall>i<n. tab s1 d i = None"
    "\<forall>d'\<in>D. \<forall>i'\<in>U. d' \<noteq> d \<or> \<not> i' < n \<longrightarrow> tab s1 d' i' = tab s d' i' \<and> (\<forall>j. slot s1 d' i' j = slot s d' i' j)"
    by blast
  have n: "n \<in> U" "n < 1024" using Suc.prems by auto
  obtain s2 where s2: "env_free_pde d n s1 = Ok s2" "wf_vm U D s2" "vm_frame s1 s2" "tab s2 d n = None"
    "\<forall>d'\<in>D. \<forall>i'\<in>U. d' \<noteq> d \<or> i' \<noteq> n \<longrightarrow> tab s2 d' i' = tab s1 d' i' \<and> (\<forall>j. slot s2 d' i' j = slot s1 d' i' j)"
    using env_free_pde_spec [OF s1(2) assms(2) n] by blast
  have "fold_res (env_free_pde d) [0..<Suc n] s = Ok s2"
    using s1(1) s2(1) by (simp add: fold_res_append)
  moreover have "vm_frame s s2" using s1(3) s2(3) by (rule vm_frame_trans)
  moreover have "\<forall>i<Suc n. tab s2 d i = None"
  proof (intro allI impI)
    fix i
    assume "i < Suc n"
    then show "tab s2 d i = None"
      using s1(4) s2(4,5) assms(2) Suc.prems(1) by (cases "i = n") auto
  qed
  moreover have "\<forall>d'\<in>D. \<forall>i'\<in>U. d' \<noteq> d \<or> \<not> i' < Suc n \<longrightarrow>
      tab s2 d' i' = tab s d' i' \<and> (\<forall>j. slot s2 d' i' j = slot s d' i' j)"
    using s1(5) s2(5) by (auto simp: less_Suc_eq)
  ultimately show ?case using s2(2) by blast
qed

section \<open>Environment ids\<close>

lemma sint_pos: "sint (w :: u32) > 0 \<longleftrightarrow> w \<noteq> 0 \<and> \<not> bit w 31"
proof -
  have "bit w 31 \<longleftrightarrow> sint w < 0" using bit_last_iff [of w] by simp
  moreover have "sint w = 0 \<longleftrightarrow> w = 0" by (rule signed_eq_0_iff)
  ultimately show ?thesis by linarith
qed
lemma next_env_id_facts:
  assumes "e < NENV"
  shows "ENVX (next_env_id old e) = e" "sint (next_env_id old e) > 0"
proof -
  have e: "e < 1024" using assms by (simp add: NENV_def)
  define g0 where "g0 = (old + push_bit ENVGENSHIFT 1) AND NOT (1024 - 1)"
  define g where "g = (if sint g0 \<le> 0 then push_bit ENVGENSHIFT 1 else g0)"
  have id: "next_env_id old e = g OR of_nat e" by (simp add: next_env_id_def Let_def g_def g0_def)
  have m: "(1024 - 1 :: u32) = mask 10" by (simp add: mask_eq_exp_minus_1)
  have low: "\<not> bit g n" if "n < 10" for n
    using that unfolding g_def g0_def m by (simp only: ENVGENSHIFT_def bit_simps split: if_split) auto
  have "sint (push_bit ENVGENSHIFT 1 :: u32) > 0" by (simp add: ENVGENSHIFT_def)
  then have pos: "sint g > 0" by (simp add: g_def)
  have "(g OR of_nat e) AND mask 10 = of_nat e"
    by (rule bit_eqI) (auto simp: bit_simps low dest: small_bit [OF e])
  then show "ENVX (next_env_id old e) = e" using e by (simp add: ENVX_def id mask10 unat_of_nat)
  from pos have "g \<noteq> 0" "\<not> bit g 31" by (simp_all add: sint_pos)
  moreover have "\<not> bit (of_nat e :: u32) 31" using small_bit [OF e, of 31] by (auto simp: bit_simps)
  moreover have "g OR of_nat e \<noteq> 0" using \<open>g \<noteq> 0\<close> by (simp add: or_eq_0_iff)
  ultimately show "sint (next_env_id old e) > 0" by (simp add: sint_pos id bit_simps)
qed

lemma next_env_id_fresh:
  assumes "e < NENV"
  shows "next_env_id old e \<noteq> old"
proof
  assume eq: "next_env_id old e = old"
  have e: "e < 1024" using assms by (simp add: NENV_def)
  define g0 where "g0 = (old + push_bit ENVGENSHIFT 1) AND NOT (1024 - 1)"
  define g where "g = (if sint g0 \<le> 0 then push_bit ENVGENSHIFT 1 else g0)"
  have id: "next_env_id old e = g OR of_nat e" by (simp add: next_env_id_def Let_def g_def g0_def)
  have m: "(1024 - 1 :: u32) = mask 10" by (simp add: mask_eq_exp_minus_1)
  have d: "unat (drop_bit 10 x) = unat x div 1024" for x :: u32
    by (simp only: unat_drop_bit_eq) (simp add: drop_bit_eq_div)
  have "drop_bit 10 (g OR of_nat e) = drop_bit 10 g"
    by (rule bit_eqI) (auto simp: bit_simps dest: small_bit [OF e])
  then have old: "unat old div 1024 = unat g div 1024" using eq id d by metis
  have "drop_bit 10 g0 = drop_bit 10 (old + 4096)"
    unfolding g0_def m by (rule bit_eqI) (auto simp: bit_simps ENVGENSHIFT_def dest: u32_bit_less)
  then have g0: "unat g0 div 1024 = unat (old + 4096) div 1024" using d by metis
  have sum: "unat (old + 4096) = (unat old + 4096) mod 4294967296" by (simp add: unat_word_ariths)
  show False
  proof (cases "sint g0 \<le> 0")
    case True
    then have "unat g div 1024 = 4" by (simp add: g_def ENVGENSHIFT_def)
    then have o: "unat old div 1024 = 4" using old by simp
    then have "unat old < 5 * 1024" by (simp add: div_less_iff_less_mult [symmetric])
    then have "unat (old + 4096) = unat old + 4096" using sum by simp
    then have g8: "unat g0 div 1024 = 8" using g0 o by simp
    then have "unat g0 < 9 * 1024" by (simp add: div_less_iff_less_mult [symmetric])
    have "\<not> bit g0 31"
    proof
      assume "bit g0 31"
      then have "bit (unat g0) 31" by (simp add: bit_unsigned_iff)
      with \<open>unat g0 < 9 * 1024\<close> show False by (simp add: bit_iff_odd)
    qed
    moreover have "g0 \<noteq> 0" using g8 by auto
    ultimately show False using True sint_pos [of g0] by simp
  next
    case False
    then have mods: "unat old div 1024 = (unat old + 4096) mod 4294967296 div 1024"
      using old g0 sum by (simp add: g_def)
    have "unat old < 4294967296" by (rule unat_u32_less)
    with mods show False
    proof (cases "unat old + 4096 < 4294967296")
      case False
      with \<open>unat old < 4294967296\<close> have "(unat old + 4096) mod 4294967296 = unat old + 4096 - 4294967296"
        by (simp add: mod_if)
      with mods False \<open>unat old < 4294967296\<close> have "unat old div 1024 = (unat old - 4294963200) div 1024" by simp
      moreover have "(unat old - 4294963200) div 1024 < 4" "unat old div 1024 \<ge> 4194300"
        using False \<open>unat old < 4294967296\<close> by (simp_all add: div_less_iff_less_mult less_eq_div_iff_mult_less_eq)
      ultimately show False by simp
    qed simp
  qed
qed

section \<open>The free list of environments\<close>

lemma free_envs_push:
  assumes "free_envs s fl" "active s e"
    and "envs s' = (envs s)(e := v)" "env_status v = ENV_FREE" "env_link v = env_free_list s"
    and "env_free_list s' = Some e"
  shows "free_envs s' (e # fl)"
proof -
  have e: "e < NENV" "e \<notin> set fl" using assms(1,2) by (auto simp: active_def free_envs_def)
  have "chain (\<lambda>x. env_link (envs s' x)) (env_free_list s) fl"
    by (rule chain_cong [of "\<lambda>x. env_link (envs s x)"]) (use assms(1,3) e(2) in \<open>auto simp: free_envs_def\<close>)
  moreover have "set (e # fl) = {x. x < NENV \<and> env_status (envs s' x) = ENV_FREE}"
    using assms(1,3,4) e(1) unfolding free_envs_def by auto
  ultimately show ?thesis using assms(3,5,6) by (simp add: free_envs_def)
qed

lemma free_envs_pop:
  assumes "free_envs s (e # fl)"
    and "envs s' = (envs s)(e := v)" "env_status v \<noteq> ENV_FREE" "env_link v = env_link (envs s e)"
    and "env_free_list s' = env_link (envs s e)"
  shows "free_envs s' fl"
proof -
  have fl: "chain (\<lambda>x. env_link (envs s x)) (env_free_list s) (e # fl)"
    "set (e # fl) = {x. x < NENV \<and> env_status (envs s x) = ENV_FREE}"
    using assms(1) by (simp_all only: free_envs_def)
  have e: "e \<notin> set fl" using chain_distinct [OF fl(1)] by simp
  have "chain (\<lambda>x. env_link (envs s' x)) (env_free_list s') fl"
    by (rule chain_cong [of "\<lambda>x. env_link (envs s x)"]) (use fl(1) assms(2,4,5) e in simp_all)
  moreover have "set fl = {x. x < NENV \<and> env_status (envs s' x) = ENV_FREE}"
    using fl(2) assms(2,3) e by (auto split: if_splits)
  ultimately show ?thesis by (simp add: free_envs_def)
qed

lemma free_envs_head:
  assumes "free_envs s fl"
  shows "env_free_list s = None \<Longrightarrow> fl = []" "env_free_list s = Some e \<Longrightarrow> \<exists>es. fl = e # es"
  using assms unfolding free_envs_def by (auto simp: chain_Some)

lemma decref_frame_simps [simp]:
  "envs (decref_state p s) = envs s" "kern_pgdir (decref_state p s) = kern_pgdir s"
  "env_free_list (decref_state p s) = env_free_list s" "cpus (decref_state p s) = cpus s"
  "cpunum (decref_state p s) = cpunum s"
  by (simp_all add: decref_state_def set_pp_ref_def set_pp_link_def)

lemma PDX_UTOP_le: "PDX UTOP \<le> 1024"
  by code_simp

lemma wf_envs_push:
  assumes "wf_envs s" "active s e" "envs s' = (envs s)(e := v)" "env_status v = ENV_FREE"
    "env_link v = env_free_list s" "env_free_list s' = Some e"
  shows "wf_envs s'" "active s' = (active s)(e := False)"
proof -
  show act: "active s' = (active s)(e := False)" using assms(3,4) by (auto simp: active_def fun_eq_iff)
  show "wf_envs s'"
    using assms(1,3) free_envs_push [OF _ assms(2-6)] unfolding wf_envs_def act by auto
qed

lemma env_free_spec:
  assumes "wf_kernel s" "active s e"
  shows "\<exists>s'. env_free e s = Ok s' \<and> wf_kernel s' \<and> env_free_list s' = Some e
    \<and> envs s' = (envs s)(e := (envs s e)\<lparr>env_pgdir := None, env_status := ENV_FREE, env_link := env_free_list s\<rparr>)
    \<and> all_dirs s' = all_dirs s - {the (env_pgdir (envs s e))} \<and> cpus s' = cpus s \<and> cpunum s' = cpunum s
    \<and> (\<forall>d\<in>all_dirs s'. \<forall>i\<in>user_part. \<forall>j. slot s' d i j = slot s d i j)"
proof -
  let ?D = "all_dirs s" and ?U = user_part
  have wf: "wf_envs s" "wf_vm ?U ?D s" "kern_pgdir s \<notin> env_dirs s" using assms(1) by (simp_all add: wf_kernel_def)
  obtain d where d: "env_pgdir (envs s e) = Some d" using wf(1) assms(2) by (auto simp: wf_envs_def)
  then have dD: "d \<in> ?D" "d \<noteq> kern_pgdir s" using assms(2) wf(3) by (auto simp: all_dirs_def env_dirs_def)
  define s0 where "s0 = (if curenv s = Some e then s\<lparr>cr3 := kern_pgdir s\<rparr> else s)"
  have s0: "wf_vm ?U ?D s0" "envs s0 = envs s" "kern_pgdir s0 = kern_pgdir s" "env_free_list s0 = env_free_list s"
    "slot s0 = slot s" "tab s0 = tab s" "npages s0 = npages s" "cpus s0 = cpus s" "cpunum s0 = cpunum s"
    using wf(2) by (simp_all add: s0_def)
  have U: "{..<PDX UTOP} \<subseteq> ?U" "?U = {..<PDX UTOP}" by (simp_all add: user_part_def)
  obtain s1 where s1: "fold_res (env_free_pde d) [0..<PDX UTOP] s0 = Ok s1" "wf_vm ?U ?D s1" "vm_frame s0 s1"
    "\<forall>i<PDX UTOP. tab s1 d i = None"
    "\<forall>d'\<in>?D. \<forall>i'\<in>?U. d' \<noteq> d \<or> \<not> i' < PDX UTOP \<longrightarrow> tab s1 d' i' = tab s0 d' i' \<and> (\<forall>j. slot s1 d' i' j = slot s0 d' i' j)"
    using env_free_pdes [OF s0(1) dD(1) U(1) PDX_UTOP_le] by blast
  note fr = vm_frame_fields [OF s1(3)]
  let ?s2 = "upd_env e (\<lambda>v. v\<lparr>env_pgdir := None\<rparr>) s1" and ?D' = "?D - {d}"
  have wf2: "wf_vm ?U ?D' ?s2" using wf_vm_subset [OF s1(2)] by auto
  have wft: "wf_tables ?U ?D s1" using s1(2) by (simp add: wf_vm_def)
  have d2: "d < npages ?s2" "d \<notin> set (free_pages ?s2)" "d \<notin> ?D' \<union> tables ?U ?D' ?s2"
    "mappings ?U ?D' ?s2 d = {}"
  proof -
    have same: "free_pages ?s2 = free_pages s1" "tables ?U ?D' ?s2 = tables ?U ?D' s1"
      "mappings ?U ?D' ?s2 = mappings ?U ?D' s1" by (rule vm_cong; simp)+
    show "d < npages ?s2" "d \<notin> set (free_pages ?s2)" using wft dD(1) by (auto simp: wf_tables_def same)
    have "tables ?U ?D' s1 \<subseteq> tables ?U ?D s1" by (auto simp: tables_def)
    then show "d \<notin> ?D' \<union> tables ?U ?D' ?s2" using wft dD(1) unfolding same wf_tables_def by auto
    show "mappings ?U ?D' ?s2 d = {}" using wf_vmD(2) [OF s1(2)] dD(1) unfolding same by (auto simp: mappings_def)
  qed
  note dec = decref_vm [OF wf2 d2]
  let ?s3 = "decref_state d ?s2"
  define s4 where "s4 = (upd_env e (\<lambda>v. v\<lparr>env_status := ENV_FREE, env_link := env_free_list ?s3\<rparr>) ?s3)\<lparr>env_free_list := Some e\<rparr>"
  have "d < 1048576" using wft d2(1) by (auto simp: wf_tables_def wf_pages_def)
  then have "env_free e s = Ok s4"
    using d s1(1) d2(1) s0(2) unfolding env_free_def Let_def s0_def [symmetric]
    by (simp add: pa2page_def page_decref_eq s4_def)
  moreover have env4: "envs s4 = (envs s)(e := (envs s e)\<lparr>env_pgdir := None, env_status := ENV_FREE, env_link := env_free_list s\<rparr>)"
    "env_free_list s4 = Some e" "kern_pgdir s4 = kern_pgdir s" "cpus s4 = cpus s" "cpunum s4 = cpunum s"
    using fr s0 by (simp_all add: s4_def)
  note push = wf_envs_push [OF wf(1) assms(2) env4(1) _ _ env4(2), simplified]
  have dirs: "env_dirs s4 = env_dirs s - {d}"
  proof -
    have "env_pgdir (envs s e') \<noteq> Some d" if "active s e'" "e' \<noteq> e" for e'
      using wf(1) assms(2) d that unfolding wf_envs_def by metis
    then show ?thesis using d unfolding env_dirs_def push(2) env4(1) by (fastforce split: if_splits)
  qed
  then have all: "all_dirs s4 = ?D'" using dD(2) env4(3) by (auto simp: all_dirs_def)
  have wf4: "wf_vm ?U ?D' s4" using dec(1) by (simp add: s4_def)
  have slots: "slot s4 d' i j = slot s d' i j" "tab s4 d' i = tab s d' i"
    if "d' \<in> ?D'" "i \<in> ?U" for d' i j
    using dec(3,4) [OF that] s1(5) [rule_format, of d' i] that s0 by (simp_all add: s4_def)
  have "wf_kernel s4"
    using push(1) wf4 dirs slots(2) [of "kern_pgdir s"] assms(1) dD(2) env4(3)
    unfolding wf_kernel_def all by (auto simp: all_dirs_def)
  ultimately show ?thesis using env4 all d slots(1) by (intro exI [of _ s4]) simp
qed

lemma PDX_UVPT: "PDX UVPT \<notin> user_part"
proof -
  have "\<not> PDX UVPT < PDX UTOP" by code_simp
  then show ?thesis by (simp add: user_part_def)
qed

lemma env_setup_vm_no_mem:
  assumes "wf_pages s" "free_pages s = []"
  shows "env_setup_vm e s = Ok (- E_NO_MEM, s)"
  using page_alloc_eq [OF assms(1)] assms(2) by (simp add: env_setup_vm_def)

lemma env_setup_vm_ok:
  assumes "wf_vm user_part D s" "free_pages s = p # ps" "\<forall>i\<in>user_part. tab s (kern_pgdir s) i = None"
    "kern_pgdir s \<in> D"
  shows "\<exists>s'. env_setup_vm e s = Ok (0, s') \<and> wf_vm user_part (insert p D) s'
    \<and> envs s' = (envs s)(e := (envs s e)\<lparr>env_pgdir := Some p\<rparr>) \<and> kern_pgdir s' = kern_pgdir s
    \<and> env_free_list s' = env_free_list s \<and> cpus s' = cpus s \<and> cpunum s' = cpunum s \<and> p \<notin> D \<and> free_pages s' = ps
    \<and> pages s' = (pages s)(p := (pages s p)\<lparr>pp_ref := 1\<rparr>)
    \<and> (\<forall>i\<in>user_part. tab s' p i = None)
    \<and> (\<forall>i. i \<noteq> PDX UVPT \<longrightarrow> frames s' p i = frames s (kern_pgdir s) i)
    \<and> (\<forall>d\<in>D. \<forall>i\<in>user_part. tab s' d i = tab s d i)
    \<and> (\<forall>d\<in>D. \<forall>i\<in>user_part. \<forall>j. slot s' d i j = slot s d i j)"
proof -
  let ?U = user_part
  have wft: "wf_tables ?U D s" "wf_pages s" using assms(1) by (simp_all add: wf_vm_def wf_tables_def)
  note tk = taken_page_wf [OF wft(2) assms(2), of ALLOC_ZERO] taken_page_tables(5,6) [OF wft(1) assms(2)]
  have p: "p < npages s" "npages s \<le> 65536" "pp_ref (pages s p) = 0" "p \<notin> set ps"
    using wft(2) assms(2) free_list_distinct [of s "p # ps"] by (auto simp: wf_pages_def free_list_def)
  have kern: "kern_pgdir s \<noteq> p" using tk(3) assms(4) by auto
  define s1 where "s1 = set_pp_ref p 1 (taken_page ALLOC_ZERO p s)"
  define s2 where "s2 = upd_env e (\<lambda>v. v\<lparr>env_pgdir := Some p\<rparr>) s1"
  define s3 where "s3 = s2\<lparr>frames := (frames s2)(p := frames s2 (kern_pgdir s2))\<rparr>"
  define s' where "s' = store_pte (p, PDX UVPT) (page2pa p OR PTE_P OR PTE_U) s3"
  have kva: "page2kva p s1 = Ok p" using p by (simp add: page2kva_ok s1_def)
  have eq: "env_setup_vm e s = Ok (0, s')"
    using page_alloc_eq [OF wft(2), of ALLOC_ZERO] assms(2) kva [unfolded s1_def]
    by (simp add: env_setup_vm_def Let_def s'_def s3_def s2_def s1_def)
  have nk: "kern_pgdir s' = kern_pgdir s" "envs s' = (envs s)(e := (envs s e)\<lparr>env_pgdir := Some p\<rparr>)"
    "env_free_list s' = env_free_list s" "cpus s' = cpus s" "cpunum s' = cpunum s" "kern_pgdir s2 = kern_pgdir s"
    by (simp_all add: s'_def s3_def s2_def s1_def taken_page_def set_pp_ref_def memset_page_def store_pte_def)
  have s': "npages s' = npages s" "pages s' = (pages s)(p := (pages s p)\<lparr>pp_ref := 1\<rparr>)"
    "page_free_list s' = page_free_list s1" "pages s' = pages s1" "npages s' = npages s1"
    by (simp_all add: s'_def s3_def s2_def s1_def)
  have fr: "frames s' q = frames s q" if "q \<noteq> p" for q using that
    by (simp add: s'_def s3_def s2_def s1_def)
  have fp: "frames s' p i = frames s (kern_pgdir s) i" if "i \<noteq> PDX UVPT" for i
    using that nk(6) kern by (simp add: s'_def s3_def) (simp add: s2_def s1_def)
  have tabp: "tab s' p i = None" if "i \<in> ?U" for i
  proof -
    have "i \<noteq> PDX UVPT" using that PDX_UVPT by auto
    then have "tab s' p i = tab s (kern_pgdir s) i" using fp by (simp add: tab_def)
    with assms(3) that show ?thesis by simp
  qed
  have "wf_pages s1" "free_pages s1 = ps"
    unfolding s1_def using set_pp_ref_wf [OF tk(1)] tk(2) p(4) by simp_all
  then have free: "wf_pages s'" "free_pages s' = ps"
    using s'(3-5) by (simp_all add: wf_pages_def free_pages_def free_list_def)
  have "set (free_pages s') \<inter> (D \<union> tables ?U D s) = {}"
    using wft(1) assms(2) unfolding free(2) wf_tables_def by auto
  note oth = wf_vm_other [OF assms(1) free(1) s'(1) _ _ this]
  have fr': "frames s' q = frames s q" if "q \<in> D \<union> tables ?U D s" for q
    by (rule fr) (use tk(3,4) that in blast)
  have ref: "unat (pp_ref (pages s q)) \<le> unat (pp_ref (pages s' q))" for q
    using p(3) by (simp add: s'(2))
  have vm: "wf_vm ?U D s'" "tables ?U D s' = tables ?U D s" by (rule oth; simp add: fr' ref)+
  have same: "tab s' d i = tab s d i" "slot s' d i j = slot s d i j" if "d \<in> D" "i \<in> ?U" for d i j
    by (rule oth(3,4); simp add: fr' ref that)+
  have "mappings ?U D s' p = {}"
    using mapped_not_free(2) [OF assms(1)] assms(2) by (fastforce simp: mappings_def same)
  then have "wf_vm ?U (insert p D) s'"
    using vm(1) p(1,4) tk(4) tabp by (intro wf_vm_add_dir) (simp_all add: s'(1) free(2) vm(2))
  then show ?thesis using eq nk tk(3) tabp fp same free(2) s'(2) by (intro exI [of _ s']) simp
qed

text \<open>The environment that \<open>env_alloc\<close> makes of \<open>v = envs[e]\<close>, with page directory \<open>p\<close>.\<close>

definition new_env :: "nat \<Rightarrow> u32 \<Rightarrow> nat \<Rightarrow> Env \<Rightarrow> Env" where
  "new_env e parent_id p v = v\<lparr>env_pgdir := Some p, env_id := next_env_id (env_id v) e,
     env_parent_id := parent_id, env_type := ENV_TYPE_USER, env_status := ENV_RUNNABLE, env_runs := 0,
     env_tf := new_trapframe, env_pgfault_upcall := 0, env_ipc_recving := False\<rparr>"

lemma env_free_head:
  assumes "wf_envs s" "env_free_list s = Some e"
  obtains fl where "free_envs s (e # fl)" "e < NENV" "\<not> active s e"
proof -
  obtain fl0 where fl0: "free_envs s fl0" using assms(1) by (auto simp: wf_envs_def)
  then obtain fl where fl: "free_envs s (e # fl)" using free_envs_head(2) [OF _ assms(2)] by blast
  then have "e \<in> {e. e < NENV \<and> env_status (envs s e) = ENV_FREE}" unfolding free_envs_def by auto
  then show ?thesis using that fl by (auto simp: active_def)
qed

lemma wf_envs_pop:
  assumes "wf_envs s" "env_free_list s = Some e" "env_free_list s' = env_link (envs s e)"
    and "envs s' = (envs s)(e := new_env e parent_id p (envs s e))" "p \<notin> env_dirs s"
  shows "wf_envs s'" "active s' = (active s)(e := True)" "env_dirs s' = insert p (env_dirs s)"
proof -
  from env_free_head [OF assms(1,2)] obtain fl where e: "free_envs s (e # fl)" "e < NENV" "\<not> active s e"
    by blast
  have v: "envs s' e = new_env e parent_id p (envs s e)" "\<And>x. x \<noteq> e \<Longrightarrow> envs s' x = envs s x"
    using assms(4) by simp_all
  show act: "active s' = (active s)(e := True)"
    using v e(2) by (auto simp: active_def fun_eq_iff new_env_def)
  have "free_envs s' fl"
    by (rule free_envs_pop [OF e(1) assms(4)]) (simp_all add: new_env_def assms(3))
  moreover have "ENVX (env_id (envs s' x)) = x \<and> sint (env_id (envs s' x)) > 0 \<and> env_pgdir (envs s' x) \<noteq> None"
    if "active s' x" for x
    using that v next_env_id_facts [OF e(2)] assms(1)
    by (cases "x = e") (simp_all add: act new_env_def wf_envs_def)
  moreover have "x = y" if "active s' x" "active s' y" "env_pgdir (envs s' x) = env_pgdir (envs s' y)" for x y
  proof -
    have "env_pgdir (envs s z) \<noteq> Some p" if "active s z" for z
      using assms(5) that by (auto simp: env_dirs_def)
    then show ?thesis using that v assms(1)
      by (cases "x = e"; cases "y = e") (auto simp: act new_env_def wf_envs_def)
  qed
  ultimately show "wf_envs s'" unfolding wf_envs_def by blast
  show "env_dirs s' = insert p (env_dirs s)"
    using e(3) v unfolding env_dirs_def act by (fastforce simp: new_env_def split: if_splits)
qed

lemma env_alloc_errors:
  assumes "wf_kernel s"
  shows "env_free_list s = None \<Longrightarrow> env_alloc parent_id s = Ok ((- E_NO_FREE_ENV, None), s)"
    and "env_free_list s = Some e \<Longrightarrow> free_pages s = [] \<Longrightarrow> env_alloc parent_id s = Ok ((- E_NO_MEM, None), s)"
proof -
  have "wf_pages s" using assms by (simp add: wf_kernel_def wf_vm_def wf_tables_def)
  then show "env_free_list s = Some e \<Longrightarrow> free_pages s = [] \<Longrightarrow> env_alloc parent_id s = Ok ((- E_NO_MEM, None), s)"
    by (simp add: env_alloc_def env_setup_vm_no_mem E_NO_MEM_def)
qed (simp add: env_alloc_def)

lemma env_alloc_spec:
  assumes "wf_kernel s" "env_free_list s = Some e" "free_pages s = p # ps"
  shows "\<exists>s'. env_alloc parent_id s = Ok ((0, Some e), s') \<and> wf_kernel s' \<and> \<not> active s e
    \<and> envs s' = (envs s)(e := new_env e parent_id p (envs s e)) \<and> env_free_list s' = env_link (envs s e)
    \<and> kern_pgdir s' = kern_pgdir s \<and> free_pages s' = ps
    \<and> pages s' = (pages s)(p := (pages s p)\<lparr>pp_ref := 1\<rparr>) \<and> cpus s' = cpus s \<and> cpunum s' = cpunum s
    \<and> p \<notin> all_dirs s \<and> all_dirs s' = insert p (all_dirs s)
    \<and> (\<forall>i\<in>user_part. tab s' p i = None)
    \<and> (\<forall>i. i \<noteq> PDX UVPT \<longrightarrow> frames s' p i = frames s (kern_pgdir s) i)
    \<and> (\<forall>d\<in>all_dirs s. \<forall>i\<in>user_part. \<forall>j. slot s' d i j = slot s d i j)"
proof -
  have wf: "wf_envs s" "wf_vm user_part (all_dirs s) s" "kern_pgdir s \<notin> env_dirs s"
    "\<forall>i\<in>user_part. tab s (kern_pgdir s) i = None"
    using assms(1) by (simp_all add: wf_kernel_def)
  have kern: "kern_pgdir s \<in> all_dirs s" by (simp add: all_dirs_def)
  from env_setup_vm_ok [OF wf(2) assms(3) wf(4) kern, of e] obtain s1 where
    s1: "env_setup_vm e s = Ok (0, s1)" "wf_vm user_part (insert p (all_dirs s)) s1"
    "envs s1 = (envs s)(e := (envs s e)\<lparr>env_pgdir := Some p\<rparr>)" "kern_pgdir s1 = kern_pgdir s"
    "env_free_list s1 = env_free_list s" "cpus s1 = cpus s" "cpunum s1 = cpunum s" "p \<notin> all_dirs s" "free_pages s1 = ps"
    "pages s1 = (pages s)(p := (pages s p)\<lparr>pp_ref := 1\<rparr>)"
    "\<forall>i\<in>user_part. tab s1 p i = None"
    "\<forall>i. i \<noteq> PDX UVPT \<longrightarrow> frames s1 p i = frames s (kern_pgdir s) i"
    "\<forall>d\<in>all_dirs s. \<forall>i\<in>user_part. tab s1 d i = tab s d i"
    "\<forall>d\<in>all_dirs s. \<forall>i\<in>user_part. \<forall>j. slot s1 d i j = slot s d i j"
    by blast
  define s' where "s' = (upd_env e (\<lambda>v. v\<lparr>env_id := next_env_id (env_id v) e,
      env_parent_id := parent_id, env_type := ENV_TYPE_USER, env_status := ENV_RUNNABLE, env_runs := 0,
      env_tf := new_trapframe, env_pgfault_upcall := 0, env_ipc_recving := False\<rparr>) s1)\<lparr>env_free_list := env_link (envs s e)\<rparr>"
  have eq: "env_alloc parent_id s = Ok ((0, Some e), s')"
    using assms(2) s1(1,3) by (simp add: env_alloc_def s'_def)
  have env: "envs s' = (envs s)(e := new_env e parent_id p (envs s e))" "env_free_list s' = env_link (envs s e)"
    "kern_pgdir s' = kern_pgdir s" "cpus s' = cpus s" "cpunum s' = cpunum s"
    using s1(3-7) by (simp_all add: s'_def new_env_def)
  have p: "p \<notin> env_dirs s" using s1(8) by (simp add: all_dirs_def)
  note pop = wf_envs_pop [OF wf(1) assms(2) env(2,1) p]
  have dirs: "all_dirs s' = insert p (all_dirs s)" by (auto simp: all_dirs_def env(3) pop(3))
  have vm: "wf_vm user_part (all_dirs s') s'" "tab s' = tab s1" "slot s' = slot s1" "frames s' = frames s1"
    "free_pages s' = free_pages s1" "pages s' = pages s1"
    using s1(2) dirs by (simp_all add: s'_def free_pages_def)
  have "kern_pgdir s \<noteq> p" using s1(8) kern by auto
  then have "wf_kernel s'"
    using pop(1) vm(1) wf(3,4) s1(13) kern unfolding wf_kernel_def pop(3) env(3) vm(2) by simp
  moreover have "\<not> active s e" using env_free_head [OF wf(1) assms(2)] by blast
  ultimately show ?thesis using eq env s1(8-12,14) dirs vm(2-6) by (intro exI [of _ s']) simp
qed

lemma envid2env_found:
  assumes "wf_envs s" "active s e"
  shows "envid2env (env_id (envs s e)) False s = Ok (0, Some e)"
proof -
  have "ENVX (env_id (envs s e)) = e" "env_id (envs s e) \<noteq> 0" "env_status (envs s e) \<noteq> ENV_FREE"
    using assms by (auto simp: wf_envs_def active_def)
  then show ?thesis by (simp add: envid2env_def Let_def)
qed

lemma envid2env_result:
  assumes "wf_envs s" "envid2env envid checkperm s = Ok (r, x)" "envid \<noteq> 0"
  shows "r = 0 \<and> (\<exists>e. x = Some e \<and> active s e \<and> env_id (envs s e) = envid) \<or> r = - E_BAD_ENV \<and> x = None"
proof -
  have "ENVX envid < NENV"
  proof -
    have "envid AND (1024 - 1) \<le> 1024 - 1" by (rule word_and_le1)
    then show ?thesis by (simp add: ENVX_def NENV_def word_le_nat_alt)
  qed
  then show ?thesis using assms(2,3)
    by (auto simp: envid2env_def Let_def active_def split: if_splits option.splits)
qed

lemma wf_kernel_cong:
  assumes "\<And>x. env_id (envs s' x) = env_id (envs s x)" "\<And>x. env_pgdir (envs s' x) = env_pgdir (envs s x)"
    "\<And>x. env_link (envs s' x) = env_link (envs s x)"
    "\<And>x. env_status (envs s' x) = ENV_FREE \<longleftrightarrow> env_status (envs s x) = ENV_FREE"
    and "env_free_list s' = env_free_list s" "kern_pgdir s' = kern_pgdir s" "npages s' = npages s"
    "pages s' = pages s" "page_free_list s' = page_free_list s" "frames s' = frames s"
  shows "wf_kernel s' = wf_kernel s" "active s' = active s"
proof -
  show act: "active s' = active s" by (simp add: active_def assms(4) fun_eq_iff)
  have "free_envs s' = free_envs s" by (simp add: free_envs_def assms(3-5) fun_eq_iff)
  then have "wf_envs s' = wf_envs s" by (simp only: wf_envs_def act assms(1,2))
  moreover have "env_dirs s' = env_dirs s" "all_dirs s' = all_dirs s"
    by (simp_all add: env_dirs_def all_dirs_def act assms(2,6))
  moreover have "wf_vm U D s' = wf_vm U D s" "tab s' = tab s" for U D by (rule vm_cong; simp add: assms)+
  ultimately show "wf_kernel s' = wf_kernel s" by (simp add: wf_kernel_def assms(6))
qed

lemma wf_kernel_upd_env:
  assumes "env_id (f (envs s e)) = env_id (envs s e)"
    "env_pgdir (f (envs s e)) = env_pgdir (envs s e)" "env_link (f (envs s e)) = env_link (envs s e)"
    "env_status (f (envs s e)) = ENV_FREE \<longleftrightarrow> env_status (envs s e) = ENV_FREE"
  shows "wf_kernel (upd_env e f s) = wf_kernel s" "active (upd_env e f s) = active s"
  by (rule wf_kernel_cong; simp add: assms)+

lemma wf_kernel_cpu [simp]:
  "wf_kernel (set_curenv c s) = wf_kernel s" "wf_kernel (s\<lparr>cr3 := d\<rparr>) = wf_kernel s"
  "wf_kernel (s\<lparr>cpus := u\<rparr>) = wf_kernel s"
  "active (set_curenv c s) = active s" "active (s\<lparr>cr3 := d\<rparr>) = active s"
  "active (s\<lparr>cpus := u\<rparr>) = active s"
  by (rule wf_kernel_cong; simp add: set_curenv_def)+

lemma set_curenv_simps [simp]:
  "envs (set_curenv c s) = envs s" "curenv (set_curenv c s) = c" "cpunum (set_curenv c s) = cpunum s"
  "curenv (s\<lparr>cr3 := d\<rparr>) = curenv s" "kern_pgdir (set_curenv c s) = kern_pgdir s"
  by (simp_all add: set_curenv_def curenv_def)

lemma env_init_steps:
  assumes "n \<le> NENV"
  shows "let t = fold env_init_step (rev [n..<NENV]) (s\<lparr>env_free_list := None\<rparr>) in
    chain (\<lambda>e. env_link (envs t e)) (env_free_list t) [n..<NENV]
    \<and> (\<forall>e. envs t e = (if n \<le> e \<and> e < NENV then (envs s e)\<lparr>env_id := 0, env_status := ENV_FREE, env_link := env_link (envs t e)\<rparr> else envs s e))
    \<and> t = s\<lparr>envs := envs t, env_free_list := env_free_list t\<rparr>"
  unfolding Let_def using assms
proof (induction n rule: inc_induct)
  case base
  show ?case by auto
next
  case (step n)
  let ?t = "fold env_init_step (rev [Suc n..<NENV]) (s\<lparr>env_free_list := None\<rparr>)"
  have eq: "fold env_init_step (rev [n..<NENV]) (s\<lparr>env_free_list := None\<rparr>) = env_init_step n ?t"
    using step.hyps by (simp add: upt_conv_Cons)
  have t: "chain (\<lambda>e. env_link (envs ?t e)) (env_free_list ?t) [Suc n..<NENV]"
    "\<And>e. envs ?t e = (if Suc n \<le> e \<and> e < NENV then (envs s e)\<lparr>env_id := 0, env_status := ENV_FREE, env_link := env_link (envs ?t e)\<rparr> else envs s e)"
    "?t = s\<lparr>envs := envs ?t, env_free_list := env_free_list ?t\<rparr>"
    using step.IH by blast+
  have env: "envs (env_init_step n ?t) = (envs ?t)(n := (envs s n)\<lparr>env_id := 0, env_status := ENV_FREE, env_link := env_free_list ?t\<rparr>)"
    "env_free_list (env_init_step n ?t) = Some n"
    using t(2) [of n] step.hyps by (simp_all add: env_init_step_def)
  have "chain (\<lambda>e. env_link (envs (env_init_step n ?t) e)) (env_free_list ?t) [Suc n..<NENV]"
    by (rule chain_cong [OF t(1)]) (simp add: env)
  then have "chain (\<lambda>e. env_link (envs (env_init_step n ?t) e)) (env_free_list (env_init_step n ?t)) [n..<NENV]"
    using step.hyps by (simp add: env upt_conv_Cons)
  moreover have "envs (env_init_step n ?t) e = (if n \<le> e \<and> e < NENV then (envs s e)\<lparr>env_id := 0, env_status := ENV_FREE, env_link := env_link (envs (env_init_step n ?t) e)\<rparr> else envs s e)" for e
  proof (cases "e = n")
    case True
    then show ?thesis using step.hyps by (simp add: env)
  next
    case False
    then have "Suc n \<le> e \<longleftrightarrow> n \<le> e" by auto
    with False t(2) [of e] show ?thesis by (simp only: env fun_upd_other not_False_eq_True)
  qed
  moreover have "env_init_step n ?t = s\<lparr>envs := envs (env_init_step n ?t), env_free_list := Some n\<rparr>"
    by (subst (1 2) t(3)) (simp add: env_init_step_def upd_env_def)
  ultimately show ?case unfolding eq env(2) by blast
qed

lemma env_init_spec:
  "free_envs (env_init s) [0..<NENV]" "\<not> active (env_init s) e"
  "env_init s = s\<lparr>envs := envs (env_init s), env_free_list := env_free_list (env_init s)\<rparr>"
  "e < NENV \<Longrightarrow> env_id (envs (env_init s) e) = 0"
proof -
  have init: "chain (\<lambda>e. env_link (envs (env_init s) e)) (env_free_list (env_init s)) [0..<NENV]"
    "\<And>e. envs (env_init s) e = (if e < NENV then (envs s e)\<lparr>env_id := 0, env_status := ENV_FREE, env_link := env_link (envs (env_init s) e)\<rparr> else envs s e)"
    "env_init s = s\<lparr>envs := envs (env_init s), env_free_list := env_free_list (env_init s)\<rparr>"
    using env_init_steps [of 0 s] unfolding env_init_def Let_def by simp_all
  have st: "env_status (envs (env_init s) e) = ENV_FREE" "env_id (envs (env_init s) e) = 0" if "e < NENV" for e
    by (subst init(2), use that in simp)+
  show "free_envs (env_init s) [0..<NENV]" unfolding free_envs_def using init(1) st by auto
  show "\<not> active (env_init s) e" using st by (auto simp: active_def)
  show "env_init s = s\<lparr>envs := envs (env_init s), env_free_list := env_free_list (env_init s)\<rparr>" by (rule init(3))
  show "e < NENV \<Longrightarrow> env_id (envs (env_init s) e) = 0" by (rule st)
qed

lemma env_init_wf:
  assumes "wf_vm user_part {kern_pgdir s} s" "\<forall>i\<in>user_part. tab s (kern_pgdir s) i = None"
  shows "wf_kernel (env_init s)"
proof -
  let ?s = "env_init s"
  have "wf_envs ?s" using env_init_spec(1,2) [of s] unfolding wf_envs_def by blast
  moreover have dirs: "env_dirs ?s = {}" using env_init_spec(2) by (simp add: env_dirs_def)
  moreover have kern: "kern_pgdir ?s = kern_pgdir s" by (subst env_init_spec(3)) simp
  moreover have "wf_vm U D ?s = wf_vm U D s" "tab ?s = tab s" for U D
    by (rule vm_cong; subst env_init_spec(3); simp)+
  ultimately show ?thesis using assms unfolding wf_kernel_def all_dirs_def by simp
qed

section \<open>Examples\<close>

text \<open>A machine of eight pages after boot, page 2 the kernel's directory.\<close>

definition boot_memory :: kstate where
  "boot_memory = (bss_kstate 8 8)\<lparr>kern_pgdir := 2,
     pages := (\<lambda>p. \<lparr>pp_link = (if p \<in> {4, 5, 6} then Some (p + 1) else None), pp_ref = (if p = 2 then 1 else 0)\<rparr>),
     page_free_list := Some 4\<rparr>"

definition booted :: kstate where
  "booted = env_init boot_memory"

text \<open>The state after \<open>env_alloc\<close>.\<close>

definition alloc_state :: "kstate \<Rightarrow> kstate" where
  "alloc_state s = (case env_alloc 0 s of Ok (_, s) \<Rightarrow> s | Panic _ \<Rightarrow> s)"

lemma chain_upt_next:
  "chain lnk p [n..<N] \<Longrightarrow> n \<le> e \<Longrightarrow> e < N \<Longrightarrow> lnk e = (if Suc e = N then None else Some (Suc e))"
proof (induction "N - n" arbitrary: n p)
  case (Suc d)
  then have "[n..<N] = n # [Suc n..<N]" by (simp add: upt_conv_Cons)
  with Suc.prems(1) have c: "chain lnk (lnk n) [Suc n..<N]" by simp
  show ?case
  proof (cases "n = e")
    case True
    show ?thesis
    proof (cases "Suc e = N")
      case False
      then have "[Suc n..<N] = Suc n # [Suc (Suc n)..<N]" using True Suc.prems by (simp add: upt_conv_Cons)
      with c True False show ?thesis by simp
    qed (use c True in simp)
  next
    case False
    then show ?thesis using Suc.hyps(1) [OF _ c] Suc.hyps(2) Suc.prems(2,3) by simp
  qed
qed simp

lemma boot_memory_vm:
  "wf_vm user_part {2} boot_memory" "tab boot_memory d i = None" "free_pages boot_memory = [4, 5, 6, 7]"
proof -
  have fl: "free_list boot_memory [4, 5, 6, 7]" by (simp add: free_list_def boot_memory_def bss_kstate_def)
  then show free: "free_pages boot_memory = [4, 5, 6, 7]" by (rule free_list_free_pages)
  have wfp: "wf_pages boot_memory" using fl by (auto simp: wf_pages_iff) (simp add: boot_memory_def bss_kstate_def)
  show tab: "tab boot_memory d i = None" for d i by (simp add: tab_def boot_memory_def bss_kstate_def)
  have "tables user_part {2} boot_memory = {}" by (simp add: tables_def tab)
  moreover have "npages boot_memory = 8" by (simp add: boot_memory_def bss_kstate_def)
  ultimately have "wf_tables user_part {2} boot_memory" using wfp free by (simp add: wf_tables_def tab)
  moreover have "mappings user_part {2} boot_memory p = {}" for p by (auto simp: mappings_def slot_def tab)
  ultimately show "wf_vm user_part {2} boot_memory" by (simp add: wf_vm_def slot_def tab user_part_def)
qed

lemma booted_wf:
  "wf_kernel booted" "free_pages booted = [4, 5, 6, 7]" "env_free_list booted = Some 0"
  "e < NENV \<Longrightarrow> env_link (envs booted e) = (if Suc e = NENV then None else Some (Suc e))"
  "e < NENV \<Longrightarrow> env_id (envs booted e) = 0" "\<not> active booted e"
  "kern_pgdir booted = 2" "cpus booted = (\<lambda>_. \<lparr>cpu_status = CPU_UNUSED, cpu_env = None\<rparr>)" "cpunum booted = 0"
  "pages booted = pages boot_memory"
proof -
  have kern: "kern_pgdir boot_memory = 2" by (simp add: boot_memory_def)
  show "wf_kernel booted" unfolding booted_def
    by (rule env_init_wf) (use boot_memory_vm kern in simp_all)
  have eq: "booted = boot_memory\<lparr>envs := envs booted, env_free_list := env_free_list booted\<rparr>"
    unfolding booted_def by (rule env_init_spec(3))
  have "free_pages booted = free_pages boot_memory" by (rule vm_cong; subst eq; simp)
  then show "free_pages booted = [4, 5, 6, 7]" using boot_memory_vm(3) by simp
  have c: "chain (\<lambda>e. env_link (envs booted e)) (env_free_list booted) [0..<NENV]"
    using env_init_spec(1) unfolding booted_def free_envs_def by blast
  have "0 < NENV" by (simp add: NENV_def)
  then show "env_free_list booted = Some 0" using c by (simp add: upt_conv_Cons [of 0 NENV])
  show "e < NENV \<Longrightarrow> env_link (envs booted e) = (if Suc e = NENV then None else Some (Suc e))"
    using chain_upt_next [OF c, of e] by simp
  show "e < NENV \<Longrightarrow> env_id (envs booted e) = 0" unfolding booted_def by (rule env_init_spec(4))
  show "\<not> active booted e" unfolding booted_def by (rule env_init_spec(2))
  show "kern_pgdir booted = 2" "cpus booted = (\<lambda>_. \<lparr>cpu_status = CPU_UNUSED, cpu_env = None\<rparr>)" "cpunum booted = 0"
    "pages booted = pages boot_memory"
    by (subst eq, simp add: boot_memory_def bss_kstate_def)+
qed

lemma alloc_state_eq:
  assumes "wf_kernel s" "env_free_list s = Some e" "free_pages s = p # ps"
  shows "env_alloc 0 s = Ok ((0, Some e), alloc_state s)" "wf_kernel (alloc_state s)"
    "envs (alloc_state s) = (envs s)(e := new_env e 0 p (envs s e))"
    "env_free_list (alloc_state s) = env_link (envs s e)" "free_pages (alloc_state s) = ps"
    "cpus (alloc_state s) = cpus s" "cpunum (alloc_state s) = cpunum s" "active (alloc_state s) = (active s)(e := True)"
    "\<forall>i\<in>user_part. tab (alloc_state s) p i = None"
    "pages (alloc_state s) = (pages s)(p := (pages s p)\<lparr>pp_ref := 1\<rparr>)"
proof -
  obtain s' where s': "env_alloc 0 s = Ok ((0, Some e), s')" "wf_kernel s'"
    "envs s' = (envs s)(e := new_env e 0 p (envs s e))" "env_free_list s' = env_link (envs s e)"
    "free_pages s' = ps" "cpus s' = cpus s" "cpunum s' = cpunum s" "\<forall>i\<in>user_part. tab s' p i = None"
    "pages s' = (pages s)(p := (pages s p)\<lparr>pp_ref := 1\<rparr>)"
    using env_alloc_spec [OF assms, of 0] by blast
  have "alloc_state s = s'" using s'(1) by (simp add: alloc_state_def)
  moreover have "e < NENV" using env_free_head [OF _ assms(2)] assms(1) by (auto simp: wf_kernel_def)
  then have "active s' = (active s)(e := True)" by (auto simp: active_def s'(3) new_env_def fun_eq_iff)
  ultimately show "env_alloc 0 s = Ok ((0, Some e), alloc_state s)" "wf_kernel (alloc_state s)"
    "envs (alloc_state s) = (envs s)(e := new_env e 0 p (envs s e))"
    "env_free_list (alloc_state s) = env_link (envs s e)" "free_pages (alloc_state s) = ps"
    "cpus (alloc_state s) = cpus s" "cpunum (alloc_state s) = cpunum s" "active (alloc_state s) = (active s)(e := True)"
    "\<forall>i\<in>user_part. tab (alloc_state s) p i = None"
    "pages (alloc_state s) = (pages s)(p := (pages s p)\<lparr>pp_ref := 1\<rparr>)"
    using s' by simp_all
qed

lemma env_free_empty:
  assumes "wf_kernel s" "active s e" "env_pgdir (envs s e) = Some d" "\<forall>i\<in>user_part. tab s d i = None"
  shows "\<exists>s'. env_free e s = Ok s' \<and> set (free_pages s) \<subseteq> set (free_pages s')"
proof -
  have vm: "wf_vm user_part (all_dirs s) s" using assms(1) by (simp add: wf_kernel_def)
  have dD: "d \<in> all_dirs s" using assms(2,3) by (auto simp: all_dirs_def env_dirs_def)
  then have d: "d < npages s" "d \<notin> set (free_pages s)" "wf_pages s"
    using vm by (auto simp: wf_vm_def wf_tables_def)
  then have d': "d < 1048576" by (simp add: wf_pages_def)
  define s0 where "s0 = (if curenv s = Some e then s\<lparr>cr3 := kern_pgdir s\<rparr> else s)"
  have s0: "npages s0 = npages s" "pages s0 = pages s" "page_free_list s0 = page_free_list s"
    "frames s0 = frames s" "envs s0 = envs s" by (simp_all add: s0_def)
  note cong = vm_cong [OF s0(1-4)]
  have "fold_res (env_free_pde d) [0..<n] s0 = Ok s0" if "n \<le> PDX UTOP" for n
    using that
  proof (induction n)
    case (Suc n)
    then have "tab s0 d n = None" using assms(4) cong(3) by (simp add: user_part_def)
    then have "env_free_pde d n s0 = Ok s0" by (simp add: env_free_pde_def tab_def load_pte_def split: if_splits)
    with Suc show ?case by (simp add: fold_res_append)
  qed simp
  from this [of "PDX UTOP"] have fold: "fold_res (env_free_pde d) [0..<PDX UTOP] s0 = Ok s0" by simp
  let ?s2 = "upd_env e (\<lambda>v. v\<lparr>env_pgdir := None\<rparr>) s0"
  let ?s3 = "decref_state d ?s2"
  let ?s4 = "(upd_env e (\<lambda>v. v\<lparr>env_status := ENV_FREE, env_link := env_free_list ?s3\<rparr>) ?s3)\<lparr>env_free_list := Some e\<rparr>"
  have "env_free e s = Ok ?s4"
    using assms(3) d d' s0 fold unfolding env_free_def Let_def s0_def [symmetric]
    by (simp add: pa2page_def page_decref_eq)
  moreover have "free_pages ?s2 = free_pages s" "wf_pages ?s2 = wf_pages s" "free_pages ?s4 = free_pages ?s3"
    by (rule vm_cong; simp add: s0)+
  then have "set (free_pages s) \<subseteq> set (free_pages ?s4)"
    using decref_state_wf(2) [of ?s2 d] d s0 by auto
  ultimately show ?thesis by blast
qed

section \<open>Properties\<close>

text \<open>
  C12. \<open>env_alloc\<close> on a well-formed kernel: without a free entry of \<open>envs[]\<close> or without a free page it
  returns the documented error and changes nothing. Otherwise it takes the head of the free list; the
  result is well-formed, the new environment is runnable under a fresh id of its own index, its
  address space below \<open>UTOP\<close> is empty and above, but for the entry at \<open>UVPT\<close>, equal to the kernel's,
  and every other environment and address space is as before.
\<close>

theorem env_alloc_ok:
  assumes "wf_kernel s"
  shows "case env_free_list s of
      None \<Rightarrow> env_alloc parent_id s = Ok ((- E_NO_FREE_ENV, None), s)
    | Some e \<Rightarrow>
       (case free_pages s of
          [] \<Rightarrow> env_alloc parent_id s = Ok ((- E_NO_MEM, None), s)
        | p # ps \<Rightarrow> \<not> active s e \<and> p \<notin> all_dirs s \<and>
            (\<exists>s'. env_alloc parent_id s = Ok ((0, Some e), s') \<and> wf_kernel s' \<and> active s' e
              \<and> env_status (envs s' e) = ENV_RUNNABLE \<and> env_pgdir (envs s' e) = Some p
              \<and> ENVX (env_id (envs s' e)) = e \<and> sint (env_id (envs s' e)) > 0
              \<and> env_id (envs s' e) \<noteq> env_id (envs s e)
              \<and> (\<forall>va. PDX va \<in> user_part \<longrightarrow> translate s' p va = None)
              \<and> (\<forall>i. i \<noteq> PDX UVPT \<longrightarrow> frames s' p i = frames s (kern_pgdir s) i)
              \<and> (\<forall>x. x \<noteq> e \<longrightarrow> envs s' x = envs s x)
              \<and> (\<forall>d\<in>all_dirs s. \<forall>va. PDX va \<in> user_part \<longrightarrow> translate s' d va = translate s d va)))"
proof (cases "env_free_list s")
  case None
  then show ?thesis using env_alloc_errors(1) [OF assms] by simp
next
  case e: (Some e)
  show ?thesis
  proof (cases "free_pages s")
    case Nil
    with e show ?thesis using env_alloc_errors(2) [OF assms e] by simp
  next
    case (Cons p ps)
    obtain s' where s': "env_alloc parent_id s = Ok ((0, Some e), s')" "wf_kernel s'" "\<not> active s e"
      "envs s' = (envs s)(e := new_env e parent_id p (envs s e))" "p \<notin> all_dirs s"
      "\<forall>i\<in>user_part. tab s' p i = None" "\<forall>i. i \<noteq> PDX UVPT \<longrightarrow> frames s' p i = frames s (kern_pgdir s) i"
      "\<forall>d\<in>all_dirs s. \<forall>i\<in>user_part. \<forall>j. slot s' d i j = slot s d i j"
      using env_alloc_spec [OF assms e Cons, of parent_id] by blast
    have "e < NENV" using env_free_head [OF _ e] assms by (auto simp: wf_kernel_def)
    note id = next_env_id_facts [OF this] next_env_id_fresh [OF this]
    show ?thesis using e Cons s' id \<open>e < NENV\<close>
      by (simp add: translate_def active_def new_env_def) (simp add: slot_def)
  qed
qed

theorem env_alloc_ok_witness:
  "wf_kernel booted \<and> (\<exists>s'. env_alloc 0 booted = Ok ((0, Some 0), s') \<and> wf_kernel s' \<and> active s' 0)"
proof -
  have "wf_kernel booted" by (rule booted_wf)
  from env_alloc_ok [OF this, of 0] this booted_wf(2,3) show ?thesis by auto
qed

text \<open>
  C13. \<open>env_free\<close> of an active environment of a well-formed kernel never panics and gives a
  well-formed kernel: the entry heads the free list, its page tables and its directory are out of
  use, and every other environment and address space is as before.
\<close>

theorem env_free_ok:
  assumes "wf_kernel s" "active s e"
  shows "\<exists>s'. env_free e s = Ok s' \<and> wf_kernel s' \<and> \<not> active s' e \<and> env_free_list s' = Some e
    \<and> env_pgdir (envs s' e) = None \<and> (\<forall>x. x \<noteq> e \<longrightarrow> envs s' x = envs s x)
    \<and> all_dirs s' = all_dirs s - {the (env_pgdir (envs s e))}
    \<and> (\<forall>d\<in>all_dirs s'. \<forall>va. PDX va \<in> user_part \<longrightarrow> translate s' d va = translate s d va)"
proof -
  obtain s' where s': "env_free e s = Ok s'" "wf_kernel s'" "env_free_list s' = Some e"
    "envs s' = (envs s)(e := (envs s e)\<lparr>env_pgdir := None, env_status := ENV_FREE, env_link := env_free_list s\<rparr>)"
    "all_dirs s' = all_dirs s - {the (env_pgdir (envs s e))}"
    "\<forall>d\<in>all_dirs s'. \<forall>i\<in>user_part. \<forall>j. slot s' d i j = slot s d i j"
    using env_free_spec [OF assms] by blast
  show ?thesis
    by (rule exI [of _ s']) (use s' in \<open>simp add: translate_def active_def\<close>)
qed

theorem env_free_ok_witness:
  "wf_kernel (alloc_state booted) \<and> active (alloc_state booted) 0
     \<and> (\<exists>s'. env_free 0 (alloc_state booted) = Ok s' \<and> wf_kernel s' \<and> \<not> active s' 0)"
proof -
  note al = alloc_state_eq [OF booted_wf(1,3,2)]
  have "active (alloc_state booted) 0" by (simp add: al(8))
  with env_free_ok [OF al(2) this] al(2) show ?thesis by blast
qed

text \<open>
  C14. An environment id does not survive its environment: when \<open>env_free\<close> has released an entry of
  \<open>envs[]\<close> and \<open>env_alloc\<close> has handed it out again, \<open>envid2env\<close> answers the old id with
  \<open>E_BAD_ENV\<close> and the new one with the entry.
\<close>

theorem stale_id_rejected:
  assumes "wf_kernel s" "active s e" "env_free e s = Ok s1" "free_pages s1 = p # ps"
  shows "\<exists>s2. env_alloc parent_id s1 = Ok ((0, Some e), s2)
    \<and> envid2env (env_id (envs s e)) checkperm s2 = Ok (- E_BAD_ENV, None)
    \<and> envid2env (env_id (envs s2 e)) False s2 = Ok (0, Some e)"
proof -
  have e: "e < NENV" "ENVX (env_id (envs s e)) = e" "env_id (envs s e) \<noteq> 0"
    using assms(1,2) by (auto simp: wf_kernel_def wf_envs_def active_def)
  have s1: "wf_kernel s1" "env_free_list s1 = Some e" "env_id (envs s1 e) = env_id (envs s e)"
    using env_free_spec [OF assms(1,2)] assms(3) by auto
  obtain s2 where s2: "env_alloc parent_id s1 = Ok ((0, Some e), s2)" "wf_kernel s2"
    "envs s2 = (envs s1)(e := new_env e parent_id p (envs s1 e))"
    using env_alloc_spec [OF s1(1,2) assms(4), of parent_id] by blast
  have "env_id (envs s2 e) \<noteq> env_id (envs s e)" "active s2 e"
    using s1(3) s2(3) next_env_id_fresh [OF e(1)] e(1) by (simp_all add: new_env_def active_def)
  then show ?thesis
    using e(2,3) s2(1,2) envid2env_found [of s2 e] by (simp add: envid2env_def Let_def wf_kernel_def)
qed

theorem stale_id_rejected_witness:
  "\<exists>s1 s2. env_free 0 (alloc_state booted) = Ok s1 \<and> env_alloc 0 s1 = Ok ((0, Some 0), s2)
     \<and> envid2env 0x1000 False s2 = Ok (- E_BAD_ENV, None)"
proof -
  note al = alloc_state_eq [OF booted_wf(1,3,2)]
  have act: "active (alloc_state booted) 0" by (simp add: al(8))
  have dir: "env_pgdir (envs (alloc_state booted) 0) = Some 4" "env_id (envs (alloc_state booted) 0) = 0x1000"
    using booted_wf(5) [of 0] by (simp_all add: al(3) new_env_def next_env_id_def ENVGENSHIFT_def NENV_def)
  obtain s1 where s1: "env_free 0 (alloc_state booted) = Ok s1"
    "set (free_pages (alloc_state booted)) \<subseteq> set (free_pages s1)"
    using env_free_empty [OF al(2) act dir(1) al(9)] by blast
  then obtain p ps where "free_pages s1 = p # ps" using al(5) by (cases "free_pages s1") auto
  from stale_id_rejected [OF al(2) act s1(1) this, of 0 False] s1(1) dir(2) show ?thesis by auto
qed

end
