(* ===== verification/Sched.thy ===== *)
theory Sched
  imports Env_Inv
begin

text \<open>
  Properties of the context switch and the round-robin scheduler of \<open>kern/sched.c\<close>: which
  environment \<open>sched_yield\<close> runs, that no runnable environment but the first is passed over for
  ever, and the entry of \<open>envs[]\<close> that it misses.
\<close>

section \<open>Definitions\<close>

text \<open>The index that the search started at \<open>i\<close> looks at in round \<open>k\<close>.\<close>

definition visited :: "nat \<Rightarrow> nat \<Rightarrow> nat" where
  "visited i k = (if k = 0 then i else (i + k) mod NENV)"

definition runnable :: "kstate \<Rightarrow> nat \<Rightarrow> bool" where
  "runnable s e \<longleftrightarrow> env_status (envs s e) = ENV_RUNNABLE"

text \<open>Where the search of \<open>sched_yield\<close> starts.\<close>

definition sched_start :: "kstate \<Rightarrow> nat" where
  "sched_start s = (case curenv s of None \<Rightarrow> 0 | Some c \<Rightarrow> c + 1)"

text \<open>The rounds that the search started at \<open>i\<close> needs to reach \<open>e\<close>.\<close>

definition rounds :: "nat \<Rightarrow> nat \<Rightarrow> nat" where
  "rounds i e = (if i \<le> e then e - i else e + NENV - i)"

text \<open>Two environments after boot, and one where only the last and the first entry are in use.\<close>

definition two_envs :: kstate where
  "two_envs = alloc_state (alloc_state booted)"

definition last_and_first :: kstate where
  "last_and_first = (bss_kstate 4 4)\<lparr>
     envs := (\<lambda>_. zero_env)(0 := zero_env\<lparr>env_status := ENV_RUNNABLE, env_id := 0x1000\<rparr>,
       1023 := zero_env\<lparr>env_status := ENV_NOT_RUNNABLE, env_id := 0x13ff\<rparr>),
     cpus := (\<lambda>_. \<lparr>cpu_status = CPU_STARTED, cpu_env = Some 1023\<rparr>)\<rparr>"

section \<open>The context switch\<close>

lemma env_run_spec:
  assumes "wf_kernel s" "active s e"
  obtains s' where "env_run e s = KRun e s'" "wf_kernel s'" "active s' = active s" "curenv s' = Some e"
    "curenv s \<noteq> Some e \<Longrightarrow> env_status (envs s' e) = ENV_RUNNING \<and> env_pgdir (envs s e) = Some (cr3 s')"
    "\<And>x. x \<noteq> e \<Longrightarrow> env_status (envs s' x) = (if curenv s = Some x \<and> curenv s \<noteq> Some e
        \<and> env_status (envs s x) = ENV_RUNNING then ENV_RUNNABLE else env_status (envs s x))"
proof (cases "curenv s = Some e")
  case True
  let ?s = "upd_env e (\<lambda>v. v\<lparr>env_cpunum := cpunum s\<rparr>) s"
  have "wf_kernel ?s" "active ?s = active s" using assms(1) by (simp_all add: wf_kernel_upd_env)
  with True show ?thesis by (intro that [of ?s]) (simp_all add: env_run_def env_pop_tf_def)
next
  case False
  define s1 where "s1 = (case curenv s of None \<Rightarrow> s
     | Some c \<Rightarrow> if env_status (envs s c) = ENV_RUNNING
                 then upd_env c (\<lambda>v. v\<lparr>env_status := ENV_RUNNABLE\<rparr>) s else s)"
  have s1: "wf_kernel s1" "active s1 = active s" "env_pgdir (envs s1 e) = env_pgdir (envs s e)"
    using assms(1) by (simp_all add: s1_def wf_kernel_upd_env split: option.split)
  have st1: "env_status (envs s1 x) = (if curenv s = Some x \<and> env_status (envs s x) = ENV_RUNNING
      then ENV_RUNNABLE else env_status (envs s x))" for x
    by (simp add: s1_def split: option.split)
  define s2 where "s2 = upd_env e (\<lambda>v. v\<lparr>env_status := ENV_RUNNING, env_runs := env_runs v + 1\<rparr>) (set_curenv (Some e) s1)"
  have "env_status (envs s1 e) \<noteq> ENV_FREE" using assms(2) s1(2) by (metis active_def)
  then have s2: "wf_kernel s2" "active s2 = active s" "env_pgdir (envs s2 e) = env_pgdir (envs s e)" "curenv s2 = Some e"
    using s1 by (simp_all add: s2_def wf_kernel_upd_env)
  obtain d where d: "env_pgdir (envs s e) = Some d"
    using assms by (auto simp: wf_kernel_def wf_envs_def)
  define s' where "s' = upd_env e (\<lambda>v. v\<lparr>env_cpunum := cpunum (s2\<lparr>cr3 := d\<rparr>)\<rparr>) (s2\<lparr>cr3 := d\<rparr>)"
  have "env_run e s = KRun e s'"
    using False d s2(3) by (simp add: env_run_def env_pop_tf_def s'_def s2_def s1_def Let_def)
  moreover have "wf_kernel s'" "active s' = active s"
    using s2(1,2) by (simp_all add: s'_def wf_kernel_upd_env)
  ultimately show ?thesis using False d s2(4) st1 by (intro that [of s']) (simp_all add: s'_def s2_def)
qed

section \<open>The search\<close>

lemma visited_Suc: "visited (Suc i mod NENV) k = visited i (Suc k)"
  by (simp add: visited_def mod_simps NENV_def)

lemma sched_search_find: "sched_search n i s = find (runnable s) (map (visited i) [0..<n])"
proof (induction n arbitrary: i)
  case (Suc n)
  have "map (visited i) [0..<Suc n] = i # map (visited (Suc i mod NENV)) [0..<n]"
    by (simp add: map_upt_Suc visited_Suc del: upt_Suc) (simp add: visited_def)
  with Suc.IH show ?case by (simp add: runnable_def del: upt_Suc)
qed simp

lemma sched_yield_eq:
  assumes "wf_kernel s" "curenv_active s"
  shows "sched_yield s = (case sched_search NENV (sched_start s) s of
           Some e \<Rightarrow> env_run e s
         | None \<Rightarrow> (case curenv s of None \<Rightarrow> sched_halt s
              | Some c \<Rightarrow> if env_status (envs s c) = ENV_RUNNING then env_run c s else sched_halt s))"
proof (cases "curenv s")
  case (Some c)
  then have "ENVX (env_id (envs s c)) = c" using assms by (auto simp: curenv_active_def wf_kernel_def wf_envs_def)
  with Some show ?thesis by (simp add: sched_yield_def sched_start_def)
qed (simp add: sched_yield_def sched_start_def)

lemma sched_start_le: "curenv_active s \<Longrightarrow> sched_start s \<le> NENV"
  by (auto simp: sched_start_def curenv_active_def active_def split: option.splits)

lemma visited_less: "visited i k < NENV \<or> k = 0 \<and> visited i k = i"
  by (simp add: visited_def NENV_def)

lemma sched_halt_wf:
  assumes "wf_kernel s" "curenv_active s"
  shows "sched_halt s = KMonitor s \<and> (\<forall>x<NENV. env_status (envs s x) \<notin> {ENV_RUNNABLE, ENV_RUNNING, ENV_DYING})
    \<or> (\<exists>s'. sched_halt s = KHalt s' \<and> wf_kernel s' \<and> curenv s' = None \<and> envs s' = envs s)"
  using assms by (auto simp: sched_halt_def Let_def curenv_def) (auto simp: set_curenv_def)

lemma env_init_end: "NENV \<le> e \<Longrightarrow> envs (env_init s) e = envs s e"
proof -
  assume "NENV \<le> e"
  have "\<forall>e. envs (env_init s) e = (if 0 \<le> e \<and> e < NENV then (envs s e)\<lparr>env_id := 0, env_status := ENV_FREE,
      env_link := env_link (envs (env_init s) e)\<rparr> else envs s e)"
    using env_init_steps [of 0 s] unfolding env_init_def Let_def by blast
  from this [rule_format, of e] \<open>NENV \<le> e\<close> show ?thesis by simp
qed

lemma booted_end: "NENV \<le> e \<Longrightarrow> envs booted e = zero_env"
  unfolding booted_def by (simp add: env_init_end boot_memory_def bss_kstate_def)

lemma sched_yield_first:
  assumes "wf_kernel s" "curenv_active s" "k < NENV" "visited (sched_start s) k < NENV"
    "runnable s (visited (sched_start s) k)" "\<And>j. j < k \<Longrightarrow> \<not> runnable s (visited (sched_start s) j)"
  shows "\<exists>s'. sched_yield s = (KRun (visited (sched_start s) k) s' :: unit kout)"
proof -
  let ?e = "visited (sched_start s) k"
  have "find (runnable s) (map (visited (sched_start s)) [0..<NENV]) = Some ?e"
    unfolding find_Some_iff using assms(3,5,6) by (intro exI [of _ k]) simp
  then have "sched_yield s = (env_run ?e s :: unit kout)"
    by (simp add: sched_yield_eq [OF assms(1,2)] sched_search_find)
  moreover have "active s ?e" using assms(4,5) by (simp add: active_def runnable_def)
  then obtain s' where "env_run ?e s = (KRun ?e s' :: unit kout)" using env_run_spec [OF assms(1)] by metis
  ultimately show ?thesis by auto
qed

lemma sched_yield_picks:
  assumes "wf_kernel s" "curenv_active s" "\<not> runnable s NENV"
    "sched_yield s = (KRun r s' :: unit kout)" "runnable s (visited (sched_start s) k)" "k < NENV"
  obtains j where "j \<le> k" "r = visited (sched_start s) j" "r < NENV"
proof -
  have "find (runnable s) (map (visited (sched_start s)) [0..<NENV]) \<noteq> None"
    using assms(5,6) by (auto simp: find_None_iff)
  then obtain e where e: "find (runnable s) (map (visited (sched_start s)) [0..<NENV]) = Some e" by blast
  then obtain j where j: "j < NENV" "runnable s e" "e = visited (sched_start s) j"
    "\<forall>i<j. \<not> runnable s (visited (sched_start s) i)"
    by (auto simp: find_Some_iff)
  have "e < NENV" using visited_less [of "sched_start s" j] sched_start_le [OF assms(2)] assms(3) j
    by (metis le_neq_implies_less)
  then have act: "active s e" using j(2) by (simp add: active_def runnable_def)
  obtain s'' where "env_run e s = (KRun e s'' :: unit kout)"
    by (rule env_run_spec [OF assms(1) act])
  then have "r = e" using assms(4) e by (simp add: sched_yield_eq [OF assms(1,2)] sched_search_find)
  moreover have "j \<le> k" using j(4) assms(5) by (meson leI)
  ultimately show ?thesis using j \<open>e < NENV\<close> by (intro that [of j]) simp_all
qed

lemma visited_rounds:
  assumes "0 < e" "e < NENV" "i \<le> NENV"
  shows "visited i (rounds i e) = e" "rounds i e < NENV"
  using assms by (auto simp: visited_def rounds_def mod_if NENV_def)

lemma rounds_decrease:
  assumes "0 < e" "e < NENV" "i \<le> NENV" "j \<le> rounds i e" "visited i j < NENV" "visited i j \<noteq> e"
  shows "rounds (visited i j + 1) e < rounds i e"
proof -
  have "visited i j = (if j = 0 then i else if i + j < NENV then i + j else i + j - NENV)"
  proof (cases "j = 0")
    case False
    have "i + j < 2 * NENV" using assms(2-4) by (auto simp: rounds_def split: if_splits)
    with False show ?thesis by (simp add: visited_def mod_if le_mod_geq)
  qed (simp add: visited_def)
  with assms show ?thesis by (auto simp: rounds_def split: if_splits)
qed

lemma two_envs_wf:
  "wf_kernel two_envs" "active two_envs = (\<lambda>e. e < 2)" "env_status (envs two_envs 0) = ENV_RUNNABLE"
  "env_status (envs two_envs 1) = ENV_RUNNABLE" "1 < e \<Longrightarrow> \<not> runnable two_envs e"
proof -
  note al = alloc_state_eq [OF booted_wf(1,3,2)]
  have link: "env_free_list (alloc_state booted) = Some 1" using booted_wf(4) [of 0] by (simp add: al(4) NENV_def)
  note al2 = alloc_state_eq [OF al(2) link al(5)]
  show "wf_kernel two_envs" using al2(2) by (simp add: two_envs_def)
  have env: "envs two_envs = (envs booted)(0 := new_env 0 0 4 (envs booted 0), 1 := new_env 1 0 5 (envs booted 1))"
    by (simp add: two_envs_def al2(3) al(3))
  show "active two_envs = (\<lambda>e. e < 2)"
    using booted_wf(6) by (auto simp: two_envs_def al2(8) al(8) fun_eq_iff)
  show "env_status (envs two_envs 0) = ENV_RUNNABLE" "env_status (envs two_envs 1) = ENV_RUNNABLE"
    by (simp_all add: env new_env_def)
  show out: "\<not> runnable two_envs e" if "1 < e" for e
  proof (cases "e < NENV")
    case True
    then have "env_status (envs booted e) = ENV_FREE" using booted_wf(6) [of e] by (auto simp: active_def)
    with that show ?thesis by (simp add: runnable_def env)
  next
    case False
    with that show ?thesis by (simp add: runnable_def env booted_end zero_env_def)
  qed
qed

section \<open>Properties\<close>







end
