(* ===== verification/Nic.thy ===== *)
theory Nic
  imports Sched
begin

text \<open>
  The driver of the network card, after \<open>kern/e1000.c\<close>, and the clock of \<open>kern/time.c\<close>. The
  descriptor rings are arrays of their own in the state, although they live in a page of the
  allocator that nothing else maps; the packet buffers are in physical memory. \<open>tx_bufs\<close>, whose
  address the linker chooses, is a parameter. What the card does with the descriptors between
  the calls is not modelled: the properties hold for any values of \<open>TDH\<close> and the \<open>DD\<close> bits.
\<close>

section \<open>Definitions\<close>

definition N_TXDESC :: nat where "N_TXDESC = 256"
definition N_RXDESC :: nat where "N_RXDESC = 256"

definition E1000_TCTL_EN :: u32 where "E1000_TCTL_EN = 2"
definition E1000_TCTL_PSP :: u32 where "E1000_TCTL_PSP = 8"
definition E1000_TCTL_CT_ETHER :: u32 where "E1000_TCTL_CT_ETHER = push_bit 4 0x10"
definition E1000_TCTL_COLD_FULL_DUPLEX :: u32 where
  "E1000_TCTL_COLD_FULL_DUPLEX = push_bit 12 0x40"
definition E1000_TIPG_DEFAULT :: u32 where
  "E1000_TIPG_DEFAULT = 10 OR push_bit 10 4 OR push_bit 20 6"
definition E1000_RCTL_EN :: u32 where "E1000_RCTL_EN = 2"
definition E1000_RCTL_BSIZE_2048 :: u32 where "E1000_RCTL_BSIZE_2048 = push_bit 16 0"
definition E1000_RCTL_SECRC :: u32 where "E1000_RCTL_SECRC = push_bit 26 1"
definition E1000_RAH_AV :: u32 where "E1000_RAH_AV = push_bit 31 1"
definition QEMU_MAC_LOW :: u32 where "QEMU_MAC_LOW = 0x12005452"
definition QEMU_MAC_HIGH :: u32 where "QEMU_MAC_HIGH = 0x5634"
definition E1000_TX_CMD_EOP :: u8 where "E1000_TX_CMD_EOP = 1"
definition E1000_TX_CMD_RS :: u8 where "E1000_TX_CMD_RS = 4"
definition E1000_TX_STATUS_DD :: u8 where "E1000_TX_STATUS_DD = 1"
definition E1000_RX_STATUS_DD :: u8 where "E1000_RX_STATUS_DD = 1"

definition upd_tx :: "nat \<Rightarrow> (tx_desc \<Rightarrow> tx_desc) \<Rightarrow> kstate \<Rightarrow> kstate" where
  "upd_tx i f s = s\<lparr>tx_descs := (tx_descs s)(i := f (tx_descs s i))\<rparr>"

definition upd_rx :: "nat \<Rightarrow> (rx_desc \<Rightarrow> rx_desc) \<Rightarrow> kstate \<Rightarrow> kstate" where
  "upd_rx i f s = s\<lparr>rx_descs := (rx_descs s)(i := f (rx_descs s i))\<rparr>"

text \<open>Copies from and to physical memory, which the kernel reaches at \<open>KADDR\<close> of the address.\<close>

fun phys_load_bytes :: "u32 \<Rightarrow> nat \<Rightarrow> kstate \<Rightarrow> u8 list" where
  "phys_load_bytes pa 0 s = []"
| "phys_load_bytes pa (Suc n) s =
     frame_byte s (PGNUM pa) (unat (PGOFF pa)) # phys_load_bytes (pa + 1) n s"

fun phys_store_bytes :: "u32 \<Rightarrow> u8 list \<Rightarrow> kstate \<Rightarrow> kstate" where
  "phys_store_bytes pa [] s = s"
| "phys_store_bytes pa (b # bs) s =
     phys_store_bytes (pa + 1) bs (set_frame_byte (PGNUM pa) (unat (PGOFF pa)) b s)"

text \<open>The page allocated for the transmit descriptors is cleared, so all their fields are 0.\<close>

definition tx_init_desc :: "u32 \<Rightarrow> nat \<Rightarrow> kstate \<Rightarrow> kstate kres" where
  "tx_init_desc tx_bufs i s =
     bind_res (PADDR (tx_bufs + of_nat i * 1520)) (\<lambda>pa.
       Ok (upd_tx i (\<lambda>d. d\<lparr>tx_status := tx_status d OR E1000_TX_STATUS_DD, tx_addr := ucast pa\<rparr>) s))"

definition e1000_tx_init :: "u32 \<Rightarrow> kstate \<Rightarrow> (int \<times> kstate) kres" where
  "e1000_tx_init tx_bufs s =
     bind_res (page_alloc ALLOC_ZERO s) (\<lambda>(p, s).
       case p of
         None \<Rightarrow> Panic Null_page
       | Some p \<Rightarrow>
           let s = set_pp_ref p (pp_ref (pages s p) + 1) s
           in bind_res (page2kva p s) (\<lambda>kva.
              bind_res (fold_res (tx_init_desc tx_bufs) [0..<N_TXDESC] (s\<lparr>tx_descs := (\<lambda>_. zero_tx_desc)\<rparr>))
                (\<lambda>s. Ok (0, s\<lparr>base := (base s)\<lparr>TDBAL := page2pa kva, TDBAH := 0, TDLEN := PGSIZE,
                   TDH := 0, TDT := 0, TIPG := E1000_TIPG_DEFAULT,
                   TCTL := TCTL (base s) OR (E1000_TCTL_EN OR E1000_TCTL_PSP OR E1000_TCTL_CT_ETHER
                     OR E1000_TCTL_COLD_FULL_DUPLEX)\<rparr>\<rparr>))))"

fun rx_alloc_buffers :: "nat \<Rightarrow> kstate \<Rightarrow> (nat list \<times> kstate) kres" where
  "rx_alloc_buffers 0 s = Ok ([], s)"
| "rx_alloc_buffers (Suc n) s =
     bind_res (page_alloc ALLOC_ZERO s) (\<lambda>(pp, s).
       case pp of
         None \<Rightarrow> Panic Null_page
       | Some pp \<Rightarrow>
           bind_res (rx_alloc_buffers n (set_pp_ref pp (pp_ref (pages s pp) + 1) s)) (\<lambda>(pptrs, s).
             Ok (pp # pptrs, s)))"

definition rx_init_desc :: "nat list \<Rightarrow> nat \<Rightarrow> kstate \<Rightarrow> kstate" where
  "rx_init_desc pptrs i =
     upd_rx i (\<lambda>d. d\<lparr>rx_addr := ucast (page2pa (pptrs ! (i div 2)) + of_nat (i mod 2) * PGSIZE div 2)\<rparr>)"

definition e1000_rx_init :: "kstate \<Rightarrow> (int \<times> kstate) kres" where
  "e1000_rx_init s =
     bind_res (page_alloc ALLOC_ZERO s) (\<lambda>(p, s).
       case p of
         None \<Rightarrow> Panic Null_page
       | Some p \<Rightarrow>
           let s = set_pp_ref p (pp_ref (pages s p) + 1) s
           in bind_res (page2kva p s) (\<lambda>kva.
              bind_res (rx_alloc_buffers (N_RXDESC div 2) (s\<lparr>rx_descs := (\<lambda>_. zero_rx_desc)\<rparr>)) (\<lambda>(pptrs, s).
                let s = fold (rx_init_desc pptrs) [0..<N_RXDESC] s
                in Ok (0, s\<lparr>base := (base s)\<lparr>RAL := QEMU_MAC_LOW, RAH := QEMU_MAC_HIGH OR E1000_RAH_AV,
                     RDBAL := page2pa kva, RDBAH := 0, RDLEN := PGSIZE, RDH := 0,
                     RDT := of_nat N_RXDESC - 1,
                     RCTL := RCTL (base s) OR (E1000_RCTL_EN OR E1000_RCTL_BSIZE_2048
                       OR E1000_RCTL_SECRC)\<rparr>\<rparr>))))"

text \<open>
  \<open>pci_e1000_attach\<close> after \<open>pci_func_enable\<close>, with the base address and the size of the first
  memory region that the latter has read. The registers of \<open>base\<close> appear at the mapped address.
\<close>

definition pci_e1000_attach :: "u32 \<Rightarrow> u32 \<Rightarrow> u32 \<Rightarrow> kstate \<Rightarrow> (int \<times> kstate) kres" where
  "pci_e1000_attach reg_base reg_size tx_bufs s =
     bind_res (mmio_map_region reg_base reg_size s) (\<lambda>(addr, s).
       bind_res (e1000_tx_init tx_bufs s) (\<lambda>(_, s). bind_res (e1000_rx_init s) (\<lambda>(_, s). Ok (0, s))))"

definition e1000_tx :: "u32 \<Rightarrow> u32 \<Rightarrow> kstate \<Rightarrow> (int \<times> kstate) kres" where
  "e1000_tx buf len s =
     (if len > 1518 then Ok (- E_INVAL, s)
      else
        let tdt = TDT (base s); tdh = TDH (base s)
        in if (tdt + 1) mod of_nat N_TXDESC = tdh then Ok (- E_AGAIN, s)
           else
             let i = unat (tdt mod of_nat N_TXDESC); d = tx_descs s i
             in if tx_status d AND E1000_TX_STATUS_DD = 0 then Ok (- E_AGAIN, s)
                else
                  let pa = ucast (tx_addr d) :: u32
                  in bind_res (KADDR pa s) (\<lambda>_.
                     bind_res (va_load_bytes buf (unat len) s) (\<lambda>bs.
                       let s = phys_store_bytes pa bs s;
                           s = upd_tx i (\<lambda>d. d\<lparr>tx_length := ucast len,
                                 tx_cmd := tx_cmd d OR (E1000_TX_CMD_RS OR E1000_TX_CMD_EOP),
                                 tx_status := tx_status d AND NOT E1000_TX_STATUS_DD\<rparr>) s;
                           s = s\<lparr>base := (base s)\<lparr>TDT := (tdt + 1) mod of_nat N_TXDESC\<rparr>\<rparr>
                       in Ok (uint len, s))))"

definition e1000_rx :: "u32 \<Rightarrow> u32 \<Rightarrow> kstate \<Rightarrow> (int \<times> kstate) kres" where
  "e1000_rx buf len s =
     (if buf = 0 then Ok (- E_INVAL, s)
      else
        let rdt = (RDT (base s) + 1) mod of_nat N_RXDESC;
            d = rx_descs s (unat rdt)
        in if rx_status d AND E1000_RX_STATUS_DD = 0 then Ok (- E_AGAIN, s)
           else
             let len = ucast (rx_length d) :: u32;
                 len = (if len > 1518 then 1518 else len);
                 pa = ucast (rx_addr d) :: u32
             in bind_res (KADDR pa s) (\<lambda>_.
                bind_res (va_store_bytes buf (phys_load_bytes pa (unat len) s) s) (\<lambda>s.
                  let s = upd_rx (unat rdt) (\<lambda>d. d\<lparr>rx_status := 0\<rparr>) s;
                      s = s\<lparr>base := (base s)\<lparr>RDT := rdt\<rparr>\<rparr>
                  in Ok (uint len, s))))"

section \<open>The clock\<close>

definition time_init :: "kstate \<Rightarrow> kstate" where
  "time_init s = s\<lparr>ticks := 0\<rparr>"

definition time_tick :: "kstate \<Rightarrow> kstate kres" where
  "time_tick s =
     (let s = s\<lparr>ticks := ticks s + 1\<rparr>
      in if ticks s * 10 < ticks s then Panic Time_overflow else Ok s)"

definition time_msec :: "kstate \<Rightarrow> u32" where
  "time_msec s = ticks s * 10"

section \<open>The transmit queue\<close>

text \<open>The byte of physical memory at address \<open>a\<close>.\<close>

definition phys_byte :: "kstate \<Rightarrow> nat \<Rightarrow> u8" where
  "phys_byte s a = frame_byte s (a div 4096) (a mod 4096)"

text \<open>The packet that transmit descriptor \<open>i\<close> describes, and those between head and tail.\<close>

definition tx_packet :: "kstate \<Rightarrow> nat \<Rightarrow> u8 list" where
  "tx_packet s i = phys_load_bytes (ucast (tx_addr (tx_descs s i))) (unat (tx_length (tx_descs s i))) s"

definition tx_queue :: "kstate \<Rightarrow> u8 list list" where
  "tx_queue s = ring (tx_packet s) N_TXDESC (unat (TDH (base s))) (unat (TDT (base s)))"

text \<open>
  The transmit ring is set up: head and tail are inside it, and descriptor \<open>i\<close> has the \<open>i\<close>th part
  of the buffers at physical address \<open>b\<close>.
\<close>

definition wf_tx :: "u32 \<Rightarrow> kstate \<Rightarrow> bool" where
  "wf_tx b s \<longleftrightarrow> unat (TDH (base s)) < N_TXDESC \<and> unat (TDT (base s)) < N_TXDESC
     \<and> unat b + 1520 * N_TXDESC \<le> npages s * 4096 \<and> npages s \<le> 65536
     \<and> (\<forall>i<N_TXDESC. tx_addr (tx_descs s i) = ucast (b + of_nat i * 1520) \<and> tx_length (tx_descs s i) \<le> 1518)"

lemma phys_load_bytes_eq:
  "unat pa + n \<le> 2 ^ 32 \<Longrightarrow> phys_load_bytes pa n s = map (\<lambda>k. phys_byte s (unat pa + k)) [0..<n]"
proof (induction n arbitrary: pa)
  case (Suc n)
  show ?case
  proof (cases n)
    case 0
    then show ?thesis by (simp add: phys_byte_def PGNUM_div PGOFF_mod)
  next
    case (Suc m)
    with Suc.prems have "unat (pa + 1) = unat pa + 1" by (simp add: unat_word_ariths)
    then have "phys_load_bytes (pa + 1) n s = map (\<lambda>k. phys_byte s (unat pa + Suc k)) [0..<n]"
      using Suc.IH [of "pa + 1"] Suc.prems by simp
    then show ?thesis
      by (simp add: phys_byte_def PGNUM_div PGOFF_mod map_upt_Suc del: upt_Suc)
  qed
qed simp

lemma phys_byte_set:
  "phys_byte (set_frame_byte (b div 4096) (b mod 4096) v s) a = (if a = b then v else phys_byte s a)"
proof -
  have "a div 4096 = b div 4096 \<and> a mod 4096 = b mod 4096 \<longleftrightarrow> a = b" by (metis div_mult_mod_eq)
  then show ?thesis by (auto simp: phys_byte_def frame_byte_set)
qed

lemma phys_store_bytes_eq:
  "unat pa + length bs \<le> 2 ^ 32 \<Longrightarrow>
   phys_byte (phys_store_bytes pa bs s) a =
     (if unat pa \<le> a \<and> a < unat pa + length bs then bs ! (a - unat pa) else phys_byte s a)"
proof (induction bs arbitrary: pa s)
  case (Cons b bs)
  let ?s = "set_frame_byte (PGNUM pa) (unat (PGOFF pa)) b s"
  have set: "phys_byte ?s a = (if a = unat pa then b else phys_byte s a)"
    by (simp add: PGNUM_div PGOFF_mod phys_byte_set)
  show ?case
  proof (cases "bs = []")
    case False
    with Cons.prems have pa: "unat (pa + 1) = unat pa + 1" by (cases bs) (simp_all add: unat_word_ariths)
    then have "phys_byte (phys_store_bytes (pa + 1) bs ?s) a =
        (if unat pa + 1 \<le> a \<and> a < unat pa + 1 + length bs then bs ! (a - (unat pa + 1)) else phys_byte ?s a)"
      using Cons.IH [of "pa + 1" ?s] Cons.prems by simp
    with set show ?thesis by (auto simp: nth_Cons')
  qed (use set in auto)
qed auto

lemma phys_store_bytes_simps [simp]:
  "tx_descs (phys_store_bytes pa bs s) = tx_descs s" "base (phys_store_bytes pa bs s) = base s"
  "npages (phys_store_bytes pa bs s) = npages s"
proof -
  have "tx_descs (phys_store_bytes pa bs s) = tx_descs s \<and> base (phys_store_bytes pa bs s) = base s
      \<and> npages (phys_store_bytes pa bs s) = npages s"
    by (induction bs arbitrary: pa s) (simp_all add: set_frame_byte_def store_pte_def)
  then show "tx_descs (phys_store_bytes pa bs s) = tx_descs s" "base (phys_store_bytes pa bs s) = base s"
    "npages (phys_store_bytes pa bs s) = npages s" by simp_all
qed

lemma va_load_bytes_length: "va_load_bytes va n s = Ok bs \<Longrightarrow> length bs = n"
  by (induction n arbitrary: va bs) (auto simp: bind_res_eq_Ok)

lemma ucast_u64 [simp]: "ucast (ucast (w :: u32) :: u64) = w"
  by (rule bit_word_eqI) (simp add: bit_simps)

lemma tx_buffer:
  assumes "wf_tx b s" "i < N_TXDESC"
  shows "unat (ucast (tx_addr (tx_descs s i)) :: u32) = unat b + i * 1520"
    "unat b + i * 1520 + 1520 \<le> npages s * 4096" "npages s * 4096 \<le> 2 ^ 28"
proof -
  show le: "unat b + i * 1520 + 1520 \<le> npages s * 4096" "npages s * 4096 \<le> 2 ^ 28"
    using assms by (auto simp: wf_tx_def N_TXDESC_def)
  have "ucast (tx_addr (tx_descs s i)) = b + of_nat i * 1520"
    using assms by (simp add: wf_tx_def)
  moreover have "unat (b + of_nat i * 1520) = unat b + i * 1520"
    using le by (simp add: unat_word_ariths unat_of_nat)
  ultimately show "unat (ucast (tx_addr (tx_descs s i)) :: u32) = unat b + i * 1520" by simp
qed

lemma tx_packet_store:
  assumes "wf_tx b s" "i < N_TXDESC" "j < N_TXDESC" "length bs \<le> 1518" "i \<noteq> j"
  shows "tx_packet (phys_store_bytes (ucast (tx_addr (tx_descs s i))) bs s) j = tx_packet s j"
proof -
  note i = tx_buffer [OF assms(1,2)] and j = tx_buffer [OF assms(1,3)]
  let ?pa = "ucast (tx_addr (tx_descs s i)) :: u32" and ?pb = "ucast (tx_addr (tx_descs s j)) :: u32"
  have n: "unat (tx_length (tx_descs s j)) \<le> 1518"
    using assms(1,3) by (simp add: wf_tx_def word_le_nat_alt)
  have "phys_byte (phys_store_bytes ?pa bs s) (unat ?pb + k) = phys_byte s (unat ?pb + k)" if "k < 1518" for k
  proof -
    have "\<not> (unat ?pa \<le> unat ?pb + k \<and> unat ?pb + k < unat ?pa + length bs)"
      using i(1) j(1) assms(4,5) that by (cases "i < j") auto
    moreover have "unat ?pa + length bs \<le> 2 ^ 32" using i assms(4) by simp
    ultimately show ?thesis by (auto simp: phys_store_bytes_eq)
  qed
  then show ?thesis using n j by (simp add: tx_packet_def phys_load_bytes_eq)
qed

lemma tx_packet_new:
  assumes "wf_tx b s" "i < N_TXDESC" "length bs \<le> 1518"
  shows "phys_load_bytes (ucast (tx_addr (tx_descs s i))) (length bs) (phys_store_bytes (ucast (tx_addr (tx_descs s i))) bs s) = bs"
  using tx_buffer [OF assms(1,2)] assms(3)
  by (auto simp: phys_load_bytes_eq phys_store_bytes_eq intro!: nth_equalityI)

lemma phys_cong:
  assumes "frames s' = frames s"
  shows "phys_load_bytes pa n s' = phys_load_bytes pa n s" "phys_byte s' a = phys_byte s a"
  using assms by (induction n arbitrary: pa) (simp_all add: frame_byte_def phys_byte_def)

lemma unat_next:
  assumes "unat (t :: u32) < N_TXDESC"
  shows "unat ((t + 1) mod of_nat N_TXDESC) = (unat t + 1) mod N_TXDESC" "t mod of_nat N_TXDESC = t"
proof -
  have "unat (t + 1) = unat t + 1" using assms by (simp add: unat_word_ariths N_TXDESC_def)
  then show "unat ((t + 1) mod of_nat N_TXDESC) = (unat t + 1) mod N_TXDESC"
    by (simp add: unat_mod N_TXDESC_def)
  have "unat (t mod of_nat N_TXDESC) = unat t" using assms by (simp add: unat_mod N_TXDESC_def)
  then show "t mod of_nat N_TXDESC = t" by (simp only: word_unat_eq_iff)
qed

lemma ring_full:
  assumes "r < n" "w < n"
  shows "(w + 1) mod n = r \<longleftrightarrow> length (ring buf n r w) = n - 1"
proof (cases "r \<le> w")
  case True
  with assms have "(w + n - r) mod n = w - r" by (simp add: mod_if)
  moreover have "(w + 1) mod n = (if w + 1 = n then 0 else w + 1)" using assms by simp
  ultimately show ?thesis using assms True by auto
next
  case False
  with assms have "(w + n - r) mod n = w + n - r" by simp
  moreover have "(w + 1) mod n = w + 1" using assms False by simp
  ultimately show ?thesis using assms False by auto
qed

lemma time_tick_steps:
  assumes "10 * n < 2 ^ 32"
  shows "fold_res (\<lambda>_. time_tick) [0..<n] (time_init s) = Ok (s\<lparr>ticks := of_nat n\<rparr>)"
  using assms
proof (induction n)
  case (Suc n)
  have "unat (of_nat (Suc n) * 10 :: u32) = 10 * Suc n" "unat (of_nat (Suc n) :: u32) = Suc n"
    using Suc.prems by (simp_all add: unat_word_ariths unat_of_nat del: of_nat_Suc)
  then have "\<not> (of_nat (Suc n) * 10 :: u32) < of_nat (Suc n)" by (simp add: word_less_nat_alt del: of_nat_Suc)
  then have "time_tick (s\<lparr>ticks := of_nat n\<rparr>) = Ok (s\<lparr>ticks := of_nat (Suc n)\<rparr>)"
    by (simp add: time_tick_def add.commute)
  with Suc show ?case by (simp add: fold_res_append)
qed (simp add: time_init_def)

text \<open>A card after \<open>e1000_tx_init\<close>, with the buffers at 0x10000.\<close>

definition card_ready :: kstate where
  "card_ready = mapped_page\<lparr>npages := 256, cr3 := 2,
     tx_descs := (\<lambda>i. zero_tx_desc\<lparr>tx_addr := ucast (0x10000 + of_nat i * 1520 :: u32), tx_status := 1\<rparr>)\<rparr>"

section \<open>Properties\<close>

text \<open>
  C18. The transmit ring is a bounded queue. \<open>e1000_tx\<close> refuses a packet of more than 1518 bytes with
  \<open>E_INVAL\<close>, and any packet with \<open>E_AGAIN\<close> when 255 are waiting or the card still owns the
  descriptor at the tail, and then changes nothing. Otherwise it appends the bytes of the packet to
  the packets waiting, none of which changes, and writes no memory but the packet buffers.
\<close>

theorem e1000_tx_queues:
  assumes "wf_tx b s" "va_load_bytes buf (unat len) s = Ok bs"
  shows "if len > 1518 then e1000_tx buf len s = Ok (- E_INVAL, s)
    else if length (tx_queue s) = 255 \<or> tx_status (tx_descs s (unat (TDT (base s)))) AND E1000_TX_STATUS_DD = 0
    then e1000_tx buf len s = Ok (- E_AGAIN, s)
    else \<exists>s'. e1000_tx buf len s = Ok (uint len, s') \<and> wf_tx b s' \<and> tx_queue s' = tx_queue s @ [bs]
      \<and> (\<forall>a. a < unat b \<or> unat b + 1520 * N_TXDESC \<le> a \<longrightarrow> phys_byte s' a = phys_byte s a)"
proof (cases "len > 1518")
  case True
  then show ?thesis by (simp add: e1000_tx_def)
next
  case False
  let ?t = "TDT (base s)" and ?h = "TDH (base s)"
  have ht: "unat ?h < N_TXDESC" "unat ?t < N_TXDESC" using assms(1) by (simp_all add: wf_tx_def)
  note nx = unat_next [OF ht(2)]
  have full: "(?t + 1) mod of_nat N_TXDESC = ?h \<longleftrightarrow> length (tx_queue s) = 255"
    using ring_full [OF ht, of "tx_packet s"] nx(1) by (simp add: tx_queue_def word_unat_eq_iff N_TXDESC_def)
  let ?i = "unat ?t" and ?pa = "ucast (tx_addr (tx_descs s (unat ?t))) :: u32"
  show ?thesis
  proof (cases "length (tx_queue s) = 255 \<or> tx_status (tx_descs s ?i) AND E1000_TX_STATUS_DD = 0")
    case True
    with False show ?thesis by (auto simp: e1000_tx_def Let_def full nx(2))
  next
    case ok: False
    define s1 where "s1 = phys_store_bytes ?pa bs s"
    define s' where "s' = (upd_tx ?i (\<lambda>d. d\<lparr>tx_length := ucast len,
        tx_cmd := tx_cmd d OR (E1000_TX_CMD_RS OR E1000_TX_CMD_EOP),
        tx_status := tx_status d AND NOT E1000_TX_STATUS_DD\<rparr>) s1)\<lparr>base := (base s)\<lparr>TDT := (?t + 1) mod of_nat N_TXDESC\<rparr>\<rparr>"
    have len: "unat len \<le> 1518" "length bs = unat len"
      using False va_load_bytes_length [OF assms(2)] by (simp_all add: word_le_nat_alt not_less)
    note buf = tx_buffer [OF assms(1) ht(2)]
    have "KADDR ?pa s = Ok (PGNUM ?pa)" using buf by (simp add: KADDR_def PGNUM_div) 
    then have eq: "e1000_tx buf len s = Ok (uint len, s')"
      using False ok full assms(2) nx(2) by (simp add: e1000_tx_def Let_def s'_def s1_def upd_tx_def)
    have ul: "unat (ucast len :: u16) = unat len" using len(1) by (simp add: unsigned_ucast_eq take_bit_nat_eq_self)
    have wf: "wf_tx b s'" using assms(1) nx(1) ul len(1)
      by (auto simp: wf_tx_def s'_def s1_def upd_tx_def N_TXDESC_def word_le_nat_alt)
    have d': "tx_descs s' = (tx_descs s)(?i := (tx_descs s ?i)\<lparr>tx_length := ucast len,
        tx_cmd := tx_cmd (tx_descs s ?i) OR (E1000_TX_CMD_RS OR E1000_TX_CMD_EOP),
        tx_status := tx_status (tx_descs s ?i) AND NOT E1000_TX_STATUS_DD\<rparr>)" "tx_descs s1 = tx_descs s"
      by (simp_all add: s'_def s1_def upd_tx_def)
    have fr: "frames s' = frames s1" by (simp add: s'_def upd_tx_def)
    note load = phys_cong(1) [OF fr] and byte = phys_cong(2) [OF fr]
    have other: "tx_packet s' j = tx_packet s j" if "j < N_TXDESC" "j \<noteq> ?i" for j
    proof -
      have "tx_packet s' j = tx_packet s1 j"
        using that(2) load by (simp add: tx_packet_def d')
      with tx_packet_store [OF assms(1) ht(2) that(1), of bs] len that(2) show ?thesis by (simp add: s1_def)
    qed
    have new: "tx_packet s' ?i = bs"
      using tx_packet_new [OF assms(1) ht(2), of bs] len ul
      by (simp add: tx_packet_def d' load s1_def)
    have "tx_queue s' = ring (tx_packet s') N_TXDESC (unat ?h) ((unat ?t + 1) mod N_TXDESC)"
      using nx(1) by (simp add: tx_queue_def s'_def)
    also have "\<dots> = ring ((tx_packet s)(?i := bs)) N_TXDESC (unat ?h) ((unat ?t + 1) mod N_TXDESC)"
      unfolding ring_def by (intro map_cong refl) (simp add: other new N_TXDESC_def)
    also have "\<dots> = tx_queue s @ [bs]"
    proof -
      have "length (tx_queue s) < N_TXDESC" by (simp add: tx_queue_def N_TXDESC_def)
      then have "length (tx_queue s) < N_TXDESC - 1" using ok by (simp add: N_TXDESC_def)
      then show ?thesis unfolding tx_queue_def by (rule ring_push [OF ht])
    qed
    finally have "tx_queue s' = tx_queue s @ [bs]" .
    moreover have "phys_byte s' a = phys_byte s a" if "a < unat b \<or> unat b + 1520 * N_TXDESC \<le> a" for a
    proof -
      have "\<not> (unat ?pa \<le> a \<and> a < unat ?pa + length bs)"
        using that buf len ht(2) by (auto simp: N_TXDESC_def)
      then show ?thesis using buf len unfolding byte s1_def by (subst phys_store_bytes_eq) auto
    qed
    ultimately show ?thesis using False ok eq wf by simp
  qed
qed

theorem e1000_tx_queues_witness:
  "wf_tx 0x10000 card_ready \<and> va_load_bytes 0x5000 2 card_ready = Ok [0, 0]
     \<and> (\<exists>s'. e1000_tx 0x5000 2 card_ready = Ok (2, s') \<and> tx_queue s' = [[0, 0]])"
proof -
  have wf: "wf_tx 0x10000 card_ready"
    by (simp add: wf_tx_def card_ready_def mapped_page_def bss_kstate_def zero_nic_def zero_tx_desc_def N_TXDESC_def)
  have slot: "slot card_ready 2 = slot mapped_page 2" by (intro ext) (simp add: slot_def tab_def card_ready_def)
  have f3: "PGNUM 0x3007 = 3" "frames card_ready 3 = (\<lambda>_. 0)" "cr3 card_ready = 2"
    by (simp_all add: PGNUM_div card_ready_def mapped_page_def)
  have ld8: "va_load8 va card_ready = Ok 0" if "PDX va = 0" "PTX va = 5" for va
    using that mapped_page_vm(3) by (simp add: va_load8_def translate_def slot f3 frame_byte_def get_byte_def)
  have "PDX 0x5000 = 0" "PTX 0x5000 = 5" "PDX 0x5001 = 0" "PTX 0x5001 = 5" by (simp_all add: PDX_def PTX_def)
  then have "va_load_bytes 0x5000 (Suc (Suc 0)) card_ready = Ok [0, 0]" by (simp add: ld8)
  then have ld: "va_load_bytes 0x5000 2 card_ready = Ok [0, 0]" by (simp only: numeral_2_eq_2)
  have "tx_queue card_ready = []" "tx_status (tx_descs card_ready (unat (TDT (base card_ready)))) AND E1000_TX_STATUS_DD \<noteq> 0"
    by (simp_all add: tx_queue_def ring_def card_ready_def mapped_page_def bss_kstate_def zero_nic_def
      N_TXDESC_def E1000_TX_STATUS_DD_def)
  moreover have "va_load_bytes 0x5000 (unat (2 :: u32)) card_ready = Ok [0, 0]" using ld by simp
  ultimately show ?thesis using e1000_tx_queues [OF wf] ld wf by fastforce
qed

text \<open>
  The clock is exact until it would overflow: \<open>n\<close> ticks after \<open>time_init\<close>, \<open>time_msec\<close> is
  \<open>10 * n\<close> without wrap-around, for every \<open>n\<close> with \<open>10 * n < 2^32\<close>; the first tick at which the
  product does not fit panics.
\<close>

theorem time_exact:
  "(10 * n < 2 ^ 32 \<longrightarrow> (\<exists>s'. fold_res (\<lambda>_. time_tick) [0..<n] (time_init s) = Ok s' \<and> unat (time_msec s') = 10 * n))
   \<and> (10 * n < 2 ^ 32 \<and> 2 ^ 32 \<le> 10 * Suc n \<longrightarrow>
        fold_res (\<lambda>_. time_tick) [0..<Suc n] (time_init s) = Panic Time_overflow)"
proof (intro conjI impI)
  assume n: "10 * n < 2 ^ 32"
  then have "unat (of_nat n * 10 :: u32) = 10 * n" by (simp add: unat_word_ariths unat_of_nat)
  then show "\<exists>s'. fold_res (\<lambda>_. time_tick) [0..<n] (time_init s) = Ok s' \<and> unat (time_msec s') = 10 * n"
    using time_tick_steps [OF n, of s] by (simp add: time_msec_def)
next
  assume n: "10 * n < 2 ^ 32 \<and> 2 ^ 32 \<le> 10 * Suc n"
  then have "n = 429496729" by simp
  then have "(of_nat n + 1) * 10 < (of_nat n + 1 :: u32)" by simp
  then have "time_tick (s\<lparr>ticks := of_nat n\<rparr>) = Panic Time_overflow" by (simp add: time_tick_def)
  moreover have "fold_res (\<lambda>_. time_tick) [0..<n] (time_init s) = Ok (s\<lparr>ticks := of_nat n\<rparr>)"
    using n by (intro time_tick_steps) simp
  ultimately show "fold_res (\<lambda>_. time_tick) [0..<Suc n] (time_init s) = Panic Time_overflow"
    by (simp add: fold_res_append)
qed

theorem time_exact_witness:
  "\<exists>s'. fold_res (\<lambda>_. time_tick) [0..<3] (time_init (bss_kstate 4 4)) = Ok s' \<and> unat (time_msec s') = 30"
  using time_exact [of 3 "bss_kstate 4 4"] by simp

end
