(* ===== verification/Syscall.thy ===== *)
theory Syscall
  imports Nic
begin

text \<open>
  The system calls of \<open>kern/syscall.c\<close>: one definition per \<open>sys_*\<close> function and the dispatcher
  \<open>syscall\<close>. A call may return a value, or leave the kernel for good when the calling environment
  is destroyed or gives up the CPU; both are outcomes of \<open>kout\<close>. Arguments are 32-bit words, as
  the trap frame holds them. The kernel's own messages (\<open>cprintf\<close>) are not modelled, but for the
  output of \<open>sys_cputs\<close>.
\<close>

section \<open>Definitions\<close>

text \<open>The call numbers of \<open>inc/syscall.h\<close>.\<close>

definition SYS_cputs :: u32 where "SYS_cputs = 0"
definition SYS_cgetc :: u32 where "SYS_cgetc = 1"
definition SYS_getenvid :: u32 where "SYS_getenvid = 2"
definition SYS_env_destroy :: u32 where "SYS_env_destroy = 3"
definition SYS_page_alloc :: u32 where "SYS_page_alloc = 4"
definition SYS_page_map :: u32 where "SYS_page_map = 5"
definition SYS_page_unmap :: u32 where "SYS_page_unmap = 6"
definition SYS_exofork :: u32 where "SYS_exofork = 7"
definition SYS_env_set_status :: u32 where "SYS_env_set_status = 8"
definition SYS_env_set_trapframe :: u32 where "SYS_env_set_trapframe = 9"
definition SYS_env_set_pgfault_upcall :: u32 where "SYS_env_set_pgfault_upcall = 10"
definition SYS_yield :: u32 where "SYS_yield = 11"
definition SYS_ipc_try_send :: u32 where "SYS_ipc_try_send = 12"
definition SYS_ipc_recv :: u32 where "SYS_ipc_recv = 13"
definition SYS_map_kernel_page :: u32 where "SYS_map_kernel_page = 14"
definition SYS_sbrk :: u32 where "SYS_sbrk = 15"
definition SYS_time_msec :: u32 where "SYS_time_msec = 16"
definition SYS_net_send :: u32 where "SYS_net_send = 17"
definition SYS_net_recv :: u32 where "SYS_net_recv = 18"

text \<open>Following a pointer to an environment, and calling \<open>envid2env\<close>.\<close>

definition deref_env :: "nat option \<Rightarrow> kstate \<Rightarrow> nat kout" where
  "deref_env p s = (case p of None \<Rightarrow> KPanic Null_curenv | Some e \<Rightarrow> KRet e s)"

definition lookup_env :: "u32 \<Rightarrow> bool \<Rightarrow> kstate \<Rightarrow> (int \<times> nat option) kout" where
  "lookup_env envid checkperm s =
     (case envid2env envid checkperm s of Ok r \<Rightarrow> KRet r s | Panic p \<Rightarrow> KPanic p)"

text \<open>
  The loop of \<open>vprintfmt\<close> for \<open>%.*s\<close>. It loads a character before it looks at the precision, and a
  negative precision does not limit it. With a precision the fuel is one more than it; without
  one the fuel covers the whole address space, in which the loop cannot come past the unmapped
  gaps between the kernel stacks.
\<close>

fun cputs_loop :: "nat \<Rightarrow> int \<Rightarrow> u32 \<Rightarrow> kstate \<Rightarrow> kstate kres" where
  "cputs_loop 0 precision p s = Panic Kernel_page_fault"
| "cputs_loop (Suc n) precision p s =
     bind_res (va_load8 p s) (\<lambda>b.
       if b = 0 then Ok s
       else if precision < 0 then cputs_loop n precision (p + 1) (s\<lparr>cons := cons_putc (sint b) (cons s)\<rparr>)
       else if precision - 1 \<ge> 0
       then cputs_loop n (precision - 1) (p + 1) (s\<lparr>cons := cons_putc (sint b) (cons s)\<rparr>)
       else Ok s)"

definition sys_cputs :: "u32 \<Rightarrow> u32 \<Rightarrow> kstate \<Rightarrow> unit kout" where
  "sys_cputs p len s =
     bind_out (deref_env (curenv s) s) (\<lambda>c s.
     bind_out (user_mem_assert c p len 0 s) (\<lambda>_ s.
       out_of_state (cputs_loop (if sint len < 0 then 2 ^ 32 else Suc (unat len)) (sint len) p s)))"

definition sys_cgetc :: "kstate \<Rightarrow> int kout" where
  "sys_cgetc s = (let (ch, c) = cons_getc (cons s) in KRet ch (s\<lparr>cons := c\<rparr>))"

definition sys_getenvid :: "kstate \<Rightarrow> int kout" where
  "sys_getenvid s = bind_out (deref_env (curenv s) s) (\<lambda>c s. KRet (sint (env_id (envs s c))) s)"

definition sys_env_destroy :: "u32 \<Rightarrow> kstate \<Rightarrow> int kout" where
  "sys_env_destroy envid s =
     bind_out (lookup_env envid True s) (\<lambda>(r, e) s.
       if r < 0 then KRet r s
       else bind_out (deref_env e s) (\<lambda>e s. bind_out (env_destroy e s) (\<lambda>_ s. KRet 0 s)))"

definition sys_yield :: "kstate \<Rightarrow> int kout" where
  "sys_yield s = sched_yield s"

definition sys_exofork :: "kstate \<Rightarrow> int kout" where
  "sys_exofork s =
     bind_out (deref_env (curenv s) s) (\<lambda>c s.
     bind_out (out_of (env_alloc (env_id (envs s c)) s)) (\<lambda>(ret, e) s.
       if ret < 0 then KRet ret s
       else bind_out (deref_env e s) (\<lambda>e s.
         let s = upd_env e (\<lambda>v. v\<lparr>env_status := ENV_NOT_RUNNABLE\<rparr>) s;
             s = upd_env e (\<lambda>v. v\<lparr>env_tf := env_tf (envs s c)\<rparr>) s;
             s = upd_env e (\<lambda>v. v\<lparr>env_tf := (env_tf v)\<lparr>tf_regs := (tf_regs (env_tf v))\<lparr>reg_eax := 0\<rparr>\<rparr>\<rparr>) s
         in KRet (sint (env_id (envs s e))) s)))"

text \<open>The numbers of \<open>ENV_RUNNABLE\<close> and \<open>ENV_NOT_RUNNABLE\<close> are 2 and 4.\<close>

definition sys_env_set_status :: "u32 \<Rightarrow> u32 \<Rightarrow> kstate \<Rightarrow> int kout" where
  "sys_env_set_status envid status s =
     (if status \<noteq> 2 \<and> status \<noteq> 4 then KRet (- E_INVAL) s
      else bind_out (lookup_env envid True s) (\<lambda>(r, e) s.
        if r < 0 then KRet (- E_BAD_ENV) s
        else bind_out (deref_env e s) (\<lambda>e s.
          KRet 0 (upd_env e (\<lambda>v. v\<lparr>env_status :=
            (if status = 2 then ENV_RUNNABLE else ENV_NOT_RUNNABLE)\<rparr>) s))))"

text \<open>\<open>struct Trapframe\<close> in memory: 68 bytes.\<close>

definition trapframe_of :: "u8 list \<Rightarrow> Trapframe" where
  "trapframe_of bs = \<lparr>
     tf_regs = \<lparr>reg_edi = le32 bs 0, reg_esi = le32 bs 4, reg_ebp = le32 bs 8, reg_oesp = le32 bs 12,
       reg_ebx = le32 bs 16, reg_edx = le32 bs 20, reg_ecx = le32 bs 24, reg_eax = le32 bs 28\<rparr>,
     tf_es = le16 bs 32, tf_ds = le16 bs 36, tf_trapno = le32 bs 40, tf_err = le32 bs 44,
     tf_eip = le32 bs 48, tf_cs = le16 bs 52, tf_eflags = le32 bs 56, tf_esp = le32 bs 60,
     tf_ss = le16 bs 64\<rparr>"

definition sys_env_set_trapframe :: "u32 \<Rightarrow> u32 \<Rightarrow> kstate \<Rightarrow> int kout" where
  "sys_env_set_trapframe envid tf s =
     bind_out (lookup_env envid True s) (\<lambda>(ret, e) s.
       if ret < 0 then KRet ret s
       else bind_out (deref_env e s) (\<lambda>e s.
            bind_out (user_mem_assert e tf 68 PTE_W s) (\<lambda>_ s.
              case va_load_bytes tf 68 s of
                Panic p \<Rightarrow> KPanic p
              | Ok bs \<Rightarrow>
                  let s = upd_env e (\<lambda>v. v\<lparr>env_tf := trapframe_of bs\<rparr>) s;
                      s = upd_env e (\<lambda>v. v\<lparr>env_tf := (env_tf v)\<lparr>tf_cs := GD_UT OR 3\<rparr>\<rparr>) s;
                      s = upd_env e (\<lambda>v. v\<lparr>env_tf := (env_tf v)\<lparr>tf_eflags := tf_eflags (env_tf v) OR FL_IF\<rparr>\<rparr>) s;
                      s = upd_env e (\<lambda>v. v\<lparr>env_tf := (env_tf v)\<lparr>tf_eflags := tf_eflags (env_tf v) AND FL_IOPL_0\<rparr>\<rparr>) s
                  in KRet 0 s)))"

definition sys_env_set_pgfault_upcall :: "u32 \<Rightarrow> u32 \<Rightarrow> kstate \<Rightarrow> int kout" where
  "sys_env_set_pgfault_upcall envid func s =
     bind_out (lookup_env envid True s) (\<lambda>(ret, e) s.
       if ret < 0 then KRet ret s
       else bind_out (deref_env e s) (\<lambda>e s.
         KRet 0 (upd_env e (\<lambda>v. v\<lparr>env_pgfault_upcall := func\<rparr>) s)))"

definition bad_perm :: "u32 \<Rightarrow> bool" where
  "bad_perm perm \<longleftrightarrow> perm AND (PTE_U OR PTE_P) \<noteq> PTE_U OR PTE_P \<or> perm AND NOT PTE_SYSCALL \<noteq> 0"

definition sys_page_alloc :: "u32 \<Rightarrow> u32 \<Rightarrow> u32 \<Rightarrow> kstate \<Rightarrow> int kout" where
  "sys_page_alloc envid va perm s =
     (if va \<ge> UTOP \<or> va mod PGSIZE \<noteq> 0 then KRet (- E_INVAL) s
      else if bad_perm perm then KRet (- E_INVAL) s
      else bind_out (out_of (page_alloc ALLOC_ZERO s)) (\<lambda>pi s.
        case pi of
          None \<Rightarrow> KRet (- E_NO_MEM) s
        | Some pi \<Rightarrow>
            bind_out (lookup_env envid True s) (\<lambda>(r, e) s.
              if r < 0 then KRet (- E_BAD_ENV) s
              else bind_out (deref_env e s) (\<lambda>e s.
                   bind_out (out_of (page_insert (env_pgdir (envs s e)) pi va perm s)) (\<lambda>r s.
                     if r < 0 then bind_out (out_of_state (page_free pi s)) (\<lambda>_ s. KRet (- E_NO_MEM) s)
                     else KRet 0 s)))))"

definition sys_page_map :: "u32 \<Rightarrow> u32 \<Rightarrow> u32 \<Rightarrow> u32 \<Rightarrow> u32 \<Rightarrow> kstate \<Rightarrow> int kout" where
  "sys_page_map srcenvid srcva dstenvid dstva perm s =
     bind_out (lookup_env srcenvid True s) (\<lambda>(r1, src_env) s.
       if r1 < 0 then KRet (- E_BAD_ENV) s
       else bind_out (lookup_env dstenvid True s) (\<lambda>(r2, dst_env) s.
         if r2 < 0 then KRet (- E_BAD_ENV) s
         else if srcva \<ge> UTOP \<or> PGOFF srcva \<noteq> 0 \<or> dstva \<ge> UTOP \<or> PGOFF dstva \<noteq> 0
         then KRet (- E_INVAL) s
         else bind_out (deref_env src_env s) (\<lambda>src_env s.
              bind_out (out_of (page_lookup (env_pgdir (envs s src_env)) srcva s)) (\<lambda>found s.
                case found of
                  None \<Rightarrow> KRet (- E_INVAL) s
                | Some (pi, src_pte) \<Rightarrow>
                    if perm AND PTE_W \<noteq> 0 \<and> load_pte s src_pte AND PTE_W = 0 then KRet (- E_INVAL) s
                    else if bad_perm perm then KRet (- E_INVAL) s
                    else bind_out (deref_env dst_env s) (\<lambda>dst_env s.
                         bind_out (out_of (page_insert (env_pgdir (envs s dst_env)) pi dstva perm s)) (\<lambda>r s.
                           if r < 0 then KRet (- E_NO_MEM) s else KRet 0 s))))))"

definition sys_page_unmap :: "u32 \<Rightarrow> u32 \<Rightarrow> kstate \<Rightarrow> int kout" where
  "sys_page_unmap envid va s =
     bind_out (lookup_env envid True s) (\<lambda>(r, e) s.
       if r < 0 then KRet (- E_BAD_ENV) s
       else if va \<ge> UTOP \<or> PGOFF va \<noteq> 0 then KRet (- E_INVAL) s
       else bind_out (deref_env e s) (\<lambda>e s.
            bind_out (out_of_state (page_remove (env_pgdir (envs s e)) va s)) (\<lambda>_ s. KRet 0 s)))"

text \<open>The assignments that complete a send: the receiver \<open>e\<close> becomes runnable with result 0.\<close>

definition ipc_deliver :: "nat \<Rightarrow> nat \<Rightarrow> u32 \<Rightarrow> u32 \<Rightarrow> kstate \<Rightarrow> kstate" where
  "ipc_deliver c e val perm s =
     upd_env e (\<lambda>v. v\<lparr>env_ipc_recving := False, env_ipc_from := env_id (envs s c),
       env_ipc_value := val, env_ipc_perm := perm, env_status := ENV_RUNNABLE,
       env_tf := (env_tf v)\<lparr>tf_regs := (tf_regs (env_tf v))\<lparr>reg_eax := 0\<rparr>\<rparr>\<rparr>) s"

definition sys_ipc_try_send :: "u32 \<Rightarrow> u32 \<Rightarrow> u32 \<Rightarrow> u32 \<Rightarrow> kstate \<Rightarrow> int kout" where
  "sys_ipc_try_send envid val srcva perm s =
     bind_out (lookup_env envid False s) (\<lambda>(ret, e) s.
       if ret < 0 then KRet ret s
       else bind_out (deref_env e s) (\<lambda>e s.
         if \<not> env_ipc_recving (envs s e) then KRet (- E_IPC_NOT_RECV) s
         else bind_out (deref_env (curenv s) s) (\<lambda>c s.
           if srcva < UTOP
           then if PGOFF srcva \<noteq> 0 then KRet (- E_INVAL) s
                else if perm AND PTE_U = 0 \<or> perm AND PTE_P = 0 \<or> perm AND NOT PTE_SYSCALL \<noteq> 0
                then KRet (- E_INVAL) s
                else bind_out (out_of (page_lookup (env_pgdir (envs s c)) srcva s)) (\<lambda>found s.
                  case found of
                    None \<Rightarrow> KRet (- E_INVAL) s
                  | Some (pp, pte) \<Rightarrow>
                      if perm AND PTE_W \<noteq> 0 \<and> load_pte s pte AND PTE_W = 0 then KRet (- E_INVAL) s
                      else bind_out (out_of (page_insert (env_pgdir (envs s e)) pp
                                               (env_ipc_dstva (envs s e)) perm s)) (\<lambda>r s.
                        if r < 0 then KRet (- E_NO_MEM) s else KRet 0 (ipc_deliver c e val perm s)))
           else KRet 0 (ipc_deliver c e val perm s))))"

definition sys_ipc_recv :: "u32 \<Rightarrow> kstate \<Rightarrow> int kout" where
  "sys_ipc_recv dstva s =
     (if dstva < UTOP \<and> PGOFF dstva \<noteq> 0 then KRet (- E_INVAL) s
      else bind_out (deref_env (curenv s) s) (\<lambda>c s.
        sched_yield (upd_env c (\<lambda>v. v\<lparr>env_ipc_recving := True, env_ipc_dstva := dstva,
          env_status := ENV_NOT_RUNNABLE\<rparr>) s)))"

definition sys_map_kernel_page :: "u32 \<Rightarrow> u32 \<Rightarrow> kstate \<Rightarrow> int kout" where
  "sys_map_kernel_page kpage va s =
     (case bind_res (PADDR kpage) (\<lambda>pa. pa2page pa s) of
        Panic p \<Rightarrow> KPanic p
      | Ok p \<Rightarrow>
          bind_out (deref_env (curenv s) s) (\<lambda>c s.
            out_of (page_insert (env_pgdir (envs s c)) p va (PTE_U OR PTE_W) s)))"

text \<open>
  \<open>sys_sbrk\<close>. The number of pages is a signed quotient, so a negative distance gives no round. The
  result of \<open>page_insert\<close> is ignored.
\<close>

definition sbrk_page :: "nat \<Rightarrow> u32 \<Rightarrow> nat \<Rightarrow> kstate \<Rightarrow> kstate kres" where
  "sbrk_page c va_start i s =
     bind_res (page_alloc ALLOC_ZERO s) (\<lambda>(nPage, s).
       case nPage of
         None \<Rightarrow> Panic Sbrk_alloc_failed
       | Some pp \<Rightarrow>
           bind_res (page_insert (env_pgdir (envs s c)) pp (va_start + of_nat i * PGSIZE) (PTE_U OR PTE_W) s)
             (\<lambda>(_, s). Ok s))"

definition sys_sbrk :: "u32 \<Rightarrow> kstate \<Rightarrow> int kout" where
  "sys_sbrk inc s =
     bind_out (deref_env (curenv s) s) (\<lambda>c s.
       let va_start = ROUNDDOWN (env_break (envs s c) - inc) PGSIZE;
           va_end = ROUNDUP (va_start + inc) PGSIZE;
           rounds = nat (sint (va_end - va_start) div 4096)
       in bind_out (out_of_state (fold_res (sbrk_page c va_start) [0..<rounds] s)) (\<lambda>_ s.
            let s = upd_env c (\<lambda>v. v\<lparr>env_break := ROUNDDOWN (env_break v - inc) PGSIZE\<rparr>) s
            in KRet (sint (env_break (envs s c))) s))"

definition sys_time_msec :: "kstate \<Rightarrow> int kout" where
  "sys_time_msec s = KRet (sint (time_msec s)) s"

definition sys_net_send :: "u32 \<Rightarrow> u32 \<Rightarrow> kstate \<Rightarrow> int kout" where
  "sys_net_send buf len s =
     bind_out (deref_env (curenv s) s) (\<lambda>c s.
     bind_out (out_of (user_mem_check c buf len (PTE_U OR PTE_P) s)) (\<lambda>ret_chk s.
       if ret_chk < 0 then KRet ret_chk s else out_of (e1000_tx buf len s)))"

definition sys_net_recv :: "u32 \<Rightarrow> u32 \<Rightarrow> kstate \<Rightarrow> int kout" where
  "sys_net_recv buf len s =
     bind_out (deref_env (curenv s) s) (\<lambda>c s.
     bind_out (out_of (user_mem_check c buf len (PTE_U OR PTE_P OR PTE_W) s)) (\<lambda>ret_chk s.
       if ret_chk < 0 then KRet ret_chk s else out_of (e1000_rx buf len s)))"

definition syscall :: "u32 \<Rightarrow> u32 \<Rightarrow> u32 \<Rightarrow> u32 \<Rightarrow> u32 \<Rightarrow> u32 \<Rightarrow> kstate \<Rightarrow> int kout" where
  "syscall syscallno a1 a2 a3 a4 a5 s =
     (if syscallno = SYS_cputs then bind_out (sys_cputs a1 a2 s) (\<lambda>_ s. KRet 0 s)
      else if syscallno = SYS_cgetc then sys_cgetc s
      else if syscallno = SYS_getenvid then sys_getenvid s
      else if syscallno = SYS_env_destroy then sys_env_destroy a1 s
      else if syscallno = SYS_sbrk then sys_sbrk a1 s
      else if syscallno = SYS_map_kernel_page then sys_map_kernel_page a1 a2 s
      else if syscallno = SYS_yield then sched_yield s
      else if syscallno = SYS_exofork then sys_exofork s
      else if syscallno = SYS_env_set_status then sys_env_set_status a1 a2 s
      else if syscallno = SYS_page_alloc then sys_page_alloc a1 a2 a3 s
      else if syscallno = SYS_page_map then sys_page_map a1 a2 a3 a4 a5 s
      else if syscallno = SYS_page_unmap then sys_page_unmap a1 a2 s
      else if syscallno = SYS_env_set_pgfault_upcall then sys_env_set_pgfault_upcall a1 a2 s
      else if syscallno = SYS_ipc_try_send then sys_ipc_try_send a1 a2 a3 a4 s
      else if syscallno = SYS_ipc_recv then sys_ipc_recv a1 s
      else if syscallno = SYS_env_set_trapframe then sys_env_set_trapframe a1 a2 s
      else if syscallno = SYS_time_msec then sys_time_msec s
      else if syscallno = SYS_net_send then sys_net_send a1 a2 s
      else if syscallno = SYS_net_recv then sys_net_recv a1 a2 s
      else KRet (- E_INVAL) s)"

end
