(* ===== verification/Trap.thy ===== *)
theory Trap
  imports Syscall
begin

text \<open>
  Traps, after \<open>kern/trap.c\<close> and the entry points of \<open>kern/trapentry.S\<close>: the interrupt descriptor
  table, the dispatcher, the delivery of page faults to user mode. The registers \<open>eflags\<close> and
  \<open>cr2\<close> are arguments. A breakpoint enters the kernel monitor, whose commands all return 0, so that
  it never returns. Not modelled: taking the kernel lock (see the spin lock), printing of trap
  frames, acknowledging interrupts at the local APIC, and halting when another CPU has panicked.
\<close>

section \<open>Trap numbers and the descriptor table\<close>

definition T_DIVIDE :: nat where "T_DIVIDE = 0"
definition T_DEBUG :: nat where "T_DEBUG = 1"
definition T_NMI :: nat where "T_NMI = 2"
definition T_BRKPT :: nat where "T_BRKPT = 3"
definition T_OFLOW :: nat where "T_OFLOW = 4"
definition T_BOUND :: nat where "T_BOUND = 5"
definition T_ILLOP :: nat where "T_ILLOP = 6"
definition T_DEVICE :: nat where "T_DEVICE = 7"
definition T_DBLFLT :: nat where "T_DBLFLT = 8"
definition T_TSS :: nat where "T_TSS = 10"
definition T_SEGNP :: nat where "T_SEGNP = 11"
definition T_STACK :: nat where "T_STACK = 12"
definition T_GPFLT :: nat where "T_GPFLT = 13"
definition T_PGFLT :: nat where "T_PGFLT = 14"
definition T_FPERR :: nat where "T_FPERR = 16"
definition T_ALIGN :: nat where "T_ALIGN = 17"
definition T_MCHK :: nat where "T_MCHK = 18"
definition T_SIMDERR :: nat where "T_SIMDERR = 19"
definition T_SYSCALL :: nat where "T_SYSCALL = 48"

definition IRQ_OFFSET :: nat where "IRQ_OFFSET = 32"
definition IRQ_TIMER :: nat where "IRQ_TIMER = 0"
definition IRQ_KBD :: nat where "IRQ_KBD = 1"
definition IRQ_SERIAL :: nat where "IRQ_SERIAL = 4"
definition IRQ_SPURIOUS :: nat where "IRQ_SPURIOUS = 7"
definition IRQ_IDE :: nat where "IRQ_IDE = 14"
definition IRQ_ERROR :: nat where "IRQ_ERROR = 19"

lemmas trap_defs = T_DIVIDE_def T_DEBUG_def T_NMI_def T_BRKPT_def T_OFLOW_def T_BOUND_def T_ILLOP_def
  T_DEVICE_def T_DBLFLT_def T_TSS_def T_SEGNP_def T_STACK_def T_GPFLT_def T_PGFLT_def T_FPERR_def
  T_ALIGN_def T_MCHK_def T_SIMDERR_def T_SYSCALL_def IRQ_OFFSET_def IRQ_TIMER_def IRQ_KBD_def
  IRQ_SERIAL_def IRQ_SPURIOUS_def IRQ_IDE_def IRQ_ERROR_def

text \<open>
  The entry points of \<open>kern/trapentry.S\<close>: the number that each pushes, and whether it pushes a 0
  in place of an error code (\<open>TRAPHANDLER_NOEC\<close>).
\<close>

datatype entry =
    divide_error | debug | non_maskable_interrupt | break_point | overflow | bound_range_exceeded
  | invalid_opcode | device_not_available | double_fault | invalid_tss | segment_not_present
  | stack_fault | general_protection | page_fault | fpu_floating_point_error | alignment_check
  | machine_check | floating_point_exception | system_call
  | ENTRY_IRQ_TIMER | ENTRY_IRQ_KBD | ENTRY_IRQ_2 | ENTRY_IRQ_3 | ENTRY_IRQ_SERIAL | ENTRY_IRQ_5
  | ENTRY_IRQ_6 | ENTRY_IRQ_SPURIOUS | ENTRY_IRQ_8 | ENTRY_IRQ_9 | ENTRY_IRQ_10 | ENTRY_IRQ_11
  | ENTRY_IRQ_12 | ENTRY_IRQ_13 | ENTRY_IRQ_IDE | ENTRY_IRQ_15 | ENTRY_IRQ_ERROR

fun traphandler :: "entry \<Rightarrow> nat \<times> bool" where
  "traphandler divide_error = (T_DIVIDE, True)"
| "traphandler debug = (T_DEBUG, True)"
| "traphandler non_maskable_interrupt = (T_NMI, True)"
| "traphandler break_point = (T_BRKPT, True)"
| "traphandler overflow = (T_OFLOW, True)"
| "traphandler bound_range_exceeded = (T_BOUND, True)"
| "traphandler invalid_opcode = (T_ILLOP, True)"
| "traphandler device_not_available = (T_DEVICE, True)"
| "traphandler double_fault = (T_DBLFLT, False)"
| "traphandler invalid_tss = (T_TSS, False)"
| "traphandler segment_not_present = (T_SEGNP, False)"
| "traphandler stack_fault = (T_STACK, False)"
| "traphandler general_protection = (T_GPFLT, False)"
| "traphandler page_fault = (T_PGFLT, False)"
| "traphandler fpu_floating_point_error = (T_FPERR, False)"
| "traphandler alignment_check = (T_ALIGN, False)"
| "traphandler machine_check = (T_MCHK, True)"
| "traphandler floating_point_exception = (T_SIMDERR, True)"
| "traphandler system_call = (T_SYSCALL, True)"
| "traphandler ENTRY_IRQ_TIMER = (IRQ_OFFSET + IRQ_TIMER, True)"
| "traphandler ENTRY_IRQ_KBD = (IRQ_OFFSET + IRQ_KBD, True)"
| "traphandler ENTRY_IRQ_2 = (IRQ_OFFSET + 2, True)"
| "traphandler ENTRY_IRQ_3 = (IRQ_OFFSET + 3, True)"
| "traphandler ENTRY_IRQ_SERIAL = (IRQ_OFFSET + IRQ_SERIAL, True)"
| "traphandler ENTRY_IRQ_5 = (IRQ_OFFSET + 5, True)"
| "traphandler ENTRY_IRQ_6 = (IRQ_OFFSET + 6, True)"
| "traphandler ENTRY_IRQ_SPURIOUS = (IRQ_OFFSET + IRQ_SPURIOUS, True)"
| "traphandler ENTRY_IRQ_8 = (IRQ_OFFSET + 8, True)"
| "traphandler ENTRY_IRQ_9 = (IRQ_OFFSET + 9, True)"
| "traphandler ENTRY_IRQ_10 = (IRQ_OFFSET + 10, True)"
| "traphandler ENTRY_IRQ_11 = (IRQ_OFFSET + 11, True)"
| "traphandler ENTRY_IRQ_12 = (IRQ_OFFSET + 12, True)"
| "traphandler ENTRY_IRQ_13 = (IRQ_OFFSET + 13, True)"
| "traphandler ENTRY_IRQ_IDE = (IRQ_OFFSET + IRQ_IDE, True)"
| "traphandler ENTRY_IRQ_15 = (IRQ_OFFSET + 15, True)"
| "traphandler ENTRY_IRQ_ERROR = (IRQ_OFFSET + IRQ_ERROR, True)"

text \<open>
  \<open>trap_init\<close> fills the table: vector, entry point and descriptor privilege level of every gate.
  All gates are interrupt gates (\<open>istrap\<close> 0) into the kernel text segment.
\<close>

definition trap_init :: "(nat \<times> entry \<times> nat) list" where
  "trap_init = [
     (T_DIVIDE, divide_error, 0), (T_DEBUG, debug, 0), (T_NMI, non_maskable_interrupt, 0),
     (T_BRKPT, break_point, 3), (T_OFLOW, overflow, 3), (T_BOUND, bound_range_exceeded, 3),
     (T_ILLOP, invalid_opcode, 0), (T_DEVICE, device_not_available, 0), (T_DBLFLT, double_fault, 0),
     (T_TSS, invalid_tss, 0), (T_SEGNP, segment_not_present, 0), (T_STACK, stack_fault, 0),
     (T_GPFLT, general_protection, 0), (T_PGFLT, page_fault, 0),
     (T_FPERR, fpu_floating_point_error, 0), (T_ALIGN, alignment_check, 0), (T_MCHK, machine_check, 0),
     (T_SIMDERR, floating_point_exception, 0), (T_SYSCALL, system_call, 3),
     (IRQ_OFFSET + IRQ_TIMER, ENTRY_IRQ_TIMER, 0), (IRQ_OFFSET + IRQ_KBD, ENTRY_IRQ_KBD, 0),
     (IRQ_OFFSET + 2, ENTRY_IRQ_2, 0), (IRQ_OFFSET + 3, ENTRY_IRQ_3, 0),
     (IRQ_OFFSET + IRQ_SERIAL, ENTRY_IRQ_SERIAL, 0), (IRQ_OFFSET + 5, ENTRY_IRQ_5, 0),
     (IRQ_OFFSET + 6, ENTRY_IRQ_6, 0), (IRQ_OFFSET + IRQ_SPURIOUS, ENTRY_IRQ_SPURIOUS, 0),
     (IRQ_OFFSET + 8, ENTRY_IRQ_8, 0), (IRQ_OFFSET + 9, ENTRY_IRQ_9, 0),
     (IRQ_OFFSET + 10, ENTRY_IRQ_10, 0), (IRQ_OFFSET + 11, ENTRY_IRQ_11, 0),
     (IRQ_OFFSET + 12, ENTRY_IRQ_12, 0), (IRQ_OFFSET + 13, ENTRY_IRQ_13, 0),
     (IRQ_OFFSET + IRQ_IDE, ENTRY_IRQ_IDE, 0), (IRQ_OFFSET + 15, ENTRY_IRQ_15, 0),
     (IRQ_OFFSET + IRQ_ERROR, ENTRY_IRQ_ERROR, 0)]"

definition idt :: "nat \<Rightarrow> (entry \<times> nat) option" where
  "idt = map_of trap_init"

definition excnames :: "string list" where
  "excnames = [''Divide error'', ''Debug'', ''Non-Maskable Interrupt'', ''Breakpoint'', ''Overflow'',
     ''BOUND Range Exceeded'', ''Invalid Opcode'', ''Device Not Available'', ''Double Fault'',
     ''Coprocessor Segment Overrun'', ''Invalid TSS'', ''Segment Not Present'', ''Stack Fault'',
     ''General Protection'', ''Page Fault'', ''(unknown trap)'', ''x87 FPU Floating-Point Error'',
     ''Alignment Check'', ''Machine-Check'', ''SIMD Floating-Point Exception'']"

definition trapname :: "nat \<Rightarrow> string" where
  "trapname trapno =
     (if trapno < length excnames then excnames ! trapno
      else if trapno = T_SYSCALL then ''System call''
      else if trapno \<ge> IRQ_OFFSET \<and> trapno < IRQ_OFFSET + 16 then ''Hardware Interrupt''
      else ''(unknown trap)'')"

section \<open>Handling a trap\<close>

text \<open>\<open>struct UTrapframe\<close> in memory: the fault, the registers, \<open>eip\<close>, \<open>eflags\<close> and \<open>esp\<close>; 52 bytes.\<close>

definition regs_bytes :: "PushRegs \<Rightarrow> u8 list" where
  "regs_bytes r = bytes_of32 (reg_edi r) @ bytes_of32 (reg_esi r) @ bytes_of32 (reg_ebp r)
     @ bytes_of32 (reg_oesp r) @ bytes_of32 (reg_ebx r) @ bytes_of32 (reg_edx r)
     @ bytes_of32 (reg_ecx r) @ bytes_of32 (reg_eax r)"

definition utrapframe_bytes :: "u32 \<Rightarrow> Trapframe \<Rightarrow> u8 list" where
  "utrapframe_bytes fault_va tf = bytes_of32 fault_va @ bytes_of32 (tf_err tf)
     @ regs_bytes (tf_regs tf) @ bytes_of32 (tf_eip tf) @ bytes_of32 (tf_eflags tf)
     @ bytes_of32 (tf_esp tf)"

definition utrapframe_addr :: "u32 \<Rightarrow> u32" where
  "utrapframe_addr esp =
     (if esp < UXSTACKTOP \<and> esp > UXSTACKTOP - PGSIZE then esp - 4 - 52 else UXSTACKTOP - 52)"

definition page_fault_handler :: "u32 \<Rightarrow> Trapframe \<Rightarrow> kstate \<Rightarrow> unit kout" where
  "page_fault_handler cr2 tf s =
     (if tf_cs tf AND 3 = 0 then KPanic Trap_kernel_page_fault
      else bind_out (deref_env (curenv s) s) (\<lambda>c s.
        if env_pgfault_upcall (envs s c) \<noteq> 0
        then
          let utf = utrapframe_addr (tf_esp tf)
          in bind_out (user_mem_assert c utf 52 PTE_W s) (\<lambda>_ s.
             bind_out (out_of_state (va_store_bytes utf (utrapframe_bytes cr2 tf) s)) (\<lambda>_ s.
               let s = upd_env c (\<lambda>v. v\<lparr>env_tf := (env_tf v)\<lparr>tf_eip := env_pgfault_upcall v, tf_esp := utf\<rparr>\<rparr>) s
               in env_run c s))
        else env_destroy c s))"

text \<open>
  \<open>tf\<close> points to the frame on the kernel stack, or to the copy in \<open>curenv->env_tf\<close> when the trap
  came from user mode; \<open>loc\<close> is the environment in the latter case.
\<close>

definition set_tf_eax :: "nat option \<Rightarrow> int \<Rightarrow> kstate \<Rightarrow> kstate" where
  "set_tf_eax loc r s = (case loc of None \<Rightarrow> s
     | Some c \<Rightarrow> upd_env c (\<lambda>v. v\<lparr>env_tf := (env_tf v)\<lparr>tf_regs := (tf_regs (env_tf v))\<lparr>reg_eax := word_of_int r\<rparr>\<rparr>\<rparr>) s)"

definition trap_dispatch :: "u32 \<Rightarrow> nat option \<Rightarrow> Trapframe \<Rightarrow> kstate \<Rightarrow> unit kout" where
  "trap_dispatch cr2 loc tf s =
     (let trapno = unat (tf_trapno tf); regs = tf_regs tf in
      if trapno = T_PGFLT then page_fault_handler cr2 tf s
      else if trapno = T_BRKPT then KMonitor s
      else if trapno = T_SYSCALL
      then bind_out (syscall (reg_eax regs) (reg_edx regs) (reg_ecx regs) (reg_ebx regs) (reg_edi regs)
                       (reg_esi regs) s)
             (\<lambda>r s. KRet () (set_tf_eax loc r s))
      else if trapno = IRQ_OFFSET + IRQ_SPURIOUS then KRet () s
      else if trapno = IRQ_OFFSET + IRQ_TIMER
      then bind_out (out_of_state (if cpunum s = 0 then time_tick s else Ok s)) (\<lambda>_ s. sched_yield s)
      else if trapno = IRQ_OFFSET + IRQ_KBD then KRet () (s\<lparr>cons := kbd_intr (cons s)\<rparr>)
      else if trapno = IRQ_OFFSET + IRQ_SERIAL then KRet () (s\<lparr>cons := serial_intr (cons s)\<rparr>)
      else if tf_cs tf = GD_KT then KPanic Trap_unhandled_kernel
      else bind_out (deref_env (curenv s) s) (\<lambda>c s. env_destroy c s))"

text \<open>
  The part of \<open>trap\<close> for a trap from user mode: a dying environment is freed, otherwise the frame
  is copied into the environment.
\<close>

definition trap_from_user :: "Trapframe \<Rightarrow> kstate \<Rightarrow> nat option kout" where
  "trap_from_user tf s =
     (case curenv s of
        None \<Rightarrow> KPanic Trap_no_curenv
      | Some c \<Rightarrow>
          bind_out (if env_status (envs s c) = ENV_DYING
                    then bind_out (out_of_state (env_free c s)) (\<lambda>_ s. sched_yield (set_curenv None s))
                    else KRet () s) (\<lambda>_ s.
            KRet (Some c) (upd_env c (\<lambda>v. v\<lparr>env_tf := tf\<rparr>) s)))"

definition trap :: "u32 \<Rightarrow> u32 \<Rightarrow> Trapframe \<Rightarrow> kstate \<Rightarrow> unit kout" where
  "trap eflags cr2 tf s =
     (let s = s\<lparr>cpus := (cpus s)(cpunum s := (cpus s (cpunum s))\<lparr>cpu_status := CPU_STARTED\<rparr>)\<rparr> in
      if eflags AND FL_IF \<noteq> 0 then KPanic Trap_interrupts_enabled
      else
        bind_out (if tf_cs tf AND 3 = 3 then trap_from_user tf s else KRet None s) (\<lambda>loc s.
        bind_out (trap_dispatch cr2 loc tf s) (\<lambda>_ s.
          case curenv s of
            Some c \<Rightarrow> if env_status (envs s c) = ENV_RUNNING then env_run c s else sched_yield s
          | None \<Rightarrow> sched_yield s)))"

end
