(* ===== verification/Syscall_Inv.thy ===== *)
theory Syscall_Inv
  imports Trap
begin

text \<open>
  Properties of the system calls: which address spaces the calls on pages may change, what a shared
  page is, message passing, and the calls that do not do what their documentation says.
\<close>

section \<open>Definitions\<close>

text \<open>The environments that \<open>c\<close> may act on: itself and its children.\<close>

definition controls :: "kstate \<Rightarrow> nat \<Rightarrow> nat \<Rightarrow> bool" where
  "controls s c x \<longleftrightarrow> x = c \<or> env_parent_id (envs s x) = env_id (envs s c)"

text \<open>
  From \<open>s\<close> to \<open>s'\<close> the kernel stays well-formed, no environment changes, and only address spaces of
  environments that \<open>c\<close> controls do.
\<close>

definition confined :: "kstate \<Rightarrow> nat \<Rightarrow> kstate \<Rightarrow> bool" where
  "confined s c s' \<longleftrightarrow> wf_kernel s' \<and> envs s' = envs s \<and> (\<forall>x d va. active s x \<and> \<not> controls s c x
     \<and> env_pgdir (envs s x) = Some d \<and> PDX va \<in> user_part \<longrightarrow> translate s' d va = translate s d va)"

section \<open>Page operations on a well-formed kernel\<close>

lemma user_va: "va < UTOP \<Longrightarrow> PDX va \<in> user_part"
proof -
  assume "va < UTOP"
  then have "unat va < 0xEEC00000" by (simp add: mmu_defs word_less_nat_alt)
  then have "unat va div 4194304 < 955" by (simp add: div_less_iff_less_mult)
  then show ?thesis by (simp add: user_part_eq PDX_div)
qed

lemma bad_perm_low12: "\<not> bad_perm perm \<Longrightarrow> low12 perm"
proof -
  assume "\<not> bad_perm perm"
  then have "perm AND NOT PTE_SYSCALL = 0" by (simp add: bad_perm_def)
  then have "bit (perm AND NOT PTE_SYSCALL) n \<longleftrightarrow> False" for n by simp
  then have "bit perm n \<Longrightarrow> bit PTE_SYSCALL n" for n
    by (metis bit_and_iff bit_not_iff bit_imp_possible_bit)
  moreover have "low12 PTE_SYSCALL" by (simp add: low12_unat mmu_defs)
  ultimately show ?thesis unfolding low12_iff by blast
qed

lemma wf_kernel_vm_step:
  assumes "wf_kernel s" "vm_frame s s'" "wf_vm user_part (all_dirs s) s'"
    "\<forall>i\<in>user_part. tab s' (kern_pgdir s) i = None"
  shows "wf_kernel s'" "all_dirs s' = all_dirs s" "active s' = active s"
proof -
  note fr = vm_frame_fields [OF assms(2)]
  show act: "active s' = active s" by (simp add: active_def fr fun_eq_iff)
  have "free_envs s' = free_envs s" by (simp add: free_envs_def fr fun_eq_iff)
  then have "wf_envs s' = wf_envs s" by (simp only: wf_envs_def act fr)
  moreover have dirs: "env_dirs s' = env_dirs s" by (simp add: env_dirs_def act fr)
  ultimately show "wf_kernel s'" "all_dirs s' = all_dirs s"
    using assms(1,3,4) by (simp_all add: wf_kernel_def all_dirs_def fr)
qed

lemma kernel_page_insert:
  assumes "wf_kernel s" "active s e" "env_pgdir (envs s e) = Some d" "va < UTOP"
    and "pp < npages s" "pp \<notin> all_dirs s \<union> tables user_part (all_dirs s) s" "pp \<notin> set (free_pages s)"
    and "low12 perm" "unat (pp_ref (pages s pp)) < 65535"
  shows "\<exists>r s'. page_insert (Some d) pp va perm s = Ok (r, s') \<and> wf_kernel s' \<and> vm_frame s s'
    \<and> all_dirs s' = all_dirs s \<and> active s' = active s
    \<and> (if tab s d (PDX va) = None \<and> free_pages s = [] then r = - E_NO_MEM \<and> s' = s
       else r = 0 \<and> (\<forall>d'\<in>all_dirs s. \<forall>va'. PDX va' \<in> user_part \<longrightarrow> translate s' d' va' =
            (if d' = d \<and> PGNUM va' = PGNUM va then Some (page2pa pp OR perm OR PTE_P)
             else translate s d' va')))"
proof -
  have wf: "wf_vm user_part (all_dirs s) s" "kern_pgdir s \<notin> env_dirs s" "\<forall>i\<in>user_part. tab s (kern_pgdir s) i = None"
    using assms(1) by (simp_all add: wf_kernel_def)
  have d: "d \<in> all_dirs s" "d \<noteq> kern_pgdir s" "kern_pgdir s \<in> all_dirs s"
    using assms(2,3) wf(2) by (auto simp: all_dirs_def env_dirs_def)
  note va = user_va [OF assms(4)]
  show ?thesis
  proof (cases "tab s d (PDX va) = None \<and> free_pages s = []")
    case True
    then show ?thesis using page_insert_no_mem [OF wf(1) d(1) va] assms(1) by simp
  next
    case False
    obtain s' where s': "page_insert (Some d) pp va perm s = Ok (0, s')" "wf_vm user_part (all_dirs s) s'"
      "\<forall>d'\<in>all_dirs s. \<forall>i'\<in>user_part. \<forall>j'. slot s' d' i' j' = (if d' = d \<and> i' = PDX va \<and> j' = PTX va
         then Some (page2pa pp OR perm OR PTE_P) else slot s d' i' j')"
      "\<forall>d'\<in>all_dirs s. \<forall>i'\<in>user_part. d' \<noteq> d \<longrightarrow> tab s' d' i' = tab s d' i'"
    proof (cases "tab s d (PDX va)")
      case None
      with False obtain p ps where "free_pages s = p # ps" by (cases "free_pages s") auto
      from page_insert_new_table [OF wf(1) d(1) va None this assms(5-9)] that show thesis by metis
    next
      case (Some t)
      from page_insert_old_table [OF wf(1) d(1) va Some assms(5-9)] that show thesis by metis
    qed
    have fr: "vm_frame s s'" using s'(1) by (rule page_insert_frame)
    have "\<forall>i\<in>user_part. tab s' (kern_pgdir s) i = None" using s'(4) wf(3) d by auto
    note st = wf_kernel_vm_step [OF assms(1) fr s'(2) this]
    show ?thesis unfolding if_not_P [OF False] using s'(1,3) fr st by (simp add: translate_def PDX_PTX_PGNUM)
  qed
qed

lemma kernel_page_remove:
  assumes "wf_kernel s" "active s e" "env_pgdir (envs s e) = Some d" "va < UTOP"
  shows "\<exists>s'. page_remove (Some d) va s = Ok s' \<and> wf_kernel s' \<and> vm_frame s s'
    \<and> all_dirs s' = all_dirs s \<and> active s' = active s
    \<and> (\<forall>d'\<in>all_dirs s. \<forall>va'. PDX va' \<in> user_part \<longrightarrow> translate s' d' va' =
         (if d' = d \<and> PGNUM va' = PGNUM va then None else translate s d' va'))"
proof -
  have wf: "wf_vm user_part (all_dirs s) s" "\<forall>i\<in>user_part. tab s (kern_pgdir s) i = None"
    using assms(1) by (simp_all add: wf_kernel_def)
  have d: "d \<in> all_dirs s" "kern_pgdir s \<in> all_dirs s" using assms(2,3) by (auto simp: all_dirs_def env_dirs_def)
  obtain s' where s': "page_remove (Some d) va s = Ok s'" "vm_update user_part (all_dirs s) d (PDX va) (PTX va) None s s'"
    by (rule page_remove_spec [OF wf(1) d(1) user_va [OF assms(4)]])
  have fr: "vm_frame s s'" using s'(1) by (rule page_remove_frame)
  have "wf_vm user_part (all_dirs s) s'" "\<forall>i\<in>user_part. tab s' (kern_pgdir s) i = None"
    using s'(2) wf(2) d by (simp_all add: vm_update_def)
  note st = wf_kernel_vm_step [OF assms(1) fr this]
  show ?thesis using s' fr st by (simp add: vm_update_def translate_def PDX_PTX_PGNUM)
qed

text \<open>A page off the free list.\<close>

lemma kernel_taken_page:
  assumes "wf_kernel s" "free_pages s = p # ps"
  defines "s' \<equiv> taken_page ALLOC_ZERO p s"
  shows "page_alloc ALLOC_ZERO s = Ok (Some p, s')" "wf_kernel s'" "vm_frame s s'" "all_dirs s' = all_dirs s"
    "active s' = active s" "p < npages s'" "p \<notin> all_dirs s' \<union> tables user_part (all_dirs s') s'"
    "free_pages s' = ps" "p \<notin> set (free_pages s')" "pp_ref (pages s' p) = 0"
    "\<forall>d\<in>all_dirs s. \<forall>va. PDX va \<in> user_part \<longrightarrow> translate s' d va = translate s d va" "frames s' p = (\<lambda>_. 0)"
proof -
  have wf: "wf_vm user_part (all_dirs s) s" "\<forall>i\<in>user_part. tab s (kern_pgdir s) i = None"
    using assms(1) by (simp_all add: wf_kernel_def)
  have wft: "wf_tables user_part (all_dirs s) s" "wf_pages s" using wf(1) by (simp_all add: wf_vm_def wf_tables_def)
  show al: "page_alloc ALLOC_ZERO s = Ok (Some p, s')"
    using page_alloc_eq [OF wft(2)] assms(2) by (simp add: s'_def)
  show fr: "vm_frame s s'" using al by (rule page_alloc_frame)
  note tk = taken_page_wf [OF wft(2) assms(2), of ALLOC_ZERO, folded s'_def]
    and tt = taken_page_tables(1-4) [OF wft(1) assms(2), where flags = ALLOC_ZERO, folded s'_def]
    and tp = taken_page_tables(5,6) [OF wft(1) assms(2)]
  show fp: "free_pages s' = ps" by (rule tk(2))
  have fl: "free_list s (p # ps)" using wft(2) assms(2) by (simp add: wf_pages_def)
  have p: "p < npages s" "pp_ref (pages s p) = 0" "distinct (p # ps)"
    using fl free_list_distinct [OF fl] by (simp_all add: free_list_def)
  then show "p \<notin> set (free_pages s')" "p < npages s'" "pp_ref (pages s' p) = 0" "frames s' p = (\<lambda>_. 0)"
    by (simp_all add: fp) (simp_all add: s'_def ALLOC_ZERO_def)
  have "unat (pp_ref (pages s q)) \<le> unat (pp_ref (pages s' q))" for q using p(2) by (simp add: s'_def)
  moreover have "frames s' q = frames s q" if "q \<in> all_dirs s \<union> tables user_part (all_dirs s) s" for q
    using that tp by (auto simp: s'_def)
  moreover have "set (free_pages s') \<inter> (all_dirs s \<union> tables user_part (all_dirs s) s) = {}"
    using wft(1) assms(2) unfolding fp wf_tables_def by auto
  ultimately have vm: "wf_vm user_part (all_dirs s) s'"
    by (intro wf_vm_other [OF wf(1) tk(1)]) (simp_all add: s'_def)
  have "kern_pgdir s \<in> all_dirs s" by (simp add: all_dirs_def)
  then have "\<forall>i\<in>user_part. tab s' (kern_pgdir s) i = None" using tt(3) wf(2) by simp
  note st = wf_kernel_vm_step [OF assms(1) fr vm this]
  show "wf_kernel s'" "active s' = active s" by (rule st)+
  show dirs: "all_dirs s' = all_dirs s" by (rule st)
  show "p \<notin> all_dirs s' \<union> tables user_part (all_dirs s') s'" using tt(2) tp by (simp add: dirs)
  show "\<forall>d\<in>all_dirs s. \<forall>va. PDX va \<in> user_part \<longrightarrow> translate s' d va = translate s d va"
    using tt(4) by (simp add: translate_def)
qed

lemma active_pgdir: "wf_kernel s \<Longrightarrow> active s e \<Longrightarrow> \<exists>d. env_pgdir (envs s e) = Some d"
  by (auto simp: wf_kernel_def wf_envs_def)

lemma lookup_env_spec:
  assumes "wf_kernel s" "curenv s = Some c" "active s c"
  shows "lookup_env envid True s = KRet (- E_BAD_ENV, None) s
    \<or> (\<exists>e. lookup_env envid True s = KRet (0, Some e) s \<and> active s e \<and> controls s c e)"
proof (cases "envid = 0")
  case True
  then show ?thesis using assms by (simp add: lookup_env_def envid2env_def controls_def)
next
  case False
  let ?e = "ENVX envid"
  have "?e < NENV"
  proof -
    have "envid AND (1024 - 1) \<le> 1024 - 1" by (rule word_and_le1)
    then show ?thesis by (simp add: ENVX_def NENV_def word_le_nat_alt)
  qed
  then show ?thesis using False assms(2)
    by (auto simp: lookup_env_def envid2env_def Let_def controls_def active_def)
qed

lemma confined_refl: "wf_kernel s \<Longrightarrow> confined s c s"
  by (simp add: confined_def)

lemma other_dir:
  assumes "wf_kernel s" "active s e" "env_pgdir (envs s e) = Some d" "controls s c e"
    "active s x" "\<not> controls s c x" "env_pgdir (envs s x) = Some d'"
  shows "d' \<in> all_dirs s" "d' \<noteq> d"
proof -
  show "d' \<in> all_dirs s" using assms(5,7) by (auto simp: all_dirs_def env_dirs_def)
  have "e \<noteq> x" using assms(4,6) by auto
  then show "d' \<noteq> d" using assms(1,2,3,5,7) unfolding wf_kernel_def wf_envs_def by metis
qed

lemma confined_page_free:
  assumes "wf_kernel s" "p < npages s" "p \<notin> all_dirs s \<union> tables user_part (all_dirs s) s"
    "p \<notin> set (free_pages s)" "pp_ref (pages s p) = 0"
  shows "\<exists>s'. page_free p s = Ok s' \<and> confined s c s'"
proof -
  have wf: "wf_vm user_part (all_dirs s) s" "\<forall>i\<in>user_part. tab s (kern_pgdir s) i = None" "wf_pages s"
    using assms(1) by (simp_all add: wf_kernel_def wf_vm_def wf_tables_def)
  define s' where "s' = (set_pp_link p (page_free_list s) s)\<lparr>page_free_list := Some p\<rparr>"
  have fl: "free_list s (free_pages s)" "npages s \<le> 65536" using wf(3) by (simp_all add: wf_pages_def)
  note pf = page_free_ok [OF fl(1) assms(2,4,5), folded s'_def]
  have fr: "vm_frame s s'" using pf(1) by (rule page_free_frame)
  have free: "free_pages s' = p # free_pages s" using pf(2) by (rule free_list_free_pages)
  have wfp: "wf_pages s'" using pf(2) fl(2) by (auto simp: wf_pages_iff s'_def)
  have s': "npages s' = npages s" "frames s' = frames s" "\<And>q. pp_ref (pages s' q) = pp_ref (pages s q)"
    by (simp_all add: s'_def)
  have "set (free_pages s') \<inter> (all_dirs s \<union> tables user_part (all_dirs s) s) = {}"
    using wf(1) assms(3) unfolding free wf_vm_def wf_tables_def by auto
  note oth = wf_vm_other [OF wf(1) wfp s'(1) _ _ this]
  have vm: "wf_vm user_part (all_dirs s) s'" by (rule oth) (simp_all add: s')
  have tab: "tab s' = tab s" "slot s' = slot s" by (intro ext, simp add: tab_def slot_def s')+
  have "\<forall>i\<in>user_part. tab s' (kern_pgdir s) i = None" using wf(2) tab by simp
  note st = wf_kernel_vm_step [OF assms(1) fr vm this]
  have "confined s c s'" using st(1) vm_frame_fields(4) [OF fr] by (simp add: confined_def translate_def tab)
  with pf(1) show ?thesis by blast
qed

lemma confinedI:
  assumes "wf_kernel s" "active s e" "env_pgdir (envs s e) = Some d" "controls s c e"
    and "wf_kernel s'" "vm_frame s s'"
    and "\<forall>d'\<in>all_dirs s. \<forall>va'. PDX va' \<in> user_part \<longrightarrow> d' \<noteq> d \<longrightarrow> translate s' d' va' = translate s d' va'"
  shows "confined s c s'"
  unfolding confined_def
proof (intro conjI allI impI)
  fix x d' va
  assume x: "active s x \<and> \<not> controls s c x \<and> env_pgdir (envs s x) = Some d' \<and> PDX va \<in> user_part"
  then have "d' \<in> all_dirs s" "d' \<noteq> d" using other_dir [OF assms(1-4)] by blast+
  with assms(7) x show "translate s' d' va = translate s d' va" by blast
qed (use assms(5) vm_frame_fields(4) [OF assms(6)] in auto)

lemma sys_page_unmap_spec:
  assumes "wf_kernel s" "curenv s = Some c" "active s c"
  shows "\<exists>r s'. sys_page_unmap envid va s = KRet r s' \<and> confined s c s'"
proof -
  consider "lookup_env envid True s = KRet (- E_BAD_ENV, None) s"
    | e where "lookup_env envid True s = KRet (0, Some e) s" "active s e" "controls s c e"
    using lookup_env_spec [OF assms, of envid] by blast
  then show ?thesis
  proof cases
    case 1
    then show ?thesis using confined_refl [OF assms(1)] by (simp add: sys_page_unmap_def E_BAD_ENV_def)
  next
    case (2 e)
    show ?thesis
    proof (cases "va \<ge> UTOP \<or> PGOFF va \<noteq> 0")
      case True
      with 2(1) show ?thesis using confined_refl [OF assms(1)] by (simp add: sys_page_unmap_def)
    next
      case False
      obtain d where d: "env_pgdir (envs s e) = Some d" using assms(1) 2(2) by (auto simp: wf_kernel_def wf_envs_def)
      obtain s' where s': "page_remove (Some d) va s = Ok s'" "wf_kernel s'" "vm_frame s s'"
        "\<forall>d'\<in>all_dirs s. \<forall>va'. PDX va' \<in> user_part \<longrightarrow> translate s' d' va' =
          (if d' = d \<and> PGNUM va' = PGNUM va then None else translate s d' va')"
        using kernel_page_remove [OF assms(1) 2(2) d, of va] False by (auto simp: not_le)
      have "confined s c s'"
        by (rule confinedI [OF assms(1) 2(2) d 2(3) s'(2,3)]) (use s'(4) in simp)
      moreover have "sys_page_unmap envid va s = KRet 0 s'"
        using 2(1) False d s'(1) by (simp add: sys_page_unmap_def deref_env_def)
      ultimately show ?thesis by blast
    qed
  qed
qed

lemma confined_trans:
  assumes "confined s c s1" "active s1 = active s" "confined s1 c s'"
  shows "confined s c s'"
  using assms unfolding confined_def controls_def by metis

lemma sys_page_alloc_spec:
  assumes "wf_kernel s" "curenv s = Some c" "active s c"
  shows "\<exists>r s'. sys_page_alloc envid va perm s = KRet r s' \<and> confined s c s'"
proof -
  note refl = confined_refl [OF assms(1)]
  consider "va \<ge> UTOP \<or> va mod PGSIZE \<noteq> 0 \<or> bad_perm perm" | "va < UTOP" "va mod PGSIZE = 0" "\<not> bad_perm perm" "free_pages s = []"
    | p ps where "va < UTOP" "va mod PGSIZE = 0" "\<not> bad_perm perm" "free_pages s = p # ps"
    by (cases "free_pages s"; cases "va < UTOP"; cases "va mod PGSIZE = 0"; cases "bad_perm perm") (simp_all add: not_less)
  then show ?thesis
  proof cases
    case 1
    then show ?thesis using refl by (auto simp: sys_page_alloc_def)
  next
    case 2
    have "wf_pages s" using assms(1) by (simp add: wf_kernel_def wf_vm_def wf_tables_def)
    then show ?thesis using 2 refl by (auto simp: sys_page_alloc_def page_alloc_eq not_le)
  next
    case (3 p ps)
    let ?s = "taken_page ALLOC_ZERO p s"
    note tk = kernel_taken_page [OF assms(1) 3(4)]
    have conf: "confined s c ?s"
      using tk(2,3,11) vm_frame_fields(4) [OF tk(3)] by (auto simp: confined_def all_dirs_def env_dirs_def)
    have cur: "curenv ?s = Some c" "active ?s c" using assms(2,3) tk(3,5) vm_frame_fields(10) by simp_all
    consider "lookup_env envid True ?s = KRet (- E_BAD_ENV, None) ?s"
      | e where "lookup_env envid True ?s = KRet (0, Some e) ?s" "active ?s e" "controls ?s c e"
      using lookup_env_spec [OF tk(2) cur, of envid] by blast
    then show ?thesis
    proof cases
      case 1
      then show ?thesis using 3 tk(1) conf by (auto simp: sys_page_alloc_def E_BAD_ENV_def not_le)
    next
      case (2 e)
      obtain d where d: "env_pgdir (envs ?s e) = Some d" using tk(2) 2(2) by (auto simp: wf_kernel_def wf_envs_def)
      have "unat (pp_ref (pages ?s p)) < 65535" using tk(10) by simp
      from kernel_page_insert [OF tk(2) 2(2) d 3(1) tk(6,7,9) bad_perm_low12 [OF 3(3)] this]
      obtain r s' where s': "page_insert (Some d) p va perm ?s = Ok (r, s')" "wf_kernel s'" "vm_frame ?s s'"
        "if tab ?s d (PDX va) = None \<and> free_pages ?s = [] then r = - E_NO_MEM \<and> s' = ?s
         else r = 0 \<and> (\<forall>d'\<in>all_dirs ?s. \<forall>va'. PDX va' \<in> user_part \<longrightarrow> translate s' d' va' =
            (if d' = d \<and> PGNUM va' = PGNUM va then Some (page2pa p OR perm OR PTE_P) else translate ?s d' va'))"
        by blast
      have eq: "sys_page_alloc envid va perm s = (if r < 0
          then bind_out (out_of_state (page_free p s')) (\<lambda>_ s. KRet (- E_NO_MEM) s) else KRet 0 s')"
        using 3 2(1) tk(1) d s'(1) by (auto simp: sys_page_alloc_def deref_env_def not_le)
      show ?thesis
      proof (cases "tab ?s d (PDX va) = None \<and> free_pages ?s = []")
        case True
        then have r: "r = - E_NO_MEM" "s' = ?s" using s'(4) by simp_all
        obtain s2 where "page_free p ?s = Ok s2" "confined ?s c s2"
          using confined_page_free [OF tk(2,6,7,9,10), of c] by blast
        then show ?thesis using eq r confined_trans [OF conf tk(5)] by (simp add: E_NO_MEM_def)
      next
        case False
        then have r: "r = 0" "\<forall>d'\<in>all_dirs ?s. \<forall>va'. PDX va' \<in> user_part \<longrightarrow> translate s' d' va' =
            (if d' = d \<and> PGNUM va' = PGNUM va then Some (page2pa p OR perm OR PTE_P) else translate ?s d' va')"
          using s'(4) unfolding if_not_P [OF False] by simp_all
        have "confined ?s c s'" by (rule confinedI [OF tk(2) 2(2) d 2(3) s'(2,3)]) (use r(2) in simp)
        then show ?thesis using eq r(1) confined_trans [OF conf tk(5)] by simp
      qed
    qed
  qed
qed

text \<open>What \<open>sys_page_map\<close> does when it returns 0.\<close>

definition page_shared :: "kstate \<Rightarrow> nat \<Rightarrow> u32 \<Rightarrow> nat \<Rightarrow> u32 \<Rightarrow> u32 \<Rightarrow> kstate \<Rightarrow> bool" where
  "page_shared s ds srcva dd dstva perm s' \<longleftrightarrow> (\<exists>e. translate s ds srcva = Some e
     \<and> translate s' dd dstva = Some (page2pa (PGNUM e) OR perm OR PTE_P)
     \<and> (perm AND PTE_W \<noteq> 0 \<longrightarrow> e AND PTE_W \<noteq> 0))"

lemma page_lookup_kernel:
  assumes "wf_kernel s" "active s e" "env_pgdir (envs s e) = Some d" "va < UTOP"
  shows "case translate s d va of
      None \<Rightarrow> page_lookup (Some d) va s = Ok (None, s)
    | Some v \<Rightarrow> (\<exists>pte. page_lookup (Some d) va s = Ok (Some (PGNUM v, pte), s) \<and> load_pte s pte = v)
        \<and> PGNUM v < npages s \<and> PGNUM v \<notin> all_dirs s \<union> tables user_part (all_dirs s) s
        \<and> PGNUM v \<notin> set (free_pages s)"
proof -
  have wf: "wf_vm user_part (all_dirs s) s" "wf_tables user_part (all_dirs s) s"
    using assms(1) by (simp_all add: wf_kernel_def wf_vm_def)
  have d: "d \<in> all_dirs s" using assms(2,3) by (auto simp: all_dirs_def env_dirs_def)
  note va = user_va [OF assms(4)]
  have e: "PGNUM v < npages s" "PGNUM v \<notin> all_dirs s" "PGNUM v \<notin> tables user_part (all_dirs s) s"
    "PGNUM v \<notin> set (free_pages s)" if "translate s d va = Some v" for v
    using wf_vmD [OF wf(1) d va PTX_less] mapped_not_free(2) [OF wf(1) d va PTX_less] that
    by (simp_all add: translate_def)
  note lk = page_lookup_eq [OF wf(2) d va e(1)]
  show ?thesis
  proof (cases "translate s d va")
    case None
    then show ?thesis using lk by simp
  next
    case (Some v)
    then obtain t where t: "tab s d (PDX va) = Some t" "frames s t (PTX va) = v"
      by (auto simp: translate_def slot_def split: option.splits if_splits)
    then have "load_pte s (the (tab s d (PDX va)), PTX va) = v" by (simp add: load_pte_def)
    then show ?thesis using Some lk e by auto
  qed
qed

lemma sys_page_map_spec:
  assumes "wf_kernel s" "curenv s = Some c" "active s c" "\<forall>p. unat (pp_ref (pages s p)) < 65535"
  shows "\<exists>r s'. sys_page_map srcenvid srcva dstenvid dstva perm s = KRet r s' \<and> confined s c s'
    \<and> (r = 0 \<longrightarrow> (\<exists>es ed ds dd. controls s c es \<and> controls s c ed \<and> env_pgdir (envs s es) = Some ds
          \<and> env_pgdir (envs s ed) = Some dd \<and> page_shared s ds srcva dd dstva perm s'))
    \<and> (r < 0 \<longrightarrow> s' = s)"
proof -
  note refl = confined_refl [OF assms(1), of c] and errs = E_BAD_ENV_def E_INVAL_def E_NO_MEM_def
  consider "\<exists>r. r < 0 \<and> sys_page_map srcenvid srcva dstenvid dstva perm s = KRet r s"
    | es ed ds dd v where "active s es" "active s ed" "controls s c es" "controls s c ed"
      "env_pgdir (envs s es) = Some ds" "env_pgdir (envs s ed) = Some dd" "dstva < UTOP"
      "translate s ds srcva = Some v" "perm AND PTE_W \<noteq> 0 \<longrightarrow> v AND PTE_W \<noteq> 0" "\<not> bad_perm perm"
      "PGNUM v < npages s" "PGNUM v \<notin> all_dirs s \<union> tables user_part (all_dirs s) s" "PGNUM v \<notin> set (free_pages s)"
      "sys_page_map srcenvid srcva dstenvid dstva perm s =
         bind_out (out_of (page_insert (Some dd) (PGNUM v) dstva perm s)) (\<lambda>r s.
           if r < 0 then KRet (- E_NO_MEM) s else KRet 0 s)"
  proof -
    let ?fails = "\<exists>r. r < 0 \<and> sys_page_map srcenvid srcva dstenvid dstva perm s = KRet r s"
    show thesis
    proof (cases "?fails")
      case True
      then show thesis by (rule that(1))
    next
      case False
      then have bad: "sys_page_map srcenvid srcva dstenvid dstva perm s \<noteq> KRet (- E_BAD_ENV) s"
        "sys_page_map srcenvid srcva dstenvid dstva perm s \<noteq> KRet (- E_INVAL) s" by (auto simp: errs)
      have src: "lookup_env srcenvid True s \<noteq> KRet (- E_BAD_ENV, None) s"
        using bad(1) by (auto simp: sys_page_map_def errs)
      then obtain es where es: "lookup_env srcenvid True s = KRet (0, Some es) s" "active s es" "controls s c es"
        using lookup_env_spec [OF assms(1-3)] by blast
      have "lookup_env dstenvid True s \<noteq> KRet (- E_BAD_ENV, None) s"
        using bad(1) es(1) by (auto simp: sys_page_map_def errs)
      then obtain ed where ed: "lookup_env dstenvid True s = KRet (0, Some ed) s" "active s ed" "controls s c ed"
        using lookup_env_spec [OF assms(1-3)] by blast
      have "\<not> (srcva \<ge> UTOP \<or> PGOFF srcva \<noteq> 0 \<or> dstva \<ge> UTOP \<or> PGOFF dstva \<noteq> 0)"
      proof
        assume inv: "srcva \<ge> UTOP \<or> PGOFF srcva \<noteq> 0 \<or> dstva \<ge> UTOP \<or> PGOFF dstva \<noteq> 0"
        have "sys_page_map srcenvid srcva dstenvid dstva perm s = KRet (- E_INVAL) s"
          using es(1) ed(1) unfolding sys_page_map_def if_P [OF inv] by simp
        with bad(2) show False ..
      qed
      then have va: "srcva < UTOP" "PGOFF srcva = 0" "dstva < UTOP" "PGOFF dstva = 0"
        and nle: "\<not> UTOP \<le> srcva" "\<not> UTOP \<le> dstva" by (simp_all add: not_le)
      obtain ds dd where d: "env_pgdir (envs s es) = Some ds" "env_pgdir (envs s ed) = Some dd"
        using active_pgdir [OF assms(1)] es(2) ed(2) by metis
      note lk = page_lookup_kernel [OF assms(1) es(2) d(1) va(1)]
      have "translate s ds srcva \<noteq> None"
        using bad(2) es(1) ed(1) va(2,4) nle d lk
        by (cases "translate s ds srcva") (auto simp: sys_page_map_def deref_env_def)
      then obtain v where v: "translate s ds srcva = Some v" by blast
      then obtain pte where pte: "page_lookup (Some ds) srcva s = Ok (Some (PGNUM v, pte), s)" "load_pte s pte = v"
        "PGNUM v < npages s" "PGNUM v \<notin> all_dirs s \<union> tables user_part (all_dirs s) s" "PGNUM v \<notin> set (free_pages s)"
        using lk by auto
      have ok: "perm AND PTE_W \<noteq> 0 \<longrightarrow> v AND PTE_W \<noteq> 0" "\<not> bad_perm perm"
        using bad(2) es(1) ed(1) va(2,4) nle d pte
        by (auto simp: sys_page_map_def deref_env_def split: if_splits)
      have "sys_page_map srcenvid srcva dstenvid dstva perm s =
         bind_out (out_of (page_insert (Some dd) (PGNUM v) dstva perm s)) (\<lambda>r s.
           if r < 0 then KRet (- E_NO_MEM) s else KRet 0 s)"
        using es(1) ed(1) va(2,4) nle d pte ok by (auto simp: sys_page_map_def deref_env_def)
      then show thesis using that(2) es(2,3) ed(2,3) d va(3) v ok pte(3-5) by blast
    qed
  qed
  then show ?thesis
  proof cases
    case 1
    then show ?thesis using refl by auto
  next
    case (2 es ed ds dd v)
    have "unat (pp_ref (pages s (PGNUM v))) < 65535" using assms(4) by blast
    from kernel_page_insert [OF assms(1) 2(2,6,7,11-13) bad_perm_low12 [OF 2(10)] this]
    obtain r s' where s': "page_insert (Some dd) (PGNUM v) dstva perm s = Ok (r, s')" "wf_kernel s'" "vm_frame s s'"
      "if tab s dd (PDX dstva) = None \<and> free_pages s = [] then r = - E_NO_MEM \<and> s' = s
       else r = 0 \<and> (\<forall>d'\<in>all_dirs s. \<forall>va'. PDX va' \<in> user_part \<longrightarrow> translate s' d' va' =
          (if d' = dd \<and> PGNUM va' = PGNUM dstva then Some (page2pa (PGNUM v) OR perm OR PTE_P) else translate s d' va'))"
      by blast
    show ?thesis
    proof (cases "tab s dd (PDX dstva) = None \<and> free_pages s = []")
      case True
      then show ?thesis using s'(1,4) 2(14) refl by (simp add: errs)
    next
      case False
      then have r: "r = 0" "\<forall>d'\<in>all_dirs s. \<forall>va'. PDX va' \<in> user_part \<longrightarrow> translate s' d' va' =
          (if d' = dd \<and> PGNUM va' = PGNUM dstva then Some (page2pa (PGNUM v) OR perm OR PTE_P) else translate s d' va')"
        using s'(4) unfolding if_not_P [OF False] by simp_all
      have conf: "confined s c s'" by (rule confinedI [OF assms(1) 2(2,6,4) s'(2,3)]) (use r(2) in simp)
      have "dd \<in> all_dirs s" using 2(2,6) by (auto simp: all_dirs_def env_dirs_def)
      then have "translate s' dd dstva = Some (page2pa (PGNUM v) OR perm OR PTE_P)"
        using r(2) user_va [OF 2(7)] by simp
      then have "page_shared s ds srcva dd dstva perm s'" using 2(8,9) by (simp add: page_shared_def)
      then have "\<exists>es ed ds dd. controls s c es \<and> controls s c ed \<and> env_pgdir (envs s es) = Some ds
          \<and> env_pgdir (envs s ed) = Some dd \<and> page_shared s ds srcva dd dstva perm s'"
        using 2(3-6) by blast
      then show ?thesis using s'(1) r(1) 2(14) conf by simp
    qed
  qed
qed

text \<open>
  C20. Page system calls are confined. Whatever their arguments are, \<open>sys_page_alloc\<close>,
  \<open>sys_page_map\<close> and \<open>sys_page_unmap\<close> called through the dispatcher return, keep the kernel
  well-formed, change no environment record, and leave every user translation of an environment alone
  that is neither the caller nor its child. (No reference count is at its 16-bit limit.)
\<close>

theorem page_calls_confined:
  assumes "wf_kernel s" "curenv s = Some c" "active s c" "\<forall>p. unat (pp_ref (pages s p)) < 65535"
    and "no \<in> {SYS_page_alloc, SYS_page_map, SYS_page_unmap}"
  shows "\<exists>r s'. syscall no a1 a2 a3 a4 a5 s = KRet r s' \<and> confined s c s'"
proof -
  have num: "SYS_page_alloc = 4" "SYS_page_map = 5" "SYS_page_unmap = 6"
    by (simp_all add: SYS_page_alloc_def SYS_page_map_def SYS_page_unmap_def)
  have "syscall SYS_page_alloc a1 a2 a3 a4 a5 s = sys_page_alloc a1 a2 a3 s"
    "syscall SYS_page_map a1 a2 a3 a4 a5 s = sys_page_map a1 a2 a3 a4 a5 s"
    "syscall SYS_page_unmap a1 a2 a3 a4 a5 s = sys_page_unmap a1 a2 s"
    by (simp_all add: syscall_def num SYS_cputs_def SYS_cgetc_def SYS_getenvid_def SYS_env_destroy_def
        SYS_sbrk_def SYS_map_kernel_page_def SYS_yield_def SYS_exofork_def SYS_env_set_status_def)
  then show ?thesis
    using assms(5) sys_page_alloc_spec [OF assms(1-3)] sys_page_map_spec [OF assms(1-4)]
      sys_page_unmap_spec [OF assms(1-3)] by fastforce
qed

lemma two_envs_current:
  "wf_kernel (set_curenv (Some 0) two_envs)" "active (set_curenv (Some 0) two_envs) = (\<lambda>e. e < 2)"
  "free_pages (set_curenv (Some 0) two_envs) = [6, 7]" "curenv (set_curenv (Some 0) two_envs) = Some 0"
  "envs two_envs 0 = new_env 0 0 4 (envs booted 0)"
  "envs two_envs 1 = new_env 1 0 5 (envs booted 1)"
  "unat (pp_ref (pages (set_curenv (Some 0) two_envs) p)) \<le> 1"
proof -
  note al = alloc_state_eq [OF booted_wf(1,3,2)]
  have link: "env_free_list (alloc_state booted) = Some 1" using booted_wf(4) [of 0] by (simp add: al(4) NENV_def)
  note al2 = alloc_state_eq [OF al(2) link al(5)]
  show "wf_kernel (set_curenv (Some 0) two_envs)" "active (set_curenv (Some 0) two_envs) = (\<lambda>e. e < 2)"
    "curenv (set_curenv (Some 0) two_envs) = Some 0"
    using two_envs_wf by (simp_all)
  show "envs two_envs 0 = new_env 0 0 4 (envs booted 0)"
    "envs two_envs 1 = new_env 1 0 5 (envs booted 1)"
    by (simp_all add: two_envs_def al2(3) al(3))
  have "free_pages (set_curenv (Some 0) two_envs) = free_pages two_envs" by (rule vm_cong) (simp_all add: set_curenv_def)
  then show "free_pages (set_curenv (Some 0) two_envs) = [6, 7]" using al2(5) by (simp add: two_envs_def)
  show "unat (pp_ref (pages (set_curenv (Some 0) two_envs) p)) \<le> 1"
    by (simp add: set_curenv_def two_envs_def al2(10) al(10) booted_wf(10) boot_memory_def)
qed

theorem page_calls_confined_witness:
  "\<exists>r s'. syscall SYS_page_alloc 0 0x5000 7 0 0 (set_curenv (Some 0) two_envs) = KRet r s'
     \<and> confined (set_curenv (Some 0) two_envs) 0 s'
     \<and> active (set_curenv (Some 0) two_envs) 1 \<and> \<not> controls (set_curenv (Some 0) two_envs) 0 1"
proof -
  let ?s = "set_curenv (Some 0) two_envs"
  have "\<forall>p. unat (pp_ref (pages ?s p)) < 65535" using two_envs_current(7) by (meson le_less_trans numeral_less_iff one_less_numeral_iff semiring_norm)
  then have "\<exists>r s'. syscall SYS_page_alloc 0 0x5000 7 0 0 ?s = KRet r s' \<and> confined ?s 0 s'"
    using page_calls_confined [OF two_envs_current(1,4)] two_envs_current(2) by simp
  moreover have "env_id (envs ?s 0) = 0x1000"
    using booted_wf(5) [of 0] by (simp add: two_envs_current(5) new_env_def next_env_id_def ENVGENSHIFT_def NENV_def)
  then have "\<not> controls ?s 0 1" unfolding controls_def using two_envs_current(6) by (simp add: new_env_def)
  ultimately show ?thesis using two_envs_current(2) by simp
qed

lemma sys_page_map_ok:
  assumes "wf_kernel s" "lookup_env srcenvid True s = KRet (0, Some es) s" "active s es" "env_pgdir (envs s es) = Some ds"
    and "lookup_env dstenvid True s = KRet (0, Some ed) s" "active s ed" "env_pgdir (envs s ed) = Some dd"
    and "srcva < UTOP" "PGOFF srcva = 0" "dstva < UTOP" "PGOFF dstva = 0" "\<not> bad_perm perm"
    and "translate s ds srcva = Some v" "perm AND PTE_W \<noteq> 0 \<longrightarrow> v AND PTE_W \<noteq> 0"
  shows "sys_page_map srcenvid srcva dstenvid dstva perm s =
    bind_out (out_of (page_insert (Some dd) (PGNUM v) dstva perm s)) (\<lambda>r s.
      if r < 0 then KRet (- E_NO_MEM) s else KRet 0 s)"
    "PGNUM v < npages s" "PGNUM v \<notin> all_dirs s \<union> tables user_part (all_dirs s) s" "PGNUM v \<notin> set (free_pages s)"
proof -
  have nle: "\<not> UTOP \<le> srcva" "\<not> UTOP \<le> dstva" using assms(8,10) by (simp_all add: not_le)
  obtain pte where pte: "page_lookup (Some ds) srcva s = Ok (Some (PGNUM v, pte), s)" "load_pte s pte = v"
    "PGNUM v < npages s" "PGNUM v \<notin> all_dirs s \<union> tables user_part (all_dirs s) s" "PGNUM v \<notin> set (free_pages s)"
    using page_lookup_kernel [OF assms(1,3,4,8)] assms(13) by auto
  then show "PGNUM v < npages s" "PGNUM v \<notin> all_dirs s \<union> tables user_part (all_dirs s) s" "PGNUM v \<notin> set (free_pages s)"
    by simp_all
  show "sys_page_map srcenvid srcva dstenvid dstva perm s =
    bind_out (out_of (page_insert (Some dd) (PGNUM v) dstva perm s)) (\<lambda>r s.
      if r < 0 then KRet (- E_NO_MEM) s else KRet 0 s)"
    using assms(2,4,5,7,9,11,12,14) nle pte(1,2) by (auto simp: sys_page_map_def deref_env_def)
qed

text \<open>
  C21. \<open>sys_page_map\<close> shares a page: with valid arguments the page that the source maps at \<open>srcva\<close>
  becomes mapped at \<open>dstva\<close> of the destination, with the permissions asked for, and every other user
  translation of every environment stays as it was. The only failure left is \<open>-E_NO_MEM\<close>, when a page
  table is missing and there is no free page for it; then nothing has changed.
\<close>

theorem sys_page_map_shares:
  assumes "wf_kernel s" "lookup_env srcenvid True s = KRet (0, Some es) s" "active s es" "env_pgdir (envs s es) = Some ds"
    and "lookup_env dstenvid True s = KRet (0, Some ed) s" "active s ed" "env_pgdir (envs s ed) = Some dd"
    and "srcva < UTOP" "PGOFF srcva = 0" "dstva < UTOP" "PGOFF dstva = 0" "\<not> bad_perm perm"
    and "translate s ds srcva = Some v" "perm AND PTE_W \<noteq> 0 \<longrightarrow> v AND PTE_W \<noteq> 0"
    and "unat (pp_ref (pages s (PGNUM v))) < 65535"
  shows "if tab s dd (PDX dstva) = None \<and> free_pages s = []
    then sys_page_map srcenvid srcva dstenvid dstva perm s = KRet (- E_NO_MEM) s
    else \<exists>s'. sys_page_map srcenvid srcva dstenvid dstva perm s = KRet 0 s' \<and> wf_kernel s'
      \<and> (\<forall>d\<in>all_dirs s. \<forall>va. PDX va \<in> user_part \<longrightarrow> translate s' d va =
           (if d = dd \<and> PGNUM va = PGNUM dstva then Some (page2pa (PGNUM v) OR perm OR PTE_P)
            else translate s d va))"
proof -
  note ok = sys_page_map_ok [OF assms(1-14)]
  obtain r s' where s': "page_insert (Some dd) (PGNUM v) dstva perm s = Ok (r, s')" "wf_kernel s'"
    "if tab s dd (PDX dstva) = None \<and> free_pages s = [] then r = - E_NO_MEM \<and> s' = s
     else r = 0 \<and> (\<forall>d'\<in>all_dirs s. \<forall>va'. PDX va' \<in> user_part \<longrightarrow> translate s' d' va' =
        (if d' = dd \<and> PGNUM va' = PGNUM dstva then Some (page2pa (PGNUM v) OR perm OR PTE_P) else translate s d' va'))"
    using kernel_page_insert [OF assms(1,6,7,10) ok(2-4) bad_perm_low12 [OF assms(12)] assms(15)] by blast
  show ?thesis
  proof (cases "tab s dd (PDX dstva) = None \<and> free_pages s = []")
    case True
    then show ?thesis using s'(1,3) ok(1) by (simp add: E_NO_MEM_def)
  next
    case False
    then show ?thesis using s'(1,2) s'(3) [unfolded if_not_P [OF False]] ok(1) unfolding if_not_P [OF False] by simp
  qed
qed

definition user_page :: kstate where
  "user_page = (case sys_page_alloc 0 0x5000 7 (set_curenv (Some 0) two_envs) of KRet _ s \<Rightarrow> s | _ \<Rightarrow> two_envs)"

lemma user_page_facts:
  "sys_page_alloc 0 0x5000 7 (set_curenv (Some 0) two_envs) = KRet 0 user_page"
  "wf_kernel user_page" "active user_page = (\<lambda>e. e < 2)" "curenv user_page = Some 0" "envs user_page = envs two_envs"
  "translate user_page 4 0x5000 = Some 0x6007" "unat (pp_ref (pages user_page 6)) < 65535"
proof -
  let ?s0 = "set_curenv (Some 0) two_envs"
  define t where "t = taken_page ALLOC_ZERO 6 ?s0"
  note tk = kernel_taken_page [OF two_envs_current(1,3), folded t_def]
  note fr = vm_frame_fields [OF tk(3)]
  have va: "(0x5000::u32) < UTOP" "\<not> UTOP \<le> (0x5000::u32)" by (simp_all add: mmu_defs)
  have perm: "\<not> bad_perm 7" by (simp add: bad_perm_def mmu_defs)
  have cur: "curenv t = Some 0" "active t 0" "env_pgdir (envs t 0) = Some 4"
    using two_envs_current(2,5) by (simp_all add: fr tk(5) new_env_def)
  have free: "free_pages t = [7]" by (rule tk)
  note pre = tk(6,7,9) bad_perm_low12 [OF perm]
  have ref: "unat (pp_ref (pages t 6)) < 65535" using tk(10) by simp
  obtain s' where s': "page_insert (Some 4) 6 0x5000 7 t = Ok (0, s')" "wf_kernel s'" "vm_frame t s'" "active s' = active t"
    "\<forall>d'\<in>all_dirs t. \<forall>va'. PDX va' \<in> user_part \<longrightarrow> translate s' d' va' =
       (if d' = 4 \<and> PGNUM va' = PGNUM 0x5000 then Some (page2pa 6 OR 7 OR PTE_P) else translate t d' va')"
    using kernel_page_insert [OF tk(2) cur(2,3) va(1) pre ref] free by auto
  have "lookup_env 0 True t = KRet (0, Some 0) t" using cur(1) by (simp add: lookup_env_def envid2env_def)
  then show eq: "sys_page_alloc 0 0x5000 7 ?s0 = KRet 0 user_page"
    using va(2) perm tk(1) cur(3) s'(1)
    by (simp add: user_page_def sys_page_alloc_def deref_env_def mmu_defs)
  have up: "user_page = s'"
    using eq va(2) perm tk(1) cur(3) s'(1) \<open>lookup_env 0 True t = KRet (0, Some 0) t\<close>
    by (simp add: sys_page_alloc_def deref_env_def mmu_defs)
  show "wf_kernel user_page" "active user_page = (\<lambda>e. e < 2)" "curenv user_page = Some 0" "envs user_page = envs two_envs"
    using s'(2,4) two_envs_current(2) vm_frame_fields [OF s'(3)] fr by (simp_all add: up tk(5))
  have d: "4 \<in> all_dirs t" using cur(2,3) by (auto simp: all_dirs_def env_dirs_def)
  moreover have "PDX (0x5000::u32) \<in> user_part" by (rule user_va [OF va(1)])
  ultimately show "translate user_page 4 0x5000 = Some 0x6007" using s'(5) by (simp add: up mmu_defs page2pa_def)
  have wf: "wf_vm user_part (all_dirs t) t" using tk(2) by (simp add: wf_kernel_def)
  show "unat (pp_ref (pages user_page 6)) < 65535"
  proof (cases "tab t 4 (PDX 0x5000)")
    case None
    from page_insert_new_table [OF wf d user_va [OF va(1)] None free pre ref] obtain s2 where
      "page_insert (Some 4) 6 0x5000 7 t = Ok (0, s2)"
      "\<forall>q. q \<notin> set (free_pages t) \<longrightarrow> pp_ref (pages s2 q) = pp_ref (pages t q) + (if q = 6 then 1 else 0)" by metis
    then show ?thesis using s'(1) free tk(10) by (simp add: up)
  next
    case (Some tb)
    from page_insert_old_table [OF wf d user_va [OF va(1)] Some pre ref] obtain s2 where
      "page_insert (Some 4) 6 0x5000 7 t = Ok (0, s2)"
      "\<forall>q. pp_ref (pages s2 q) = pp_ref (pages t q) - refs_drop (translate t 4 0x5000) q + (if q = 6 then 1 else 0)" by metis
    then show ?thesis using s'(1) tk(10) by (simp add: up refs_drop_def split: option.split)
  qed
qed

theorem sys_page_map_shares_witness:
  "\<exists>s'. sys_page_map 0 0x5000 0 0x6000 5 user_page = KRet 0 s'
     \<and> translate s' 4 0x6000 = Some 0x6005 \<and> translate s' 4 0x5000 = Some 0x6007"
proof -
  note u = user_page_facts
  have lk: "lookup_env 0 True user_page = KRet (0, Some 0) user_page" using u(4) by (simp add: lookup_env_def envid2env_def)
  have d: "active user_page 0" "env_pgdir (envs user_page 0) = Some 4" using u(3,5) two_envs_current(5) by (simp_all add: new_env_def)
  have va: "(0x5000::u32) < UTOP" "PGOFF (0x5000::u32) = 0" "(0x6000::u32) < UTOP" "PGOFF (0x6000::u32) = 0" "\<not> bad_perm 5"
    by (simp_all add: mmu_defs PGOFF_def bad_perm_def)
  have "tab user_page 4 (PDX 0x5000) \<noteq> None" using u(6) by (auto simp: translate_def slot_def split: option.splits)
  moreover have "PDX (0x6000::u32) = PDX 0x5000" by (simp add: PDX_def)
  ultimately have tab: "\<not> (tab user_page 4 (PDX 0x6000) = None \<and> free_pages user_page = [])" by simp
  have w: "(5::u32) AND PTE_W \<noteq> 0 \<longrightarrow> (0x6007::u32) AND PTE_W \<noteq> 0" "PGNUM (0x6007::u32) = 6"
    by (simp_all add: mmu_defs PGNUM_def)
  then have "unat (pp_ref (pages user_page (PGNUM 0x6007))) < 65535" using u(7) by simp
  from sys_page_map_shares [OF u(2) lk d lk d va u(6) w(1) this, unfolded if_not_P [OF tab]]
  obtain s' where s': "sys_page_map 0 0x5000 0 0x6000 5 user_page = KRet 0 s'"
    "\<forall>d\<in>all_dirs user_page. \<forall>va. PDX va \<in> user_part \<longrightarrow> translate s' d va =
       (if d = 4 \<and> PGNUM va = PGNUM 0x6000 then Some (page2pa (PGNUM 0x6007) OR 5 OR PTE_P) else translate user_page d va)"
    by blast
  have "4 \<in> all_dirs user_page" using d by (auto simp: all_dirs_def env_dirs_def)
  then have "translate s' 4 0x6000 = Some 0x6005" "translate s' 4 0x5000 = Some 0x6007"
    using s'(2) user_va [OF va(1)] user_va [OF va(3)] u(6) by (simp_all add: mmu_defs PGNUM_def page2pa_def)
  with s'(1) show ?thesis by blast
qed

lemma env_run_other:
  assumes "env_run e s = KRun e s'" "x \<noteq> e" "env_status (envs s x) \<noteq> ENV_RUNNING"
  shows "envs s' x = envs s x"
  using assms by (auto simp: env_run_def env_pop_tf_def Let_def split: if_splits option.splits)

lemma env_run_ids:
  assumes "env_run e s = KRun e s'"
  shows "env_id (envs s' x) = env_id (envs s x)"
  using assms by (auto simp: env_run_def env_pop_tf_def Let_def split: if_splits option.splits)

lemma sched_yield_runs:
  assumes "wf_kernel s" "curenv_active s" "runnable s x" "x < NENV" "sched_start s < NENV"
  obtains e s' where "sched_yield s = (KRun e s' :: int kout)" "env_run e s = (KRun e s' :: int kout)" "runnable s e" "active s e"
    "wf_kernel s'" "curenv s' = Some e" "active s' = active s"
proof -
  define i where "i = sched_start s"
  have i: "i < NENV" using assms(5) by (simp add: i_def)
  have "\<exists>k<NENV. visited i k = x"
  proof (cases "i \<le> x")
    case True
    then show ?thesis using assms(4) by (intro exI [of _ "x - i"]) (auto simp: visited_def)
  next
    case False
    then show ?thesis using assms(4) i by (intro exI [of _ "NENV + x - i"]) (auto simp: visited_def)
  qed
  then have "find (runnable s) (map (visited i) [0..<NENV]) \<noteq> None"
    using assms(3) by (auto simp: find_None_iff)
  then obtain e where e: "find (runnable s) (map (visited i) [0..<NENV]) = Some e" by blast
  then obtain j where j: "runnable s e" "e = visited i j" by (auto simp: find_Some_iff)
  then have "e < NENV" using visited_less [of i j] i by auto
  then have act: "active s e" using j(1) by (simp add: active_def runnable_def)
  obtain s' where s': "env_run e s = (KRun e s' :: int kout)" "wf_kernel s'" "active s' = active s" "curenv s' = Some e"
    by (rule env_run_spec [OF assms(1) act])
  have "sched_yield s = (env_run e s :: int kout)" using e by (simp add: sched_yield_eq [OF assms(1,2)] sched_search_find i_def)
  with s' j(1) act that show thesis by simp
qed

lemma sys_ipc_recv_blocks:
  assumes "wf_kernel s" "curenv s = Some c" "active s c" "PGOFF dstva = 0 \<or> UTOP \<le> dstva"
    and "runnable s x" "x < NENV" "x \<noteq> c" "Suc c < NENV"
  obtains e s' where "sys_ipc_recv dstva s = KRun e s'" "e \<noteq> c" "curenv s' = Some e" "active s' e" "active s' c"
    "wf_kernel s'" "\<forall>i. env_id (envs s' i) = env_id (envs s i)"
    "envs s' c = (envs s c)\<lparr>env_ipc_recving := True, env_ipc_dstva := dstva, env_status := ENV_NOT_RUNNABLE\<rparr>"
proof -
  define t where "t = upd_env c (\<lambda>v. v\<lparr>env_ipc_recving := True, env_ipc_dstva := dstva,
          env_status := ENV_NOT_RUNNABLE\<rparr>) s"
  have free: "env_status (envs s c) \<noteq> ENV_FREE" using assms(3) by (simp add: active_def)
  have wf: "wf_kernel t" "active t = active s" using assms(1) free by (simp_all add: t_def wf_kernel_upd_env)
  have cur: "curenv t = Some c" "curenv_active t" using assms(2,3) wf(2) by (simp_all add: t_def curenv_active_def)
  have "ENVX (env_id (envs s c)) = c" using assms(1,3) by (auto simp: wf_kernel_def wf_envs_def)
  then have start: "sched_start t < NENV" using assms(8) cur(1) by (simp add: sched_start_def)
  have x: "runnable t x" using assms(5,7) by (simp add: t_def runnable_def)
  obtain e s' where e: "(sched_yield t :: int kout) = KRun e s'" "(env_run e t :: int kout) = KRun e s'" "runnable t e"
    "active t e" "wf_kernel s'" "curenv s' = Some e" "active s' = active t"
    by (rule sched_yield_runs [OF wf(1) cur(2) x assms(6) start])
  have "\<not> runnable t c" by (simp add: t_def runnable_def)
  then have ec: "c \<noteq> e" using e(3) by auto
  have "\<not> (dstva < UTOP \<and> PGOFF dstva \<noteq> 0)" using assms(4) by auto
  then have "sys_ipc_recv dstva s = KRun e s'"
    using e(1) assms(2) unfolding sys_ipc_recv_def by (simp add: deref_env_def t_def)
  moreover have "envs s' c = envs t c" by (rule env_run_other [OF e(2) ec]) (simp add: t_def)
  then have "envs s' c = (envs s c)\<lparr>env_ipc_recving := True, env_ipc_dstva := dstva, env_status := ENV_NOT_RUNNABLE\<rparr>"
    by (simp add: t_def)
  moreover have "env_id (envs s' i) = env_id (envs s i)" for i
    using env_run_ids [OF e(2), of i] by (simp add: t_def)
  ultimately show thesis using that [of e s'] ec e(4-7) wf(2) assms(3) by simp
qed

text \<open>
  C22. Message passing. An environment that calls \<open>sys_ipc_recv\<close> blocks, and another one runs. When
  that one sends a value to its id, the send succeeds: the receiver becomes runnable, its call returns
  0, and it finds the value and the id of the sender in its record. Each receive takes one message: a
  second send is refused with \<open>-E_IPC_NOT_RECV\<close>, whatever it sends. (The receiver must not be the
  last environment of the table, after which the scheduler looks behind the table.)
\<close>

theorem ipc_rendezvous:
  assumes "wf_kernel s" "curenv s = Some c" "active s c" "PGOFF dstva = 0 \<or> UTOP \<le> dstva"
    and "runnable s x" "x < NENV" "x \<noteq> c" "Suc c < NENV"
  shows "\<exists>e s1 s2. sys_ipc_recv dstva s = KRun e s1 \<and> e \<noteq> c \<and> env_status (envs s1 c) = ENV_NOT_RUNNABLE
    \<and> sys_ipc_try_send (env_id (envs s c)) val UTOP perm s1 = KRet 0 s2
    \<and> runnable s2 c \<and> env_ipc_value (envs s2 c) = val \<and> env_ipc_from (envs s2 c) = env_id (envs s e)
    \<and> reg_eax (tf_regs (env_tf (envs s2 c))) = 0
    \<and> sys_ipc_try_send (env_id (envs s c)) val' srcva' perm' s2 = KRet (- E_IPC_NOT_RECV) s2"
proof -
  obtain e s1 where 1: "sys_ipc_recv dstva s = KRun e s1" "e \<noteq> c" "curenv s1 = Some e" "active s1 e" "active s1 c"
    "wf_kernel s1" "\<forall>i. env_id (envs s1 i) = env_id (envs s i)"
    "envs s1 c = (envs s c)\<lparr>env_ipc_recving := True, env_ipc_dstva := dstva, env_status := ENV_NOT_RUNNABLE\<rparr>"
    by (rule sys_ipc_recv_blocks [OF assms])
  have found: "lookup_env (env_id (envs s c)) False t = KRet (0, Some c) t" if "wf_kernel t" "active t c"
      "env_id (envs t c) = env_id (envs s c)" for t
    using envid2env_found [OF _ that(2)] that(1,3) by (simp add: lookup_env_def wf_kernel_def)
  let ?s2 = "ipc_deliver e c val perm s1"
  have send: "sys_ipc_try_send (env_id (envs s c)) val UTOP perm s1 = KRet 0 ?s2"
    using found [OF 1(6,5)] 1(3,7,8) by (simp add: sys_ipc_try_send_def deref_env_def)
  have "wf_kernel ?s2" "active ?s2 = active s1"
    using 1(6,8) by (simp_all add: ipc_deliver_def wf_kernel_upd_env)
  then have "lookup_env (env_id (envs s c)) False ?s2 = KRet (0, Some c) ?s2"
    using 1(5,7) by (intro found) (simp_all add: ipc_deliver_def)
  then have "sys_ipc_try_send (env_id (envs s c)) val' srcva' perm' ?s2 = KRet (- E_IPC_NOT_RECV) ?s2"
    by (simp add: sys_ipc_try_send_def deref_env_def ipc_deliver_def)
  with 1 send show ?thesis
    by (intro exI [of _ e] exI [of _ s1] exI [of _ ?s2]) (simp add: ipc_deliver_def runnable_def)
qed

theorem ipc_rendezvous_witness:
  "\<exists>e s1 s2. sys_ipc_recv UTOP (set_curenv (Some 0) two_envs) = KRun e s1
    \<and> sys_ipc_try_send (env_id (envs two_envs 0)) 42 UTOP 0 s1 = KRet 0 s2
    \<and> runnable s2 0 \<and> env_ipc_value (envs s2 0) = 42"
proof -
  let ?s = "set_curenv (Some 0) two_envs"
  have "runnable ?s 1" "active ?s 0" "1 < NENV" "Suc 0 < NENV" "(1::nat) \<noteq> 0"
    using two_envs_current(2) two_envs_wf(4) by (simp_all add: runnable_def NENV_def)
  from ipc_rendezvous [OF two_envs_current(1,4) this(2) _ this(1,3,5,4), of UTOP 42 0 0 0 0]
  show ?thesis by auto
qed

lemma and_bit_word: "w AND 2 ^ n = (if bit w n then 2 ^ n else 0)" for w :: "'a::len word"
  by (rule bit_word_eqI) (auto simp: bit_simps)

lemma bad_perm_iff: "(perm AND PTE_U = 0 \<or> perm AND PTE_P = 0 \<or> perm AND NOT PTE_SYSCALL \<noteq> 0) = bad_perm perm"
proof -
  have "PTE_U = 2 ^ 2" "PTE_P = 2 ^ 0" by (simp_all add: mmu_defs)
  then have b: "perm AND PTE_U = (if bit perm 2 then 4 else 0)" "perm AND PTE_P = (if bit perm 0 then 1 else 0)"
    using and_bit_word [of perm 2] and_bit_word [of perm 0] by simp_all
  moreover have "perm AND (PTE_U OR PTE_P) = perm AND PTE_U OR perm AND PTE_P" by (simp add: bit.conj_disj_distrib)
  ultimately show ?thesis by (simp add: bad_perm_def) (simp add: mmu_defs)
qed

lemma ipc_send_page:
  assumes "wf_vm U D s" "dc \<in> D" "de \<in> D" "PDX srcva \<in> U" "PDX (env_ipc_dstva (envs s e)) \<in> U"
    and "curenv s = Some c" "env_pgdir (envs s c) = Some dc"
    and "lookup_env envid False s = KRet (0, Some e) s" "env_pgdir (envs s e) = Some de" "env_ipc_recving (envs s e)"
    and "srcva < UTOP" "PGOFF srcva = 0" "\<not> bad_perm perm"
    and "translate s dc srcva = Some v" "perm AND PTE_W \<noteq> 0 \<longrightarrow> v AND PTE_W \<noteq> 0"
    and "tab s de (PDX (env_ipc_dstva (envs s e))) \<noteq> None \<or> free_pages s \<noteq> []"
    and "unat (pp_ref (pages s (PGNUM v))) < 65535"
  shows "\<exists>s'. sys_ipc_try_send envid val srcva perm s = KRet 0 s'
    \<and> translate s' de (env_ipc_dstva (envs s e)) = Some (page2pa (PGNUM v) OR perm OR PTE_P)"
proof -
  let ?va = "env_ipc_dstva (envs s e)" and ?pp = "PGNUM v"
  have pp: "?pp < npages s" "?pp \<notin> D \<union> tables U D s" "?pp \<notin> set (free_pages s)"
    using wf_vmD [OF assms(1,2,4) PTX_less] mapped_not_free(2) [OF assms(1,2,4) PTX_less] assms(14)
    by (simp_all add: translate_def)
  note low = bad_perm_low12 [OF assms(13)]
  have "\<exists>s'. page_insert (Some de) ?pp ?va perm s = Ok (0, s') \<and> translate s' de ?va = Some (page2pa ?pp OR perm OR PTE_P)"
  proof (cases "tab s de (PDX ?va)")
    case None
    then obtain p ps where "free_pages s = p # ps" using assms(16) by (cases "free_pages s") auto
    from page_insert_new_table [OF assms(1,3,5) None this pp low assms(17)] show ?thesis
      using assms(3,5) unfolding translate_def by metis
  next
    case (Some t)
    from page_insert_old_table [OF assms(1,3,5) Some pp low assms(17)] show ?thesis
      using assms(3,5) unfolding translate_def by metis
  qed
  then obtain s' where s': "page_insert (Some de) ?pp ?va perm s = Ok (0, s')"
    "translate s' de ?va = Some (page2pa ?pp OR perm OR PTE_P)" by blast
  have tbl: "wf_tables U D s" using assms(1) by (simp add: wf_vm_def)
  have lk: "page_lookup (Some dc) srcva s = Ok (Some (?pp, the (tab s dc (PDX srcva)), PTX srcva), s)"
    using page_lookup_eq [OF tbl assms(2,4)] pp(1) assms(14) by simp
  have pte: "load_pte s (the (tab s dc (PDX srcva)), PTX srcva) = v"
    using assms(14) by (auto simp: translate_def slot_def load_pte_def split: option.splits if_splits)
  have "sys_ipc_try_send envid val srcva perm s = KRet 0 (ipc_deliver c e val perm s')"
    using assms(6-13,15) lk pte s'(1) unfolding sys_ipc_try_send_def bad_perm_iff by (auto simp: deref_env_def)
  moreover have "translate (ipc_deliver c e val perm s') de ?va = translate s' de ?va"
    by (simp add: ipc_deliver_def translate_def)
  ultimately show ?thesis using s'(2) by simp
qed


definition waiting_at_UTOP :: kstate where
  "waiting_at_UTOP = set_curenv (Some 0) ((bss_kstate 6 6)\<lparr>
     frames := (\<lambda>_ _. 0)(2 := (\<lambda>_. 0)(0 := 0x1007), 1 := (\<lambda>_. 0)(5 := 0x3007)),
     pages := (\<lambda>p. \<lparr>pp_link = None, pp_ref = (if p \<in> {1, 2, 3, 4} then 1 else 0)\<rparr>), page_free_list := Some 5,
     envs := (\<lambda>_. zero_env)(0 := zero_env\<lparr>env_pgdir := Some 2, env_id := 0x1000, env_status := ENV_RUNNING\<rparr>,
       1 := zero_env\<lparr>env_pgdir := Some 4, env_id := 0x1001, env_status := ENV_NOT_RUNNABLE,
              env_ipc_recving := True, env_ipc_dstva := UTOP\<rparr>)\<rparr>)"

lemma waiting_at_UTOP_vm:
  "wf_vm {0, 955} {2, 4} waiting_at_UTOP" "translate waiting_at_UTOP 2 0x5000 = Some 0x3007"
  "free_pages waiting_at_UTOP = [5]" "unat (pp_ref (pages waiting_at_UTOP 3)) = 1"
proof -
  let ?s = waiting_at_UTOP
  have st: "frames ?s = (\<lambda>_ _. 0)(2 := (\<lambda>_. 0)(0 := 0x1007), 1 := (\<lambda>_. 0)(5 := 0x3007))" "npages ?s = 6"
    "page_free_list ?s = Some 5"
    and pg: "pages ?s = (\<lambda>p. \<lparr>pp_link = None, pp_ref = (if p \<in> {1, 2, 3, 4} then 1 else 0)\<rparr>)"
    by (simp_all add: waiting_at_UTOP_def set_curenv_def bss_kstate_def)
  have tab: "tab ?s d i = (if d = 2 \<and> i = 0 then Some 1 else None)" if "d \<in> {2, 4}" for d i
    using that by (auto simp: tab_def st mmu_defs PGNUM_def)
  have slot: "slot ?s d i j = (if d = 2 \<and> i = 0 \<and> j = 5 then Some 0x3007 else None)" if "d \<in> {2, 4}" for d i j
    using that by (auto simp: slot_def tab st mmu_defs)
  then show "translate ?s 2 0x5000 = Some 0x3007" by (simp add: translate_def PDX_def PTX_def)
  have fl: "free_list ?s [5]" by (simp add: free_list_def st pg)
  then show free: "free_pages ?s = [5]" by (rule free_list_free_pages)
  have wf: "wf_pages ?s" using fl by (auto simp: wf_pages_iff st)
  have tabs: "tables {0, 955} {2, 4} ?s = {1}" by (auto simp: tables_def tab)
  have "wf_tables {0, 955} {2, 4} ?s" using wf by (simp add: wf_tables_def tabs free tab st)
  moreover have "mappings {0, 955} {2, 4} ?s p = (if p = 3 then {(2, 0, 5)} else {})" for p
    by (auto simp: mappings_def slot PGNUM_def split: if_splits)
  ultimately show "wf_vm {0, 955} {2, 4} ?s"
    by (simp add: wf_vm_def slot tabs PGNUM_def st pg)
  show "unat (pp_ref (pages ?s 3)) = 1" by (simp add: pg)
qed


lemma va_load_bytes_ok:
  assumes "\<forall>k<n. translate s (cr3 s) (va + of_nat k) \<noteq> None"
  shows "\<exists>bs. va_load_bytes va n s = Ok bs \<and> length bs = n"
  using assms
proof (induction n arbitrary: va)
  case (Suc n)
  have "translate s (cr3 s) va \<noteq> None" using Suc.prems [rule_format, of 0] by simp
  then obtain b where b: "va_load8 va s = Ok b" by (auto simp: va_load8_def)
  have "translate s (cr3 s) (va + 1 + of_nat k) \<noteq> None" if "k < n" for k
    using Suc.prems [rule_format, of "Suc k"] that by (simp add: ac_simps)
  then obtain bs where "va_load_bytes (va + 1) n s = Ok bs" "length bs = n" using Suc.IH by blast
  with b show ?case by simp
qed simp

text \<open>
  C24. \<open>sys_env_set_trapframe\<close> turns interrupts off. Whatever frame is passed, after a successful call
  the environment has user code segment and \<open>eflags\<close> 0: the last assignment masks with \<open>FL_IOPL_0\<close>, which
  is 0, where \<open>~FL_IOPL_MASK\<close> is meant. The documentation says that interrupts are enabled; with \<open>FL_IF\<close>
  clear the timer cannot preempt the environment any more.
\<close>

theorem set_trapframe_clears_eflags:
  assumes "lookup_env envid True s = KRet (0, Some e) s" "sys_env_set_trapframe envid tf s = KRet 0 s'"
  shows "tf_eflags (env_tf (envs s' e)) = 0 \<and> tf_eflags (env_tf (envs s' e)) AND FL_IF = 0
    \<and> tf_cs (env_tf (envs s' e)) = GD_UT OR 3"
  using assms
  by (auto simp: sys_env_set_trapframe_def deref_env_def FL_IOPL_0_def Let_def bind_out_def
      split: kout.splits res.splits)

theorem set_trapframe_clears_eflags_witness:
  "\<exists>s'. sys_env_set_trapframe 0 0x5000 (set_curenv (Some 0) (mapped_page\<lparr>cr3 := 2\<rparr>)) = KRet 0 s'
     \<and> tf_eflags (env_tf (envs s' 0)) = 0"
proof -
  let ?s = "set_curenv (Some 0) (mapped_page\<lparr>cr3 := 2\<rparr>)"
  have fld: "npages ?s = npages mapped_page" "envs ?s = envs mapped_page" "cr3 ?s = 2"
    "pages ?s = pages mapped_page" "page_free_list ?s = page_free_list mapped_page" "frames ?s = frames mapped_page"
    by (simp_all add: set_curenv_def)
  note vm = vm_cong [OF fld(1,4-6)]
  have lk: "lookup_env 0 True ?s = KRet (0, Some 0) ?s" by (simp add: lookup_env_def envid2env_def)
  have env: "env_pgdir (envs ?s 0) = Some 2" by (simp add: mapped_page_def)
  have tab: "\<forall>i<1024. \<forall>t. tab ?s 2 i = Some t \<longrightarrow> t < npages ?s"
    by (simp add: fld vm mapped_page_vm(2)) (simp add: mapped_page_def bss_kstate_def)
  have page: "PGNUM a = PGNUM 0x5000" if "0x5000 \<le> a" "a < 0x6000" for a :: u32
    using that by (simp add: PGNUM_div word_le_nat_alt word_less_nat_alt div_nat_eqI)
  have "user_ok ?s 2 (PTE_W OR PTE_U) 0x5000"
    by (simp add: user_ok_def vm fld mapped_page_vm(2) PDX_def PTX_def mmu_defs) (simp add: mapped_page_def)
  then have "user_ok ?s 2 (PTE_W OR PTE_U) a" if "0x5000 \<le> a" "a < 0x6000" for a
    using page [OF that] user_ok_page by blast
  moreover have "ROUNDUP (0x5000 + 68) PGSIZE = 0x6000" by (simp add: ROUNDUP_def ROUNDDOWN_def mmu_defs)
  ultimately have "user_mem_check 0 0x5000 68 (PTE_W OR PTE_U) ?s = Ok (0, ?s)"
    using user_mem_check_loop_spec [OF tab, of "0x5000" "0x6000" "PTE_W OR PTE_U"] env
    unfolding user_mem_check_def by auto
  then have chk: "user_mem_assert 0 0x5000 68 PTE_W ?s = KRet () ?s" by (simp add: user_mem_assert_def)
  have "translate ?s (cr3 ?s) (0x5000 + of_nat k) \<noteq> None" if "k < 68" for k
  proof -
    have "unat (0x5000 + of_nat k :: u32) = 0x5000 + k" using that by (simp add: unat_word_ariths unat_of_nat)
    then have "PGNUM (0x5000 + of_nat k) = PGNUM 0x5000"
      using that by (intro page) (simp_all add: word_le_nat_alt word_less_nat_alt)
    then have "PDX (0x5000 + of_nat k) = 0" "PTX (0x5000 + of_nat k) = 5"
      using PDX_PTX_PGNUM [of "0x5000 + of_nat k" "0x5000"] by (simp_all add: PDX_def PTX_def)
    then show ?thesis using mapped_page_vm(3) by (simp add: translate_def fld vm)
  qed
  then obtain bs where bs: "va_load_bytes 0x5000 68 ?s = Ok bs" using va_load_bytes_ok [of 68 ?s] by blast
  have "\<exists>s'. sys_env_set_trapframe 0 0x5000 ?s = KRet 0 s'"
    using lk chk bs by (simp add: sys_env_set_trapframe_def deref_env_def)
  then show ?thesis using set_trapframe_clears_eflags [OF lk] by blast
qed

end
