(* ===== verification/Trap_Inv.thy ===== *)
theory Trap_Inv
  imports Syscall_Inv
begin

text \<open>
  Properties of traps: the descriptor table leads every vector to an entry point with the right number,
  and a page fault in user mode reaches the handler of the environment with a frame that holds the
  state at the fault.
\<close>

section \<open>The frame as user code reads it\<close>

text \<open>\<open>struct UTrapframe\<close> of \<open>inc/trap.h\<close>, and its decoding from memory.\<close>

record UTrapframe =
  utf_fault_va :: u32
  utf_err :: u32
  utf_regs :: PushRegs
  utf_eip :: u32
  utf_eflags :: u32
  utf_esp :: u32

definition utrapframe_of :: "u8 list \<Rightarrow> UTrapframe" where
  "utrapframe_of bs = \<lparr>utf_fault_va = le32 bs 0, utf_err = le32 bs 4,
     utf_regs = \<lparr>reg_edi = le32 bs 8, reg_esi = le32 bs 12, reg_ebp = le32 bs 16, reg_oesp = le32 bs 20,
       reg_ebx = le32 bs 24, reg_edx = le32 bs 28, reg_ecx = le32 bs 32, reg_eax = le32 bs 36\<rparr>,
     utf_eip = le32 bs 40, utf_eflags = le32 bs 44, utf_esp = le32 bs 48\<rparr>"

text \<open>An environment whose exception stack, at \<open>0xeebff000\<close>, is page 3; it handles its page faults.\<close>

definition with_xstack :: kstate where
  "with_xstack = set_curenv (Some 0) ((bss_kstate 4 4)\<lparr>cr3 := 2,
     frames := (\<lambda>_ _. 0)(2 := (\<lambda>_. 0)(954 := 0x1007), 1 := (\<lambda>_. 0)(1023 := 0x3007)),
     pages := (\<lambda>p. \<lparr>pp_link = None, pp_ref = (if p \<in> {1, 2, 3} then 1 else 0)\<rparr>),
     envs := (\<lambda>_. zero_env\<lparr>env_pgdir := Some 2, env_status := ENV_RUNNING, env_pgfault_upcall := 0x800020\<rparr>)\<rparr>)"

section \<open>Reading and storing the frame\<close>

lemma bytes_of32_length [simp]: "length (bytes_of32 w) = 4"
  by (simp add: bytes_of32_def)

lemma le32_first [simp]: "le32 (bytes_of32 w @ bs) 0 = w"
  by (rule le32_bytes_of32)

lemma le32_skip [simp]: "4 \<le> n \<Longrightarrow> le32 (bytes_of32 w @ bs) n = le32 bs (n - 4)"
  by (simp add: le32_def drop_append bytes_of32_length)

lemma le32_last [simp]: "le32 (bytes_of32 w) 0 = w"
  using le32_bytes_of32 [of w "[]"] by simp

lemma utrapframe_of_bytes:
  "utrapframe_of (utrapframe_bytes cr2 tf) = \<lparr>utf_fault_va = cr2, utf_err = tf_err tf, utf_regs = tf_regs tf,
     utf_eip = tf_eip tf, utf_eflags = tf_eflags tf, utf_esp = tf_esp tf\<rparr>"
  by (simp add: utrapframe_of_def utrapframe_bytes_def regs_bytes_def)

lemma utrapframe_bytes_length: "length (utrapframe_bytes cr2 tf) = 52"
  by (simp add: utrapframe_bytes_def regs_bytes_def bytes_of32_def)

lemma va_store_bytes_ok:
  assumes "wf_vm U D s" "cr3 s \<in> D" "\<forall>k<length bs. PDX (va + of_nat k) \<in> U"
    and "\<forall>k<length bs. \<exists>e. translate s (cr3 s) (va + of_nat k) = Some e \<and> e AND PTE_W \<noteq> 0"
  shows "\<exists>s'. va_store_bytes va bs s = Ok s'"
  using assms
proof (induction bs arbitrary: va s)
  case (Cons b bs)
  obtain e where "translate s (cr3 s) va = Some e" "e AND PTE_W \<noteq> 0" using Cons.prems(4) [rule_format, of 0] by auto
  then obtain s1 where s1: "va_store8 va b s = Ok s1" by (simp add: va_store8_def)
  have va: "PDX va \<in> U" using Cons.prems(3) [rule_format, of 0] by simp
  note st = va_store8_vm [OF Cons.prems(1,2) va s1]
  then have cr3: "cr3 s1 = cr3 s" using vm_frame_fields(9) by blast
  have "PDX (va + 1 + of_nat k) \<in> U" if "k < length bs" for k
    using Cons.prems(3) [rule_format, of "Suc k"] that by (simp add: ac_simps)
  moreover have "\<exists>e. translate s1 (cr3 s1) (va + 1 + of_nat k) = Some e \<and> e AND PTE_W \<noteq> 0" if "k < length bs" for k
    using Cons.prems(2) Cons.prems(3,4) [rule_format, of "Suc k"] that st cr3 by (simp add: ac_simps translate_def)
  ultimately have "\<exists>s'. va_store_bytes (va + 1) bs s1 = Ok s'"
    using st cr3 Cons.prems(2) by (intro Cons.IH) simp_all
  with s1 show ?case by simp
qed simp

lemma xstack_page:
  assumes "UXSTACKTOP - PGSIZE \<le> a" "a < UXSTACKTOP"
  shows "PGNUM a = PGNUM (UXSTACKTOP - PGSIZE)" "PDX a = 954" "PTX a = 1023"
proof -
  have a: "0xeebff000 \<le> unat a" "unat a < 0xeec00000" using assms by (simp_all add: mmu_defs word_le_nat_alt word_less_nat_alt)
  then have n: "unat a div 4096 = 0xeebff" by (intro div_nat_eqI) simp_all
  then show "PGNUM a = PGNUM (UXSTACKTOP - PGSIZE)" by (simp add: PGNUM_div mmu_defs)
  then have "PDX a = PDX (UXSTACKTOP - PGSIZE) \<and> PTX a = PTX (UXSTACKTOP - PGSIZE)" by (simp only: PDX_PTX_PGNUM)
  then show "PDX a = 954" "PTX a = 1023" by (simp_all add: mmu_defs PDX_def PTX_def)
qed

lemma utrapframe_range:
  assumes "UXSTACKTOP - PGSIZE \<le> utrapframe_addr esp" "k < 52"
  shows "UXSTACKTOP - PGSIZE \<le> utrapframe_addr esp + of_nat k" "utrapframe_addr esp + of_nat k < UXSTACKTOP"
    "ROUNDUP (utrapframe_addr esp + 52) PGSIZE = UXSTACKTOP" "utrapframe_addr esp < UXSTACKTOP"
proof -
  have u: "unat (utrapframe_addr esp) \<le> 0xeec00000 - 52"
  proof (cases "esp < UXSTACKTOP \<and> esp > UXSTACKTOP - PGSIZE")
    case True
    then have "0xeebff000 < unat esp" "unat esp < 0xeec00000" by (simp_all add: mmu_defs word_less_nat_alt)
    moreover from this have "unat (esp - 56) = unat esp - 56" by (simp add: unat_sub word_le_nat_alt)
    ultimately show ?thesis using True by (simp add: utrapframe_addr_def diff_diff_eq [symmetric])
  next
    case False
    then show ?thesis unfolding utrapframe_addr_def if_not_P [OF False] by (simp add: mmu_defs)
  qed
  have l: "0xeebff000 \<le> unat (utrapframe_addr esp)" using assms(1) by (simp add: mmu_defs word_le_nat_alt)
  have k: "unat (utrapframe_addr esp + of_nat j) = unat (utrapframe_addr esp) + j" if "j \<le> 52" for j
    using u that by (simp add: unat_word_ariths unat_of_nat)
  show "UXSTACKTOP - PGSIZE \<le> utrapframe_addr esp + of_nat k" "utrapframe_addr esp + of_nat k < UXSTACKTOP"
    "utrapframe_addr esp < UXSTACKTOP"
    using u l k [of k] assms(2) by (simp_all add: mmu_defs word_le_nat_alt word_less_nat_alt)
  have k52: "unat (utrapframe_addr esp + 52) = unat (utrapframe_addr esp) + 52" using k [of 52] by simp
  then have "unat (ROUNDUP (utrapframe_addr esp + 52) PGSIZE) = (unat (utrapframe_addr esp + 52) + 4095) div 4096 * 4096"
    using u by (intro unat_ROUNDUP) simp
  moreover have "(unat (utrapframe_addr esp + 52) + 4095) div 4096 = 0xeec00" using u l unfolding k52 by (intro div_nat_eqI) simp_all
  ultimately show "ROUNDUP (utrapframe_addr esp + 52) PGSIZE = UXSTACKTOP" by (simp add: word_unat_eq_iff mmu_defs)
qed

lemma va_load_bytes_cong:
  assumes "cr3 t = cr3 s" "frames t = frames s" "slot t = slot s"
  shows "va_load_bytes va n t = va_load_bytes va n s"
proof (induction n arbitrary: va)
  case (Suc n)
  have "frame_byte t = frame_byte s" by (intro ext) (simp add: frame_byte_def assms(2))
  with Suc show ?case by (simp add: va_load8_def translate_def assms split: option.split)
qed simp

lemma xstack_translate:
  assumes "UXSTACKTOP - PGSIZE \<le> a" "a < UXSTACKTOP"
  shows "translate s d a = translate s d (UXSTACKTOP - PGSIZE)"
  using xstack_page [OF assms] by (simp add: translate_def mmu_defs PDX_def PTX_def)

lemma user_mem_assert_xstack:
  assumes "\<forall>i<1024. \<forall>t. tab s d i = Some t \<longrightarrow> t < npages s" "env_pgdir (envs s c) = Some d"
    and "translate s d (UXSTACKTOP - PGSIZE) = Some e" "(NOT e) AND (PTE_W OR PTE_U) = 0"
    and "UXSTACKTOP - PGSIZE \<le> utrapframe_addr esp"
  shows "user_mem_assert c (utrapframe_addr esp) 52 PTE_W s = KRet () s"
proof -
  note r = utrapframe_range [OF assms(5), of 0, simplified]
  have "user_ok s d (PTE_W OR PTE_U) a" if lo: "utrapframe_addr esp \<le> a" and hi: "a < UXSTACKTOP" for a
  proof -
    have a: "UXSTACKTOP - PGSIZE \<le> a" using assms(5) lo by simp
    obtain t where t: "tab s d (PDX a) = Some t" "frames s t (PTX a) = e"
      using assms(3) xstack_translate [OF a hi, of s d]
      by (auto simp: translate_def slot_def split: option.splits if_splits)
    moreover have "a < ULIM" using hi by (simp add: mmu_defs word_less_nat_alt)
    ultimately show ?thesis using assms(4) by (simp add: user_ok_def)
  qed
  then have "user_mem_check c (utrapframe_addr esp) 52 (PTE_W OR PTE_U) s = Ok (0, s)"
    using user_mem_check_loop_spec [OF assms(1), of "utrapframe_addr esp" UXSTACKTOP "PTE_W OR PTE_U"]
    by (simp add: user_mem_check_def r(3) assms(2)) blast
  then show ?thesis by (simp add: user_mem_assert_def)
qed

text \<open>
  C25. A page fault in user mode reaches user code. If the environment has a handler and its exception
  stack is mapped writable, the kernel resumes it at the handler, with the stack pointer at a frame on
  the exception stack from which the handler reads back the faulting address, the error code and all
  registers at the fault. A fault in the handler itself puts the next frame below the stack pointer,
  with one free word in between.
\<close>

theorem page_fault_delivered:
  assumes "wf_vm U D s" "d \<in> D" "954 \<in> U" "\<forall>i<1024. \<forall>t. tab s d i = Some t \<longrightarrow> t < npages s"
    and "curenv s = Some c" "env_pgdir (envs s c) = Some d" "cr3 s = d"
    and "env_pgfault_upcall (envs s c) \<noteq> 0" "tf_cs tf AND 3 \<noteq> 0"
    and "translate s d (UXSTACKTOP - PGSIZE) = Some e" "(NOT e) AND (PTE_W OR PTE_U) = 0"
    and "UXSTACKTOP - PGSIZE \<le> utrapframe_addr (tf_esp tf)"
  shows "\<exists>s' bs. page_fault_handler cr2 tf s = KRun c s' \<and> wf_vm U D s' \<and> curenv s' = Some c \<and> cr3 s' = d
    \<and> tf_eip (env_tf (envs s' c)) = env_pgfault_upcall (envs s c)
    \<and> va_load_bytes (tf_esp (env_tf (envs s' c))) 52 s' = Ok bs
    \<and> utrapframe_of bs = \<lparr>utf_fault_va = cr2, utf_err = tf_err tf, utf_regs = tf_regs tf,
         utf_eip = tf_eip tf, utf_eflags = tf_eflags tf, utf_esp = tf_esp tf\<rparr>
    \<and> (UXSTACKTOP - PGSIZE < tf_esp tf \<and> tf_esp tf < UXSTACKTOP
         \<longrightarrow> tf_esp (env_tf (envs s' c)) + 52 + 4 = tf_esp tf)"
proof -
  let ?utf = "utrapframe_addr (tf_esp tf)" and ?bs = "utrapframe_bytes cr2 tf"
  note r = utrapframe_range [OF assms(12)]
  have cr3: "cr3 s \<in> D" using assms(2,7) by simp
  have W: "e AND PTE_W \<noteq> 0"
  proof -
    have "bit ((NOT e) AND (PTE_W OR PTE_U)) 1 = bit (0::u32) 1" using assms(11) by simp
    then have "bit e 1" by (simp add: mmu_defs bit_simps)
    then show ?thesis using and_bit_word [of e 1] by (simp add: mmu_defs)
  qed
  have U: "\<forall>k<length ?bs. PDX (?utf + of_nat k) \<in> U"
    using xstack_page(2) [OF r(1,2)] assms(3) by (simp add: utrapframe_bytes_length)
  obtain s1 where s1: "va_store_bytes ?utf ?bs s = Ok s1"
    using va_store_bytes_ok [OF assms(1) cr3 U] xstack_translate [OF r(1,2)] assms(7,10) W
    by (auto simp: utrapframe_bytes_length)
  note st = va_store_bytes_vm [OF assms(1) cr3 U s1]
  note fr = vm_frame_fields [OF conjunct1 [OF conjunct2 [OF st]]]
  have load: "va_load_bytes ?utf 52 s1 = Ok ?bs"
    using va_store_load [OF assms(1) cr3 U _ s1] by (simp add: utrapframe_bytes_length)
  define t where "t = upd_env c (\<lambda>v. v\<lparr>env_tf := (env_tf v)\<lparr>tf_eip := env_pgfault_upcall v, tf_esp := ?utf\<rparr>\<rparr>) s1"
  let ?s' = "upd_env c (\<lambda>v. v\<lparr>env_cpunum := cpunum t\<rparr>) t"
  have cur: "curenv t = Some c" using assms(5) fr(10) by (simp add: t_def)
  have "page_fault_handler cr2 tf s = env_run c t"
    using assms(5,8,9) user_mem_assert_xstack [OF assms(4,6,10,11,12)] s1
    by (simp add: page_fault_handler_def deref_env_def t_def)
  then have run: "page_fault_handler cr2 tf s = KRun c ?s'"
    using cur by (simp add: env_run_def env_pop_tf_def)
  have "va_load_bytes ?utf 52 ?s' = va_load_bytes ?utf 52 s1" by (rule va_load_bytes_cong) (simp_all add: t_def)
  then have "va_load_bytes ?utf 52 ?s' = Ok ?bs" using load by simp
  moreover have "tf_eip (env_tf (envs ?s' c)) = env_pgfault_upcall (envs s c)" "tf_esp (env_tf (envs ?s' c)) = ?utf"
    using fr(4) by (simp_all add: t_def)
  moreover have "curenv ?s' = Some c" "cr3 ?s' = d" "wf_vm U D ?s'" using cur fr(9) assms(7) st by (simp_all add: t_def)
  ultimately show ?thesis using run
    by (intro exI [of _ ?s'] exI [of _ ?bs]) (simp add: utrapframe_of_bytes, simp add: utrapframe_addr_def)
qed

lemma with_xstack_vm:
  "wf_vm {954} {2} with_xstack" "translate with_xstack 2 (UXSTACKTOP - PGSIZE) = Some 0x3007"
  "\<forall>i<1024. \<forall>t. tab with_xstack 2 i = Some t \<longrightarrow> t < npages with_xstack"
proof -
  let ?s = with_xstack
  have st: "frames ?s = (\<lambda>_ _. 0)(2 := (\<lambda>_. 0)(954 := 0x1007), 1 := (\<lambda>_. 0)(1023 := 0x3007))" "npages ?s = 4"
    "page_free_list ?s = None"
    and pg: "pages ?s = (\<lambda>p. \<lparr>pp_link = None, pp_ref = (if p \<in> {1, 2, 3} then 1 else 0)\<rparr>)"
    by (simp_all add: with_xstack_def set_curenv_def bss_kstate_def)
  have tab: "tab ?s 2 i = (if i = 954 then Some 1 else None)" for i by (simp add: tab_def st mmu_defs PGNUM_def)
  then show "\<forall>i<1024. \<forall>t. tab ?s 2 i = Some t \<longrightarrow> t < npages ?s" by (simp add: st)
  have slot: "slot ?s 2 i j = (if i = 954 \<and> j = 1023 then Some 0x3007 else None)" for i j
    by (simp add: slot_def tab st mmu_defs)
  then show "translate ?s 2 (UXSTACKTOP - PGSIZE) = Some 0x3007" by (simp add: translate_def PDX_def PTX_def mmu_defs)
  have fl: "free_list ?s []" by (simp add: free_list_def st pg)
  then have free: "free_pages ?s = []" by (rule free_list_free_pages)
  have wf: "wf_pages ?s" using fl by (auto simp: wf_pages_iff st)
  have tabs: "tables {954} {2} ?s = {1}" by (auto simp: tables_def tab)
  have "wf_tables {954} {2} ?s" using wf by (simp add: wf_tables_def tabs free tab st)
  moreover have "mappings {954} {2} ?s p = (if p = 3 then {(2, 954, 1023)} else {})" for p
    by (auto simp: mappings_def slot PGNUM_def split: if_splits)
  ultimately show "wf_vm {954} {2} ?s" by (simp add: wf_vm_def slot tabs PGNUM_def st pg)
qed

theorem page_fault_delivered_witness:
  "\<exists>s' bs. page_fault_handler 0xdeadbeef (new_trapframe\<lparr>tf_eip := 0x800100\<rparr>) with_xstack = KRun 0 s'
     \<and> tf_eip (env_tf (envs s' 0)) = 0x800020
     \<and> va_load_bytes (tf_esp (env_tf (envs s' 0))) 52 s' = Ok bs
     \<and> utf_fault_va (utrapframe_of bs) = 0xdeadbeef \<and> utf_eip (utrapframe_of bs) = 0x800100"
proof -
  let ?tf = "new_trapframe\<lparr>tf_eip := 0x800100\<rparr>"
  have env: "curenv with_xstack = Some 0" "env_pgdir (envs with_xstack 0) = Some 2" "cr3 with_xstack = 2"
    "env_pgfault_upcall (envs with_xstack 0) = 0x800020"
    by (simp_all add: with_xstack_def) (simp add: set_curenv_def)
  have "tf_cs ?tf AND 3 \<noteq> 0" "(NOT (0x3007::u32)) AND (PTE_W OR PTE_U) = 0" "UXSTACKTOP - PGSIZE \<le> utrapframe_addr (tf_esp ?tf)"
    by (simp_all add: new_trapframe_def mmu_defs utrapframe_addr_def)
  from page_fault_delivered [OF with_xstack_vm(1) _ _ with_xstack_vm(3) env(1-3) _ this(1) with_xstack_vm(2) this(2,3), of "0xdeadbeef"]
  show ?thesis unfolding env(4) by force
qed

text \<open>
  Whether the processor pushes an error code for an exception vector.
\<close>

definition cpu_pushes_error :: "nat \<Rightarrow> bool" where
  "cpu_pushes_error v \<longleftrightarrow> v \<in> {8, 10, 11, 12, 13, 14, 17}"

lemma idt_in_list: "idt v = Some (h, dpl) \<Longrightarrow> (v, h, dpl) \<in> set trap_init"
  by (simp add: idt_def map_of_SomeD)

text \<open>
  C26. The descriptor table. Every gate leads to an entry point that pushes the number of its own vector,
  no vector is assigned twice, and user code may raise exactly the breakpoint, overflow, bound and system
  call vectors itself. The entry point adds a dummy error code when the processor pushes none, so that
  trap frames have one layout, with one exception: the entry of \<open>T_FPERR\<close> adds none although the processor
  pushes none either, so that its trap frame is shifted by one word.
\<close>

theorem idt_entries:
  assumes "idt v = Some (h, dpl)"
  shows "fst (traphandler h) = v \<and> distinct (map fst trap_init)
    \<and> (dpl = 3 \<longleftrightarrow> v \<in> {T_BRKPT, T_OFLOW, T_BOUND, T_SYSCALL})
    \<and> (snd (traphandler h) \<longleftrightarrow> \<not> cpu_pushes_error v \<and> v \<noteq> T_FPERR)"
proof -
  have "distinct (map fst trap_init)" by (simp add: trap_init_def trap_defs)
  moreover have "list_all (\<lambda>(v, h, dpl). fst (traphandler h) = v \<and> (dpl = 3 \<longleftrightarrow> v \<in> {T_BRKPT, T_OFLOW, T_BOUND, T_SYSCALL})
      \<and> (snd (traphandler h) \<longleftrightarrow> \<not> cpu_pushes_error v \<and> v \<noteq> T_FPERR)) trap_init"
    by (simp add: trap_init_def trap_defs cpu_pushes_error_def)
  ultimately show ?thesis using idt_in_list [OF assms] by (auto simp: list_all_iff)
qed

theorem idt_entries_witness:
  "idt T_SYSCALL = Some (system_call, 3) \<and> fst (traphandler system_call) = T_SYSCALL
   \<and> idt T_FPERR = Some (fpu_floating_point_error, 0) \<and> \<not> cpu_pushes_error T_FPERR \<and> \<not> snd (traphandler fpu_floating_point_error)"
proof -
  have i: "idt T_SYSCALL = Some (system_call, 3)" "idt T_FPERR = Some (fpu_floating_point_error, 0)"
    by (simp_all add: idt_def trap_init_def trap_defs)
  show ?thesis using i idt_entries [OF i(1)] idt_entries [OF i(2)] by (simp add: cpu_pushes_error_def trap_defs)
qed

end
