(* ===== verification/Cstring.thy ===== *)
theory Cstring
  imports Mmu
begin

text \<open>
  The string and memory routines of \<open>lib/string.c\<close>, used by the kernel and by user programs, over a
  flat byte memory. A loop that runs until it meets a null byte may run forever when memory has none;
  such a function is a partial function whose value \<open>None\<close> is that it does not return. The routines
  that are written with \<open>rep stos\<close> and \<open>rep movs\<close> instructions are modelled with these instructions.
  Faults of the accesses are not part of this model.
\<close>

section \<open>Definitions\<close>

type_synonym mem = "u32 \<Rightarrow> u8"

partial_function (option) strlen_loop :: "mem \<Rightarrow> u32 \<Rightarrow> u32 \<Rightarrow> u32 option" where
  "strlen_loop m s n = (if m s = 0 then Some n else strlen_loop m (s + 1) (n + 1))"

definition strlen :: "mem \<Rightarrow> u32 \<Rightarrow> u32 option" where
  "strlen m s = strlen_loop m s 0"

fun strnlen_loop :: "mem \<Rightarrow> u32 \<Rightarrow> nat \<Rightarrow> u32 \<Rightarrow> u32" where
  "strnlen_loop m s 0 n = n"
| "strnlen_loop m s (Suc sz) n = (if m s = 0 then n else strnlen_loop m (s + 1) sz (n + 1))"

definition strnlen :: "mem \<Rightarrow> u32 \<Rightarrow> u32 \<Rightarrow> u32" where
  "strnlen m s sz = strnlen_loop m s (unat sz) 0"

partial_function (option) strcpy_loop :: "u32 \<Rightarrow> u32 \<Rightarrow> mem \<Rightarrow> mem option" where
  "strcpy_loop dst src m =
     (let c = m src; m = m(dst := c)
      in if c = 0 then Some m else strcpy_loop (dst + 1) (src + 1) m)"

definition strcpy :: "u32 \<Rightarrow> u32 \<Rightarrow> mem \<Rightarrow> (u32 \<times> mem) option" where
  "strcpy dst src m = map_option (Pair dst) (strcpy_loop dst src m)"

definition strcat :: "u32 \<Rightarrow> u32 \<Rightarrow> mem \<Rightarrow> (u32 \<times> mem) option" where
  "strcat dst src m =
     Option.bind (strlen m dst) (\<lambda>len.
     Option.bind (strcpy (dst + len) src m) (\<lambda>(_, m). Some (dst, m)))"

fun strncpy_loop :: "nat \<Rightarrow> u32 \<Rightarrow> u32 \<Rightarrow> mem \<Rightarrow> mem" where
  "strncpy_loop 0 dst src m = m"
| "strncpy_loop (Suc n) dst src m =
     (let m = m(dst := m src)
      in strncpy_loop n (dst + 1) (if m src \<noteq> 0 then src + 1 else src) m)"

definition strncpy :: "u32 \<Rightarrow> u32 \<Rightarrow> u32 \<Rightarrow> mem \<Rightarrow> u32 \<times> mem" where
  "strncpy dst src sz m = (dst, strncpy_loop (unat sz) dst src m)"

fun strlcpy_loop :: "nat \<Rightarrow> u32 \<Rightarrow> u32 \<Rightarrow> mem \<Rightarrow> u32 \<times> mem" where
  "strlcpy_loop 0 dst src m = (dst, m)"
| "strlcpy_loop (Suc n) dst src m =
     (if m src = 0 then (dst, m) else strlcpy_loop n (dst + 1) (src + 1) (m(dst := m src)))"

definition strlcpy :: "u32 \<Rightarrow> u32 \<Rightarrow> u32 \<Rightarrow> mem \<Rightarrow> u32 \<times> mem" where
  "strlcpy dst_in src sz m =
     (if sz > 0
      then let (dst, m) = strlcpy_loop (unat sz - 1) dst_in src m in (dst - dst_in, m(dst := 0))
      else (0, m))"

partial_function (option) strcmp :: "mem \<Rightarrow> u32 \<Rightarrow> u32 \<Rightarrow> int option" where
  "strcmp m p q =
     (if m p \<noteq> 0 \<and> m p = m q then strcmp m (p + 1) (q + 1) else Some (uint (m p) - uint (m q)))"

fun strncmp_loop :: "mem \<Rightarrow> u32 \<Rightarrow> u32 \<Rightarrow> nat \<Rightarrow> int" where
  "strncmp_loop m p q 0 = 0"
| "strncmp_loop m p q (Suc n) =
     (if m p \<noteq> 0 \<and> m p = m q then strncmp_loop m (p + 1) (q + 1) n else uint (m p) - uint (m q))"

definition strncmp :: "mem \<Rightarrow> u32 \<Rightarrow> u32 \<Rightarrow> u32 \<Rightarrow> int" where
  "strncmp m p q n = strncmp_loop m p q (unat n)"

text \<open>A null pointer is the address 0.\<close>

partial_function (option) strchr :: "mem \<Rightarrow> u32 \<Rightarrow> u8 \<Rightarrow> u32 option" where
  "strchr m s c = (if m s = 0 then Some 0 else if m s = c then Some s else strchr m (s + 1) c)"

partial_function (option) strfind :: "mem \<Rightarrow> u32 \<Rightarrow> u8 \<Rightarrow> u32 option" where
  "strfind m s c = (if m s = 0 then Some s else if m s = c then Some s else strfind m (s + 1) c)"

text \<open>
  The string instructions: storing \<open>al\<close> or \<open>eax\<close>, and moving bytes or words; \<open>step\<close> is what the
  direction flag adds to both pointers (1 or 4 forward, -1 or -4 backward).
\<close>

definition load32 :: "mem \<Rightarrow> u32 \<Rightarrow> u32" where
  "load32 m a = ucast (m a) OR push_bit 8 (ucast (m (a + 1))) OR push_bit 16 (ucast (m (a + 2)))
     OR push_bit 24 (ucast (m (a + 3)))"

definition store32 :: "u32 \<Rightarrow> u32 \<Rightarrow> mem \<Rightarrow> mem" where
  "store32 a w m = m(a := ucast w, a + 1 := ucast (drop_bit 8 w), a + 2 := ucast (drop_bit 16 w),
     a + 3 := ucast (drop_bit 24 w))"

fun rep_stosb :: "nat \<Rightarrow> u32 \<Rightarrow> u8 \<Rightarrow> mem \<Rightarrow> mem" where
  "rep_stosb 0 edi al m = m"
| "rep_stosb (Suc ecx) edi al m = rep_stosb ecx (edi + 1) al (m(edi := al))"

fun rep_stosl :: "nat \<Rightarrow> u32 \<Rightarrow> u32 \<Rightarrow> mem \<Rightarrow> mem" where
  "rep_stosl 0 edi eax m = m"
| "rep_stosl (Suc ecx) edi eax m = rep_stosl ecx (edi + 4) eax (store32 edi eax m)"

fun rep_movsb :: "nat \<Rightarrow> u32 \<Rightarrow> u32 \<Rightarrow> u32 \<Rightarrow> mem \<Rightarrow> mem" where
  "rep_movsb 0 step edi esi m = m"
| "rep_movsb (Suc ecx) step edi esi m = rep_movsb ecx step (edi + step) (esi + step) (m(edi := m esi))"

fun rep_movsl :: "nat \<Rightarrow> u32 \<Rightarrow> u32 \<Rightarrow> u32 \<Rightarrow> mem \<Rightarrow> mem" where
  "rep_movsl 0 step edi esi m = m"
| "rep_movsl (Suc ecx) step edi esi m =
     rep_movsl ecx step (edi + step) (esi + step) (store32 edi (load32 m esi) m)"

definition memset :: "u32 \<Rightarrow> u32 \<Rightarrow> u32 \<Rightarrow> mem \<Rightarrow> u32 \<times> mem" where
  "memset v c n m =
     (if n = 0 then (v, m)
      else if v mod 4 = 0 \<and> n mod 4 = 0
      then let c = c AND 0xFF;
               c = push_bit 24 c OR push_bit 16 c OR push_bit 8 c OR c
           in (v, rep_stosl (unat (n div 4)) v c m)
      else (v, rep_stosb (unat n) v (ucast c) m))"

definition memmove :: "u32 \<Rightarrow> u32 \<Rightarrow> u32 \<Rightarrow> mem \<Rightarrow> u32 \<times> mem" where
  "memmove dst src n m =
     (if src < dst \<and> src + n > dst
      then let s = src + n; d = dst + n
           in if s mod 4 = 0 \<and> d mod 4 = 0 \<and> n mod 4 = 0
              then (dst, rep_movsl (unat (n div 4)) (- 4) (d - 4) (s - 4) m)
              else (dst, rep_movsb (unat n) (- 1) (d - 1) (s - 1) m)
      else if src mod 4 = 0 \<and> dst mod 4 = 0 \<and> n mod 4 = 0
           then (dst, rep_movsl (unat (n div 4)) 4 dst src m)
           else (dst, rep_movsb (unat n) 1 dst src m))"

definition memcpy :: "u32 \<Rightarrow> u32 \<Rightarrow> u32 \<Rightarrow> mem \<Rightarrow> u32 \<times> mem" where
  "memcpy dst src n m = memmove dst src n m"

text \<open>The portable versions, which are compiled without \<open>ASM\<close>.\<close>

fun memset_c_loop :: "nat \<Rightarrow> u32 \<Rightarrow> u8 \<Rightarrow> mem \<Rightarrow> mem" where
  "memset_c_loop 0 p c m = m"
| "memset_c_loop (Suc k) p c m = memset_c_loop k (p + 1) c (m(p := c))"

definition memset_c :: "u32 \<Rightarrow> u32 \<Rightarrow> u32 \<Rightarrow> mem \<Rightarrow> u32 \<times> mem" where
  "memset_c v c n m = (v, memset_c_loop (nat (sint n)) v (ucast c) m)"

fun copy_down :: "nat \<Rightarrow> u32 \<Rightarrow> u32 \<Rightarrow> mem \<Rightarrow> mem" where
  "copy_down 0 d s m = m"
| "copy_down (Suc n) d s m = copy_down n (d - 1) (s - 1) (m(d - 1 := m (s - 1)))"

fun copy_up :: "nat \<Rightarrow> u32 \<Rightarrow> u32 \<Rightarrow> mem \<Rightarrow> mem" where
  "copy_up 0 d s m = m"
| "copy_up (Suc n) d s m = copy_up n (d + 1) (s + 1) (m(d := m s))"

definition memmove_c :: "u32 \<Rightarrow> u32 \<Rightarrow> u32 \<Rightarrow> mem \<Rightarrow> u32 \<times> mem" where
  "memmove_c dst src n m =
     (if src < dst \<and> src + n > dst then (dst, copy_down (unat n) (dst + n) (src + n) m)
      else (dst, copy_up (unat n) dst src m))"

fun memcmp_loop :: "mem \<Rightarrow> u32 \<Rightarrow> u32 \<Rightarrow> nat \<Rightarrow> int" where
  "memcmp_loop m s1 s2 0 = 0"
| "memcmp_loop m s1 s2 (Suc n) =
     (if m s1 \<noteq> m s2 then uint (m s1) - uint (m s2) else memcmp_loop m (s1 + 1) (s2 + 1) n)"

definition memcmp :: "mem \<Rightarrow> u32 \<Rightarrow> u32 \<Rightarrow> u32 \<Rightarrow> int" where
  "memcmp m v1 v2 n = memcmp_loop m v1 v2 (unat n)"

function memfind_loop :: "mem \<Rightarrow> u32 \<Rightarrow> u32 \<Rightarrow> u8 \<Rightarrow> u32" where
  "memfind_loop m s ends c =
     (if s < ends then if m s = c then s else memfind_loop m (s + 1) ends c else s)"
  by pat_completeness auto

termination
proof (relation "measure (\<lambda>(m, s, ends, c). unat ends - unat s)")
  fix m :: mem and s ends :: u32 and c :: u8
  assume "s < ends"
  then have "unat s < unat ends" by (simp add: word_less_nat_alt)
  moreover from this have "unat (s + 1) = unat s + 1"
    using unat_u32_less [of ends] by (simp add: unat_word_ariths)
  ultimately show "((m, s + 1, ends, c), (m, s, ends, c)) \<in> measure (\<lambda>(m, s, ends, c). unat ends - unat s)" by simp
qed simp

definition memfind :: "mem \<Rightarrow> u32 \<Rightarrow> u32 \<Rightarrow> u32 \<Rightarrow> u32" where
  "memfind m s c n = memfind_loop m s (s + n) (ucast c)"

section \<open>Numbers\<close>

partial_function (option) skip_blank :: "mem \<Rightarrow> u32 \<Rightarrow> u32 option" where
  "skip_blank m s = (if m s = 32 \<or> m s = 9 then skip_blank m (s + 1) else Some s)"

text \<open>The value of a digit or letter.\<close>

definition digit_value :: "u8 \<Rightarrow> int option" where
  "digit_value c =
     (if 48 \<le> c \<and> c \<le> 57 then Some (uint c - 48)
      else if 97 \<le> c \<and> c \<le> 122 then Some (uint c - 97 + 10)
      else if 65 \<le> c \<and> c \<le> 90 then Some (uint c - 65 + 10)
      else None)"

partial_function (option) strtol_digits :: "mem \<Rightarrow> u32 \<Rightarrow> int \<Rightarrow> u32 \<Rightarrow> (u32 \<times> u32) option" where
  "strtol_digits m s base val =
     (case digit_value (m s) of
        None \<Rightarrow> Some (val, s)
      | Some dig \<Rightarrow> if dig \<ge> base then Some (val, s)
                    else strtol_digits m (s + 1) base (val * of_int base + of_int dig))"

text \<open>The value of \<open>strtol\<close> and what it stores in \<open>*endptr\<close>. A \<open>long\<close> has 32 bits.\<close>

definition strtol :: "mem \<Rightarrow> u32 \<Rightarrow> int \<Rightarrow> (u32 \<times> u32) option" where
  "strtol m s base =
     Option.bind (skip_blank m s) (\<lambda>s.
       let (s, neg) = (if m s = 43 then (s + 1, False) else if m s = 45 then (s + 1, True) else (s, False));
           (s, base) = (if (base = 0 \<or> base = 16) \<and> m s = 48 \<and> m (s + 1) = 120 then (s + 2, 16)
                        else if base = 0 \<and> m s = 48 then (s + 1, 8)
                        else if base = 0 then (s, 10) else (s, base))
       in Option.bind (strtol_digits m s base 0) (\<lambda>(val, s). Some (if neg then - val else val, s)))"

section \<open>Moving memory\<close>

text \<open>Memory after \<open>n\<close> bytes have moved from \<open>src\<close> to \<open>dst\<close>, whether they overlap or not.\<close>

definition moved :: "u32 \<Rightarrow> u32 \<Rightarrow> nat \<Rightarrow> mem \<Rightarrow> mem" where
  "moved dst src n m = (\<lambda>a. if dst \<le> a \<and> unat a < unat dst + n then m (src + (a - dst)) else m a)"

definition filled :: "u32 \<Rightarrow> u8 \<Rightarrow> nat \<Rightarrow> mem \<Rightarrow> mem" where
  "filled v c n m = (\<lambda>a. if v \<le> a \<and> unat a < unat v + n then c else m a)"

lemma in_range:
  fixes d a :: u32
  assumes "unat d + n \<le> 2 ^ 32"
  shows "(\<exists>k<n. a = d + of_nat k) \<longleftrightarrow> d \<le> a \<and> unat a < unat d + n"
proof
  assume "\<exists>k<n. a = d + of_nat k"
  then obtain k where k: "k < n" "a = d + of_nat k" by blast
  then have "unat a = unat d + k" using assms by (simp add: unat_word_ariths unat_of_nat)
  then show "d \<le> a \<and> unat a < unat d + n" using k by (simp add: word_le_nat_alt)
next
  assume a: "d \<le> a \<and> unat a < unat d + n"
  then have "a = d + of_nat (unat a - unat d)" by (simp add: word_le_nat_alt of_nat_diff)
  with a show "\<exists>k<n. a = d + of_nat k" by (intro exI [of _ "unat a - unat d"]) (auto simp: word_le_nat_alt)
qed

lemma copy_up_add: "copy_up (a + b) d s m = copy_up b (d + of_nat a) (s + of_nat a) (copy_up a d s m)"
  by (induction a arbitrary: d s m) (simp_all add: ac_simps)

lemma copy_down_add: "copy_down (a + b) d s m = copy_down b (d - of_nat a) (s - of_nat a) (copy_down a d s m)"
proof (induction a arbitrary: d s m)
  case (Suc a)
  have "d - 1 - of_nat a = d - of_nat (Suc a)" for d :: u32 by simp
  then show ?case using Suc [of "d - 1" "s - 1" "m(d - 1 := m (s - 1))"] by (simp only: add_Suc copy_down.simps)
qed simp

lemma copy_up_spec:
  assumes "\<forall>j k. j < k \<and> k < n \<longrightarrow> s + of_nat k \<noteq> d + of_nat j"
  shows "copy_up n d s m a = (if \<exists>k<n. a = d + of_nat k then m (s + (a - d)) else m a)"
  using assms
proof (induction n arbitrary: d s m)
  case (Suc n)
  let ?m = "m(d := m s)"
  have "s + 1 + of_nat k \<noteq> d + 1 + of_nat j" if "j < k" "k < n" for j k
    using Suc.prems [rule_format, of "Suc j" "Suc k"] that by (simp add: ac_simps)
  then have IH: "copy_up n (d + 1) (s + 1) ?m a = (if \<exists>k<n. a = d + 1 + of_nat k then ?m (s + 1 + (a - (d + 1))) else ?m a)"
    by (intro Suc.IH) blast
  have src: "s + 1 + (a - (d + 1)) = s + (a - d)" by simp
  show ?case
  proof (cases "\<exists>k<n. a = d + 1 + of_nat k")
    case True
    then obtain k where k: "k < n" "a = d + of_nat (Suc k)" by (auto simp: ac_simps)
    then have "s + (a - d) \<noteq> d" using Suc.prems [rule_format, of 0 "Suc k"] by simp
    then have "?m (s + (a - d)) = m (s + (a - d))" by simp
    moreover have "\<exists>k<Suc n. a = d + of_nat k" using k by (intro exI [of _ "Suc k"]) simp
    ultimately show ?thesis using IH True src by simp
  next
    case False
    then have "(\<exists>k<Suc n. a = d + of_nat k) \<longleftrightarrow> a = d"
      by (simp only: Ex_less_Suc2) (auto simp: ac_simps)
    then show ?thesis using IH False by simp
  qed
qed simp

lemma copy_down_spec:
  assumes "\<forall>j k. j < k \<and> k < n \<longrightarrow> s - of_nat k \<noteq> d - of_nat j"
  shows "copy_down n d s m a = (if \<exists>k<n. a = d - 1 - of_nat k then m (s - (d - a)) else m a)"
  using assms
proof (induction n arbitrary: d s m)
  case (Suc n)
  let ?m = "m(d - 1 := m (s - 1))"
  have "s - 1 - of_nat k \<noteq> d - 1 - of_nat j" if "j < k" "k < n" for j k
    using Suc.prems [rule_format, of "Suc j" "Suc k"] that by (simp add: algebra_simps)
  then have IH: "copy_down n (d - 1) (s - 1) ?m a = (if \<exists>k<n. a = d - 1 - 1 - of_nat k then ?m (s - 1 - (d - 1 - a)) else ?m a)"
    by (intro Suc.IH) blast
  have src: "s - 1 - (d - 1 - a) = s - (d - a)" by simp
  show ?case
  proof (cases "\<exists>k<n. a = d - 1 - 1 - of_nat k")
    case True
    then obtain k where k: "k < n" "a = d - 1 - of_nat (Suc k)" by (auto simp: algebra_simps)
    then have "s - of_nat (Suc k) \<noteq> d - of_nat 0" using Suc.prems [rule_format, of 0 "Suc k"] by simp
    moreover have eq: "s - of_nat (Suc k) = s - (d - a) + 1" using k(2) by simp
    have "s - of_nat (Suc k) = d - of_nat 0" if "s - (d - a) = d - 1" unfolding eq that by simp
    ultimately have "s - (d - a) \<noteq> d - 1" by blast
    then have "?m (s - (d - a)) = m (s - (d - a))" by (rule fun_upd_other)
    moreover have "copy_down (Suc n) d s m a = ?m (s - (d - a))"
      using IH True src by (simp only: copy_down.simps if_True)
    moreover have "\<exists>k<Suc n. a = d - 1 - of_nat k" using k by (intro exI [of _ "Suc k"]) simp
    ultimately show ?thesis by (simp only: if_True)
  next
    case False
    then have "(\<exists>k<Suc n. a = d - 1 - of_nat k) \<longleftrightarrow> a = d - 1"
      by (simp only: Ex_less_Suc2) (auto simp: algebra_simps)
    moreover have "copy_down (Suc n) d s m a = ?m a" using IH False by (simp only: copy_down.simps if_False)
    moreover have "s - (d - (d - 1)) = s - 1" by simp
    ultimately show ?thesis by (simp only: fun_upd_apply split: if_splits) auto
  qed
qed simp

lemma not_bit8: "8 \<le> i \<Longrightarrow> bit (y :: u8) i = False"
  using bit_imp_le_length [of y i] by auto

lemma load32_byte: "k < 4 \<Longrightarrow> ucast (drop_bit (8 * k) (load32 m s)) = m (s + of_nat k)"
proof -
  assume "k < 4"
  then consider "k = 0" | "k = 1" | "k = 2" | "k = 3" by linarith
  then show ?thesis
    by cases (rule bit_word_eqI; simp add: load32_def bit_simps not_bit8)+
qed

lemma store_load32:
  "store32 d (load32 m s) m' = m'(d := m s, d + 1 := m (s + 1), d + 2 := m (s + 2), d + 3 := m (s + 3))"
  using load32_byte [of 0 m s] load32_byte [of 1 m s] load32_byte [of 2 m s] load32_byte [of 3 m s]
  by (simp add: store32_def)

lemma four: "(4::nat) = Suc (Suc (Suc (Suc 0)))"
  by simp

lemma rep_movsb_up: "rep_movsb n 1 d s m = copy_up n d s m"
  by (induction n arbitrary: d s m) simp_all

lemma rep_movsb_down: "rep_movsb n (- 1) (d - 1) (s - 1) m = copy_down n d s m"
proof (induction n arbitrary: d s m)
  case (Suc n)
  have "d - 1 + - 1 = d - 1 - 1" for d :: u32 by simp
  then show ?case using Suc [of "d - 1" "s - 1"] by (simp only: rep_movsb.simps copy_down.simps)
qed simp

lemma rep_movsl_up:
  assumes "\<forall>j k. j < k \<and> k < 4 * n \<longrightarrow> s + of_nat k \<noteq> d + of_nat j"
  shows "rep_movsl n 4 d s m = copy_up (4 * n) d s m"
  using assms
proof (induction n arbitrary: d s m)
  case (Suc n)
  have ov: "s + of_nat k \<noteq> d + of_nat j" if "j < k" "k < 4 * Suc n" for j k using Suc.prems that by blast
  have "store32 d (load32 m s) m = copy_up 4 d s m"
    using ov [of 0 1] ov [of 0 2] ov [of 0 3] ov [of 1 2] ov [of 1 3] ov [of 2 3]
    unfolding store_load32 by (simp only: four copy_up.simps) (simp add: ac_simps)
  moreover have "\<forall>j k. j < k \<and> k < 4 * n \<longrightarrow> s + 4 + of_nat k \<noteq> d + 4 + of_nat j"
    using ov [of "j + 4" "k + 4" for j k] by (simp add: ac_simps)
  then have "rep_movsl n 4 (d + 4) (s + 4) m' = copy_up (4 * n) (d + 4) (s + 4) m'" for m' by (rule Suc.IH)
  ultimately show ?case using copy_up_add [of 4 "4 * n" d s m] by simp
qed simp

lemma copy_down_4:
  assumes "t \<noteq> e + 1" "t \<noteq> e + 2" "t \<noteq> e + 3"
  shows "store32 e (load32 m t) m = copy_down 4 (e + 4) (t + 4) m"
proof -
  have ne: "t + 2 \<noteq> e + 3" "t + 1 \<noteq> e + 3" "t + 1 \<noteq> e + 2" using assms by (auto simp: algebra_simps)
  have "copy_down 4 (e + 4) (t + 4) m = m(e + 3 := m (t + 3), e + 2 := m (t + 2), e + 1 := m (t + 1), e := m t)"
    using assms ne by (simp only: four copy_down.simps) (simp add: algebra_simps)
  also have "\<dots> = m(e := m t, e + 1 := m (t + 1), e + 2 := m (t + 2), e + 3 := m (t + 3))"
    by (rule ext) simp
  finally show ?thesis unfolding store_load32 by simp
qed

lemma rep_movsl_down:
  assumes "\<forall>j k. j < k \<and> k < 4 * n \<longrightarrow> s - of_nat k \<noteq> d - of_nat j"
  shows "rep_movsl n (- 4) (d - 4) (s - 4) m = copy_down (4 * n) d s m"
  using assms
proof (induction n arbitrary: d s m)
  case (Suc n)
  have ov: "s - of_nat k \<noteq> d - of_nat j" if "j < k" "k < 4 * Suc n" for j k using Suc.prems that by blast
  have "s - 4 \<noteq> d - 4 + 1" "s - 4 \<noteq> d - 4 + 2" "s - 4 \<noteq> d - 4 + 3"
    using ov [of 0 1] ov [of 0 2] ov [of 0 3] by (auto simp: algebra_simps)
  from copy_down_4 [OF this] have "store32 (d - 4) (load32 m (s - 4)) m = copy_down 4 d s m" by simp
  moreover have "\<forall>j k. j < k \<and> k < 4 * n \<longrightarrow> s - 4 - of_nat k \<noteq> d - 4 - of_nat j"
    using ov [of "j + 4" "k + 4" for j k] by (simp add: algebra_simps)
  then have "rep_movsl n (- 4) (d - 4 - 4) (s - 4 - 4) m' = copy_down (4 * n) (d - 4) (s - 4) m'" for m' by (rule Suc.IH)
  ultimately show ?case using copy_down_add [of 4 "4 * n" d s m] by simp
qed simp

lemma copy_up_moved:
  assumes "unat dst + n \<le> 2 ^ 32" "\<forall>j k. j < k \<and> k < n \<longrightarrow> src + of_nat k \<noteq> dst + of_nat j"
  shows "copy_up n dst src m = moved dst src n m"
  using copy_up_spec [OF assms(2)] in_range [OF assms(1)] by (auto simp: moved_def)

lemma copy_down_moved:
  assumes "unat dst + n \<le> 2 ^ 32" "\<forall>j k. j < k \<and> k < n \<longrightarrow> src + of_nat n - of_nat k \<noteq> dst + of_nat n - of_nat j"
  shows "copy_down n (dst + of_nat n) (src + of_nat n) m = moved dst src n m"
proof (rule ext)
  fix a
  have eq: "dst + of_nat n - 1 - of_nat k = dst + of_nat (n - 1 - k)" if "k < n" for k
    using that by (simp add: of_nat_diff)
  have "(\<exists>k<n. a = dst + of_nat n - 1 - of_nat k) \<longleftrightarrow> (\<exists>k<n. a = dst + of_nat k)"
  proof
    assume "\<exists>k<n. a = dst + of_nat n - 1 - of_nat k"
    then obtain k where "k < n" "a = dst + of_nat n - 1 - of_nat k" by blast
    with eq show "\<exists>k<n. a = dst + of_nat k" by (intro exI [of _ "n - 1 - k"]) simp
  next
    assume "\<exists>k<n. a = dst + of_nat k"
    then obtain k where "k < n" "a = dst + of_nat k" by blast
    with eq [of "n - 1 - k"] show "\<exists>k<n. a = dst + of_nat n - 1 - of_nat k" by (intro exI [of _ "n - 1 - k"]) simp
  qed
  moreover have "src + of_nat n - (dst + of_nat n - a) = src + (a - dst)" by simp
  ultimately show "copy_down n (dst + of_nat n) (src + of_nat n) m a = moved dst src n m a"
    unfolding copy_down_spec [OF assms(2)] moved_def by (simp only: in_range [OF assms(1)])
qed

lemma no_overlap:
  fixes src dst :: u32
  assumes "unat src + n < 2 ^ 32" "unat dst + n < 2 ^ 32"
  shows "\<not> (src < dst \<and> src + of_nat n > dst) \<Longrightarrow> j < k \<Longrightarrow> k < n \<Longrightarrow> src + of_nat k \<noteq> dst + of_nat j"
    and "src < dst \<Longrightarrow> j < k \<Longrightarrow> k < n \<Longrightarrow> src + of_nat n - of_nat k \<noteq> dst + of_nat n - of_nat j"
proof -
  have add: "unat (p + of_nat i) = unat p + i" if "unat p + n < 2 ^ 32" "i \<le> n" for p :: u32 and i
    using that by (simp add: unat_word_ariths unat_of_nat)
  show "src + of_nat k \<noteq> dst + of_nat j" if no: "\<not> (src < dst \<and> src + of_nat n > dst)" and jk: "j < k" "k < n"
  proof
    assume "src + of_nat k = dst + of_nat j"
    then have "unat src + k = unat dst + j" using add [OF assms(1), of k] add [OF assms(2), of j] jk by simp
    then show False using no jk add [OF assms(1), of n] by (simp add: word_less_nat_alt)
  qed
  show "src + of_nat n - of_nat k \<noteq> dst + of_nat n - of_nat j" if lt: "src < dst" and jk: "j < k" "k < n"
  proof
    assume "src + of_nat n - of_nat k = dst + of_nat n - of_nat j"
    then have "src + of_nat (n - k) = dst + of_nat (n - j)" using jk by (simp add: of_nat_diff)
    then have "unat src + (n - k) = unat dst + (n - j)" using add [OF assms(1), of "n - k"] add [OF assms(2), of "n - j"] by simp
    then show False using lt jk by (simp add: word_less_nat_alt)
  qed
qed

lemma four_div: "n mod 4 = 0 \<Longrightarrow> 4 * unat (n div 4) = unat n" for n :: u32
proof -
  assume "n mod 4 = 0"
  then have "unat (n mod 4) = 0" by simp
  then have "unat n mod 4 = 0" by (simp only: unat_mod_distrib) simp
  then show ?thesis by (simp add: unat_div_distrib) presburger
qed

text \<open>
  C29. \<open>memmove\<close> moves memory. As long as neither range reaches the end of the address space, the
  assembly version, in all four of its variants (forward or backward, bytes or words), and the portable
  version have the same effect: afterwards the destination holds what the source held before, also when
  they overlap, and all other memory is unchanged.
\<close>

theorem memmove_moves:
  assumes "unat src + unat n < 2 ^ 32" "unat dst + unat n < 2 ^ 32"
  shows "memmove dst src n m = (dst, moved dst src (unat n) m) \<and> memmove_c dst src n m = memmove dst src n m"
proof -
  let ?n = "unat n"
  have n: "of_nat ?n = n" by simp
  note ov = no_overlap [OF assms, unfolded n]
  have le: "unat dst + ?n \<le> 2 ^ 32" using assms(2) by simp
  show ?thesis
  proof (cases "src < dst \<and> src + n > dst")
    case True
    have down: "\<forall>j k. j < k \<and> k < ?n \<longrightarrow> src + n - of_nat k \<noteq> dst + n - of_nat j" using ov(2) True by blast
    then have moved: "copy_down ?n (dst + n) (src + n) m = moved dst src ?n m" using copy_down_moved [OF le] by simp
    have "rep_movsl (unat (n div 4)) (- 4) (dst + n - 4) (src + n - 4) m = copy_down ?n (dst + n) (src + n) m" if "n mod 4 = 0"
    proof -
      have "4 * unat (n div 4) = ?n" by (rule four_div [OF that])
      then show ?thesis using rep_movsl_down [of "unat (n div 4)" "src + n" "dst + n" m] down by simp
    qed
    then show ?thesis using True moved by (simp add: memmove_def memmove_c_def rep_movsb_down Let_def)
  next
    case False
    then have up: "\<forall>j k. j < k \<and> k < ?n \<longrightarrow> src + of_nat k \<noteq> dst + of_nat j" using ov(1) by blast
    then have moved: "copy_up ?n dst src m = moved dst src ?n m" by (rule copy_up_moved [OF le])
    have "rep_movsl (unat (n div 4)) 4 dst src m = copy_up ?n dst src m" if "n mod 4 = 0"
    proof -
      have "4 * unat (n div 4) = ?n" by (rule four_div [OF that])
      then show ?thesis using rep_movsl_up [of "unat (n div 4)" src dst m] up by simp
    qed
    then show ?thesis using False moved unfolding memmove_def memmove_c_def if_not_P [OF False] by (simp add: rep_movsb_up)
  qed
qed

theorem memmove_moves_witness:
  "snd (memmove 0x1004 0x1000 8 (\<lambda>a. ucast a)) 0x100b = 7 \<and> snd (memmove_c 0x1004 0x1000 8 (\<lambda>a. ucast a)) 0x1004 = 0"
  using memmove_moves [of "0x1000" 8 "0x1004" "\<lambda>a. ucast a"] by (simp add: moved_def)

lemma rep_stosb_eq: "rep_stosb n d c m a = (if \<exists>k<n. a = d + of_nat k then c else m a)"
proof (induction n arbitrary: d m)
  case (Suc n)
  then show ?case by (simp only: Ex_less_Suc2) (auto simp: ac_simps)
qed simp

lemma rep_stosb_add: "rep_stosb (a + b) d c m = rep_stosb b (d + of_nat a) c (rep_stosb a d c m)"
  by (induction a arbitrary: d m) (simp_all add: ac_simps)

lemma rep_stosl_bytes:
  assumes "\<forall>k<4. ucast (drop_bit (8 * k) w) = c"
  shows "rep_stosl n d w m = rep_stosb (4 * n) d c m"
proof (induction n arbitrary: d m)
  case (Suc n)
  have "store32 d w m = rep_stosb 4 d c m"
    using assms [rule_format, of 0] assms [rule_format, of 1] assms [rule_format, of 2] assms [rule_format, of 3]
    by (simp only: four rep_stosb.simps) (simp add: store32_def ac_simps)
  then show ?case using Suc rep_stosb_add [of 4 "4 * n" d c m] by simp
qed simp

lemma memset_filled:
  assumes "unat v + unat n \<le> 2 ^ 32"
  shows "memset v c n m = (v, filled v (ucast c) (unat n) m)"
proof -
  have f: "rep_stosb (unat n) v (ucast c) m = filled v (ucast c) (unat n) m"
    by (rule ext) (simp only: rep_stosb_eq filled_def in_range [OF assms])
  let ?c = "c AND 0xFF"
  let ?w = "push_bit 24 ?c OR push_bit 16 ?c OR push_bit 8 ?c OR ?c"
  have mask: "(0xFF :: u32) = mask 8" by (simp add: mask_eq_exp_minus_1)
  have "?c = ucast (ucast c :: u8)" unfolding mask by (rule bit_word_eqI) (auto simp: bit_simps)
  then have "?w = load32 (\<lambda>_. ucast c) 0" by (simp add: load32_def ac_simps)
  then have w: "\<forall>k<4. ucast (drop_bit (8 * k) ?w) = (ucast c :: u8)" using load32_byte [of _ "\<lambda>_. ucast c" 0] by simp
  have "rep_stosl (unat (n div 4)) v ?w m = filled v (ucast c) (unat n) m" if "n mod 4 = 0"
    using rep_stosl_bytes [OF w] f four_div [OF that] by simp
  moreover have "n = 0 \<Longrightarrow> filled v (ucast c) (unat n) m = m" by (auto simp: filled_def word_le_nat_alt fun_eq_iff)
  ultimately show ?thesis using f by (auto simp: memset_def Let_def)
qed

section \<open>Null-terminated strings\<close>

text \<open>At \<open>s\<close> memory holds the bytes \<open>xs\<close>, none of them null, and then a null byte.\<close>

fun cstr :: "mem \<Rightarrow> u32 \<Rightarrow> u8 list \<Rightarrow> bool" where
  "cstr m s [] \<longleftrightarrow> m s = 0"
| "cstr m s (x # xs) \<longleftrightarrow> m s = x \<and> x \<noteq> 0 \<and> cstr m (s + 1) xs"

lemma cstr_functional: "cstr m s xs \<Longrightarrow> cstr m s ys \<Longrightarrow> xs = ys"
proof (induction xs arbitrary: s ys)
  case Nil
  then show ?case by (cases ys) auto
next
  case (Cons x xs)
  then show ?case by (cases ys) auto
qed

lemma cstr_cong: "(\<And>k. k \<le> length xs \<Longrightarrow> m' (s + of_nat k) = m (s + of_nat k)) \<Longrightarrow> cstr m' s xs = cstr m s xs"
proof (induction xs arbitrary: s)
  case Nil
  from Nil [of 0] show ?case by simp
next
  case (Cons x xs)
  have "cstr m' (s + 1) xs = cstr m (s + 1) xs"
    using Cons.prems [of "Suc k" for k] by (intro Cons.IH) (simp add: ac_simps)
  with Cons.prems [of 0] show ?case by simp
qed

lemma strlen_cstr: "cstr m s xs \<Longrightarrow> strlen m s = Some (of_nat (length xs))"
proof -
  have "cstr m s xs \<Longrightarrow> strlen_loop m s n = Some (n + of_nat (length xs))" for n
    by (induction xs arbitrary: s n) (subst strlen_loop.simps; simp add: ac_simps)+
  then show "cstr m s xs \<Longrightarrow> strlen m s = Some (of_nat (length xs))" by (simp add: strlen_def)
qed

lemma strcmp_cstr:
  "cstr m p xs \<Longrightarrow> cstr m q ys \<Longrightarrow> \<exists>r. strcmp m p q = Some r \<and> (r = 0 \<longleftrightarrow> xs = ys)"
proof (induction xs arbitrary: p q ys)
  case Nil
  then show ?case by (subst strcmp.simps) (cases ys; auto simp: unsigned_eq_0_iff)
next
  case (Cons x xs)
  show ?case
  proof (cases "m q = x")
    case True
    with Cons.prems obtain ys' where "ys = x # ys'" "cstr m (q + 1) ys'" by (cases ys) auto
    with Cons True show ?thesis by (subst strcmp.simps) auto
  next
    case False
    with Cons.prems have "ys \<noteq> x # xs" by (cases ys) auto
    with Cons.prems False show ?thesis by (subst strcmp.simps) (auto simp: word_uint_eq_iff)
  qed
qed

lemma strcpy_cstr:
  assumes "cstr m src xs" "\<forall>j k. j \<le> length xs \<and> k \<le> length xs \<longrightarrow> src + of_nat j \<noteq> dst + of_nat k" "length xs < 2 ^ 32"
  obtains m' where "strcpy dst src m = Some (dst, m')" "cstr m' dst xs"
    "\<And>a. (\<forall>k\<le>length xs. a \<noteq> dst + of_nat k) \<Longrightarrow> m' a = m a"
proof -
  have "\<exists>m'. strcpy_loop dst src m = Some m' \<and> cstr m' dst xs \<and> (\<forall>a. (\<forall>k\<le>length xs. a \<noteq> dst + of_nat k) \<longrightarrow> m' a = m a)"
    using assms
  proof (induction xs arbitrary: src dst m)
    case Nil
    then show ?case by (subst strcpy_loop.simps) auto
  next
    case (Cons x xs)
    define m1 where "m1 = m(dst := m src)"
    have ne: "src + of_nat j \<noteq> dst + of_nat k" if "j \<le> Suc (length xs)" "k \<le> Suc (length xs)" for j k
      using Cons.prems(2) that by simp
    have "cstr m1 (src + 1) xs = cstr m (src + 1) xs"
    proof (rule cstr_cong)
      fix k assume "k \<le> length xs"
      then show "m1 (src + 1 + of_nat k) = m (src + 1 + of_nat k)" using ne [of "Suc k" 0] by (simp add: m1_def ac_simps)
    qed
    moreover have "\<forall>j k. j \<le> length xs \<and> k \<le> length xs \<longrightarrow> src + 1 + of_nat j \<noteq> dst + 1 + of_nat k"
    proof (intro allI impI)
      fix j k assume "j \<le> length xs \<and> k \<le> length xs"
      then show "src + 1 + of_nat j \<noteq> dst + 1 + of_nat k" using ne [of "Suc j" "Suc k"] by (simp add: ac_simps)
    qed
    ultimately obtain m' where m': "strcpy_loop (dst + 1) (src + 1) m1 = Some m'" "cstr m' (dst + 1) xs"
      "\<And>a. (\<forall>k\<le>length xs. a \<noteq> dst + 1 + of_nat k) \<Longrightarrow> m' a = m1 a"
      using Cons.IH [of m1 "src + 1" "dst + 1"] Cons.prems by auto
    have "dst \<noteq> dst + 1 + of_nat k" if "k \<le> length xs" for k
    proof
      assume "dst = dst + 1 + of_nat k"
      then have "of_nat (Suc k) = (0 :: u32)" by (simp add: ac_simps)
      then have "2 ^ 32 dvd Suc k" using word_of_nat_eq_0_iff [of "Suc k", where 'a = 32] by simp
      with that Cons.prems(3) show False by (auto dest: dvd_imp_le)
    qed
    then have "m' dst = x" using m'(3) [of dst] Cons.prems(1) by (simp add: m1_def)
    moreover have "m' a = m a" if "\<forall>k\<le>Suc (length xs). a \<noteq> dst + of_nat k" for a
    proof -
      have "a \<noteq> dst" using that [rule_format, of 0] by simp
      moreover have "a \<noteq> dst + 1 + of_nat k" if "k \<le> length xs" for k
        using \<open>\<forall>k\<le>Suc (length xs). a \<noteq> dst + of_nat k\<close> [rule_format, of "Suc k"] that by (simp add: ac_simps)
      ultimately show ?thesis using m'(3) [of a] by (simp add: m1_def)
    qed
    ultimately show ?case using Cons.prems(1) m'(1,2) by (subst strcpy_loop.simps) (simp add: m1_def)
  qed
  then show thesis using that by (auto simp: strcpy_def)
qed

end
