(* ===== verification/Printfmt.thy ===== *)
theory Printfmt
  imports Cstring
begin

text \<open>
  Formatted output, after \<open>lib/printfmt.c\<close>, used by the kernel and by user programs. The format is a
  list of bytes, the variable arguments are the 32-bit words on the stack, and strings are read from
  memory. Characters go to a function \<open>putch\<close> on memory and a state of its own (\<open>putdat\<close>); \<open>cnt\<close> is the
  integer that \<open>putdat\<close> points to. \<open>None\<close> is that a string has no end or that there are fewer arguments
  than the format uses. Unsigned numbers are naturals below \<open>2^64\<close>.
\<close>

section \<open>Numbers\<close>

definition chars :: "string \<Rightarrow> int list" where
  "chars = map of_char"

definition error_string :: "int \<Rightarrow> string option" where
  "error_string = map_of [
     (E_UNSPECIFIED, ''unspecified error''), (E_BAD_ENV, ''bad environment''),
     (E_INVAL, ''invalid parameter''), (E_NO_MEM, ''out of memory''),
     (E_NO_FREE_ENV, ''out of environments''), (E_FAULT, ''segmentation fault''),
     (E_IPC_NOT_RECV, ''env is not recving''), (E_EOF, ''unexpected end of file''),
     (E_NO_DISK, ''no free space on disk''), (E_MAX_OPEN, ''too many files are open''),
     (E_NOT_FOUND, ''file or block not found''), (E_BAD_PATH, ''invalid path''),
     (E_FILE_EXISTS, ''file already exists''), (E_NOT_EXEC, ''file is not a valid executable''),
     (E_NOT_SUPP, ''operation not supported'')]"

definition hexdigit :: "nat \<Rightarrow> int" where
  "hexdigit k = chars ''0123456789abcdef'' ! k"

text \<open>
  The digits of \<open>num_rev\<close>, least significant first. The base is 8, 10 or 16; the test makes the
  function total.
\<close>

function num_rev :: "nat \<Rightarrow> nat \<Rightarrow> nat list" where
  "num_rev num_tmp base =
     (if num_tmp = 0 \<or> base < 2 then [] else num_tmp mod base # num_rev (num_tmp div base) base)"
  by pat_completeness auto

termination by (relation "measure fst") auto

declare num_rev.simps [simp del]

definition printnum_padding :: "(int \<Rightarrow> 's \<Rightarrow> 's) \<Rightarrow> nat \<Rightarrow> nat \<Rightarrow> int \<Rightarrow> int \<Rightarrow> 's \<Rightarrow> 's" where
  "printnum_padding putch num base width padc \<sigma> =
     (let num_tmp = nat (sint (of_nat num :: u32));
          ds = num_rev num_tmp base;
          \<sigma> = fold (\<lambda>d. putch (hexdigit d)) (rev ds) \<sigma>;
          padc_padding = (if padc = 45 then 32 else 48)
      in fold putch (replicate (nat (width - int (length ds))) padc_padding) \<sigma>)"

function printnum :: "(int \<Rightarrow> 's \<Rightarrow> 's) \<Rightarrow> nat \<Rightarrow> nat \<Rightarrow> int \<Rightarrow> int \<Rightarrow> 's \<Rightarrow> 's" where
  "printnum putch num base width padc \<sigma> =
     (if padc = 45 then printnum_padding putch num base width padc \<sigma>
      else
        let \<sigma> = (if num \<ge> base \<and> base \<ge> 2 then printnum putch (num div base) base (width - 1) padc \<sigma>
                 else fold putch (replicate (nat (width - 1)) padc) \<sigma>)
        in putch (hexdigit (num mod base)) \<sigma>)"
  by pat_completeness auto

termination by (relation "measure (\<lambda>(putch, num, base, width, padc, \<sigma>). num)") auto

declare printnum.simps [simp del]

text \<open>Arguments: a word, or two words with the lower one first.\<close>

fun va_word :: "u32 list \<Rightarrow> (u32 \<times> u32 list) option" where
  "va_word [] = None"
| "va_word (w # ap) = Some (w, ap)"

fun va_dword :: "u32 list \<Rightarrow> (u64 \<times> u32 list) option" where
  "va_dword (lo # hi # ap) = Some (ucast lo OR push_bit 32 (ucast hi), ap)"
| "va_dword _ = None"

definition getuint :: "u32 list \<Rightarrow> nat \<Rightarrow> (nat \<times> u32 list) option" where
  "getuint ap lflag =
     (if lflag \<ge> 2 then map_option (apfst unat) (va_dword ap) else map_option (apfst unat) (va_word ap))"

definition getint :: "u32 list \<Rightarrow> nat \<Rightarrow> (int \<times> u32 list) option" where
  "getint ap lflag =
     (if lflag \<ge> 2 then map_option (apfst sint) (va_dword ap) else map_option (apfst sint) (va_word ap))"

section \<open>The format\<close>

record fmtflags =
  padc :: int
  width :: int
  precision :: int
  lflag :: nat
  altflag :: bool
  signedflag :: bool

definition new_flags :: fmtflags where
  "new_flags = \<lparr>padc = 32, width = - 1, precision = - 1, lflag = 0, altflag = False, signedflag = False\<rparr>"

fun get_number :: "u8 list \<Rightarrow> int \<Rightarrow> int \<times> u8 list" where
  "get_number [] p = (p, [])"
| "get_number (c # fmt) p = (if 48 \<le> c \<and> c \<le> 57 then get_number fmt (p * 10 + uint c - 48) else (p, c # fmt))"

definition process_precision :: "fmtflags \<Rightarrow> fmtflags" where
  "process_precision fl =
     (if width fl < 0 then fl\<lparr>width := precision fl, precision := - 1\<rparr> else fl)"

lemma get_number_length [termination_simp]: "length (snd (get_number fmt p)) \<le> length fmt"
  by (induction fmt p rule: get_number.induct) auto

text \<open>
  The flags between a percent sign and the conversion character. The result is this character (0 at
  the end of the format), what follows it, the flags and the remaining arguments.
\<close>

function reswitch :: "u8 list \<Rightarrow> fmtflags \<Rightarrow> u32 list \<Rightarrow> (u8 \<times> u8 list \<times> fmtflags \<times> u32 list) option" where
  "reswitch [] fl ap = Some (0, [], fl, ap)"
| "reswitch (ch # fmt) fl ap =
     (if ch = 43 then reswitch fmt (fl\<lparr>signedflag := True\<rparr>) ap
      else if ch = 45 then reswitch fmt (fl\<lparr>padc := 45\<rparr>) ap
      else if ch = 48 then reswitch fmt (fl\<lparr>padc := 48\<rparr>) ap
      else if 49 \<le> ch \<and> ch \<le> 57
      then let (p, fmt) = get_number fmt (uint ch - 48)
           in reswitch fmt (process_precision (fl\<lparr>precision := p\<rparr>)) ap
      else if ch = 42
      then (case va_word ap of None \<Rightarrow> None
            | Some (w, ap) \<Rightarrow> reswitch fmt (process_precision (fl\<lparr>precision := sint w\<rparr>)) ap)
      else if ch = 46 then reswitch fmt (if width fl < 0 then fl\<lparr>width := 0\<rparr> else fl) ap
      else if ch = 35 then reswitch fmt (fl\<lparr>altflag := True\<rparr>) ap
      else if ch = 108 then reswitch fmt (fl\<lparr>lflag := lflag fl + 1\<rparr>) ap
      else Some (ch, fmt, fl, ap))"
  by pat_completeness auto

termination
proof (relation "measure (\<lambda>(fmt, fl, ap). length fmt)")
  fix ch :: u8 and fmt fl and ap :: "u32 list" and x p fmt'
  assume "x = get_number fmt (uint ch - 48)" "(p, fmt') = x"
  then have "length fmt' \<le> length fmt" using get_number_length [of fmt "uint ch - 48"] by (metis snd_conv)
  then show "((fmt', process_precision (fl\<lparr>precision := p\<rparr>), ap), ch # fmt, fl, ap) \<in> measure (\<lambda>(fmt, fl, ap). length fmt)"
    by simp
qed simp_all

section \<open>Conversions\<close>

text \<open>The characters that the loop for \<open>%s\<close> prints.\<close>

partial_function (option) str_chars :: "mem \<Rightarrow> u32 \<Rightarrow> int \<Rightarrow> int list option" where
  "str_chars m p prec =
     (if m p = 0 then Some []
      else if prec < 0 then Option.bind (str_chars m (p + 1) prec) (\<lambda>cs. Some (sint (m p) # cs))
      else if prec - 1 \<ge> 0 then Option.bind (str_chars m (p + 1) (prec - 1)) (\<lambda>cs. Some (sint (m p) # cs))
      else Some [])"

definition put_string :: "(int \<Rightarrow> 's \<Rightarrow> 's) \<Rightarrow> fmtflags \<Rightarrow> int \<Rightarrow> int list \<Rightarrow> 's \<Rightarrow> 's" where
  "put_string putch fl len cs \<sigma> =
     (let w = width fl;
          (w, \<sigma>) = (if w > 0 \<and> padc fl \<noteq> 45
                    then let w = w - len in (min w 0, fold putch (replicate (nat w) (padc fl)) \<sigma>)
                    else (w, \<sigma>));
          \<sigma> = fold (\<lambda>ch. putch (if altflag fl \<and> (ch < 32 \<or> ch > 126) then 63 else ch)) cs \<sigma>
      in fold putch (replicate (nat (w - int (length cs))) 32) \<sigma>)"

definition conv_s :: "(int \<Rightarrow> mem \<times> 's \<Rightarrow> mem \<times> 's) \<Rightarrow> fmtflags \<Rightarrow> u32 \<Rightarrow> mem \<times> 's \<Rightarrow> (mem \<times> 's) option" where
  "conv_s putch fl p \<sigma> =
     (if p = 0
      then let cs = (if precision fl < 0 then chars ''(null)'' else take (nat (precision fl)) (chars ''(null)''))
           in Some (put_string putch fl (int (length cs)) cs \<sigma>)
      else Option.bind (str_chars (fst \<sigma>) p (precision fl)) (\<lambda>cs.
             Some (put_string putch fl (sint (strnlen (fst \<sigma>) p (of_int (precision fl)))) cs \<sigma>)))"

definition conv_d :: "(int \<Rightarrow> 's \<Rightarrow> 's) \<Rightarrow> fmtflags \<Rightarrow> int \<Rightarrow> 's \<Rightarrow> 's" where
  "conv_d putch fl num \<sigma> =
     (let \<sigma> = (if num < 0 then putch 45 \<sigma> else if num > 0 \<and> signedflag fl then putch 43 \<sigma> else \<sigma>)
      in printnum putch (nat \<bar>num\<bar>) 10 (width fl) (padc fl) \<sigma>)"

text \<open>\<open>%e\<close>; the calls of \<open>printfmt\<close> with \<open>error %d\<close> and \<open>%s\<close> are written out.\<close>

definition conv_e :: "(int \<Rightarrow> 's \<Rightarrow> 's) \<Rightarrow> int \<Rightarrow> 's \<Rightarrow> 's" where
  "conv_e putch err \<sigma> =
     (let err = (if err < 0 then - err else err)
      in if err \<ge> MAXERROR \<or> error_string err = None
         then conv_d putch new_flags err (fold putch (chars ''error '') \<sigma>)
         else fold putch (chars (the (error_string err))) \<sigma>)"

definition conv_n :: "(int \<Rightarrow> mem \<times> 's \<Rightarrow> mem \<times> 's) \<Rightarrow> ('s \<Rightarrow> int) \<Rightarrow> u32 \<Rightarrow> mem \<times> 's \<Rightarrow> mem \<times> 's" where
  "conv_n putch cnt n_p \<sigma> =
     (if n_p = 0
      then fold putch (10 # chars ''error! writing through NULL pointer! (%n argument)'' @ [10]) \<sigma>
      else if cnt (snd \<sigma>) < 0 \<or> cnt (snd \<sigma>) > 240
      then fold putch (10 # chars ''warning! The value %n argument pointed to has been overflowed!'' @ [10])
             ((fst \<sigma>)(n_p := - 1), snd \<sigma>)
      else ((fst \<sigma>)(n_p := of_int (cnt (snd \<sigma>))), snd \<sigma>))"

text \<open>
  One conversion. The result is \<open>None\<close> when an argument is missing; the flag tells whether the character
  is one of a conversion.
\<close>

definition convert :: "(int \<Rightarrow> mem \<times> 's \<Rightarrow> mem \<times> 's) \<Rightarrow> ('s \<Rightarrow> int) \<Rightarrow> u8 \<Rightarrow> fmtflags \<Rightarrow> u32 list \<Rightarrow> mem \<times> 's
    \<Rightarrow> (u32 list \<times> mem \<times> 's) option" where
  "convert putch cnt ch fl ap \<sigma> =
     (if ch = 99 then map_option (\<lambda>(w, ap). (ap, putch (sint w) \<sigma>)) (va_word ap)
      else if ch = 101 then map_option (\<lambda>(w, ap). (ap, conv_e putch (sint w) \<sigma>)) (va_word ap)
      else if ch = 115
      then Option.bind (va_word ap) (\<lambda>(w, ap). map_option (Pair ap) (conv_s putch fl w \<sigma>))
      else if ch = 100 then map_option (\<lambda>(num, ap). (ap, conv_d putch fl num \<sigma>)) (getint ap (lflag fl))
      else if ch = 117
      then map_option (\<lambda>(num, ap). (ap, printnum putch num 10 (width fl) (padc fl) \<sigma>)) (getuint ap (lflag fl))
      else if ch = 111
      then map_option (\<lambda>(num, ap). (ap, printnum putch (nat (num mod 2 ^ 64)) 8 (width fl) (padc fl) (putch 48 \<sigma>)))
             (getint ap (lflag fl))
      else if ch = 112
      then map_option (\<lambda>(w, ap). (ap, printnum putch (unat w) 16 (width fl) (padc fl) (putch 120 (putch 48 \<sigma>))))
             (va_word ap)
      else if ch = 120
      then map_option (\<lambda>(num, ap). (ap, printnum putch num 16 (width fl) (padc fl) \<sigma>)) (getuint ap (lflag fl))
      else if ch = 110 then map_option (\<lambda>(w, ap). (ap, conv_n putch cnt w \<sigma>)) (va_word ap)
      else Some (ap, putch (uint ch) \<sigma>))"

definition is_conversion :: "u8 \<Rightarrow> bool" where
  "is_conversion ch \<longleftrightarrow> ch \<in> {99, 101, 115, 100, 117, 111, 112, 120, 110, 37}"

lemma reswitch_length: "reswitch fmt fl ap = Some (ch, rest, fl', ap') \<Longrightarrow> length rest \<le> length fmt"
proof (induction "length fmt" arbitrary: fmt fl ap rule: less_induct)
  case less
  show ?case
  proof (cases fmt)
    case Nil
    with less.prems show ?thesis by simp
  next
    case (Cons c f)
    have IH: "length rest \<le> length fmt" if "reswitch f' fl1 ap1 = Some (ch, rest, fl', ap')" "length f' \<le> length f" for f' fl1 ap1
      using less.hyps [of f' fl1 ap1] that Cons by simp
    have num: "length (snd (get_number f (uint c - 48))) \<le> length f" by (rule get_number_length)
    have len: "length f \<le> length fmt" by (simp add: Cons)
    show ?thesis using less.prems num len unfolding Cons reswitch.simps
      by (auto simp: Cons [symmetric] Let_def split: if_split_asm option.split_asm prod.split_asm intro: IH)
  qed
qed

text \<open>
  \<open>vprintfmt\<close>. An unknown conversion prints the percent sign and goes on behind it; arguments that its
  flags have used stay used.
\<close>

function vprintfmt :: "(int \<Rightarrow> mem \<times> 's \<Rightarrow> mem \<times> 's) \<Rightarrow> ('s \<Rightarrow> int) \<Rightarrow> u8 list \<Rightarrow> u32 list \<Rightarrow> mem \<times> 's \<Rightarrow> (mem \<times> 's) option" where
  "vprintfmt putch cnt [] ap \<sigma> = Some \<sigma>"
| "vprintfmt putch cnt (ch # fmt) ap \<sigma> =
     (if ch \<noteq> 37 then vprintfmt putch cnt fmt ap (putch (uint ch) \<sigma>)
      else
        case reswitch fmt new_flags ap of
          None \<Rightarrow> None
        | Some (ch, rest, fl, ap) \<Rightarrow>
            if is_conversion ch
            then (case convert putch cnt ch fl ap \<sigma> of
                    None \<Rightarrow> None
                  | Some (ap, \<sigma>) \<Rightarrow> vprintfmt putch cnt rest ap \<sigma>)
            else vprintfmt putch cnt fmt ap (putch 37 \<sigma>))"
  by pat_completeness auto

termination
  by (relation "measure (\<lambda>(putch, cnt, fmt, ap, \<sigma>). length fmt)") (auto simp: less_Suc_eq_le dest: reswitch_length)

text \<open>Printing into a buffer. The first field of \<open>struct sprintbuf\<close> is a pointer, which \<open>%n\<close> reads as a count.\<close>

record sprintbuf =
  sb_buf :: u32
  sb_ebuf :: u32
  sb_cnt :: int

definition sprintputch :: "int \<Rightarrow> mem \<times> sprintbuf \<Rightarrow> mem \<times> sprintbuf" where
  "sprintputch ch \<sigma> =
     (let (m, b) = \<sigma>; b = b\<lparr>sb_cnt := sb_cnt b + 1\<rparr>
      in if sb_buf b < sb_ebuf b then (m(sb_buf b := of_int ch), b\<lparr>sb_buf := sb_buf b + 1\<rparr>) else (m, b))"

definition vsnprintf :: "u32 \<Rightarrow> int \<Rightarrow> u8 list \<Rightarrow> u32 list \<Rightarrow> mem \<Rightarrow> (int \<times> mem) option" where
  "vsnprintf buf n fmt ap m =
     (if buf = 0 \<or> n < 1 then Some (- E_INVAL, m)
      else
        map_option (\<lambda>(m, b). (sb_cnt b, m(sb_buf b := 0)))
          (vprintfmt sprintputch (\<lambda>b. sint (sb_buf b)) fmt ap
             (m, \<lparr>sb_buf = buf, sb_ebuf = buf + of_int n - 1, sb_cnt = 0\<rparr>)))"

definition snprintf :: "u32 \<Rightarrow> int \<Rightarrow> u8 list \<Rightarrow> u32 list \<Rightarrow> mem \<Rightarrow> (int \<times> mem) option" where
  "snprintf buf n fmt ap m = vsnprintf buf n fmt ap m"

section \<open>The text of a number\<close>

text \<open>The digits of a number, most significant first, and its text with padding on the left.\<close>

function digits :: "nat \<Rightarrow> nat \<Rightarrow> nat list" where
  "digits n b = (if b < 2 \<or> n < b then [n] else digits (n div b) b @ [n mod b])"
  by pat_completeness auto

termination by (relation "measure fst") auto

declare digits.simps [simp del]

definition numtext :: "nat \<Rightarrow> nat \<Rightarrow> int \<Rightarrow> int \<Rightarrow> int list" where
  "numtext n b w p = replicate (nat (w - int (length (digits n b)))) p @ map hexdigit (digits n b)"

lemma printnum_numtext:
  "2 \<le> b \<Longrightarrow> p \<noteq> 45 \<Longrightarrow> printnum putch n b w p \<sigma> = fold putch (numtext n b w p) \<sigma>"
proof (induction n arbitrary: w rule: less_induct)
  case (less n)
  show ?case
  proof (cases "n < b")
    case True
    then show ?thesis using less.prems
      by (subst printnum.simps) (simp add: numtext_def digits.simps [of n b])
  next
    case False
    then have "n div b < n" using less.prems by simp
    from less.IH [OF this less.prems, of "w - 1"] False less.prems show ?thesis
      by (subst printnum.simps) (simp add: numtext_def digits.simps [of n b] algebra_simps)
  qed
qed

lemma rev_num_rev: "2 \<le> b \<Longrightarrow> 0 < n \<Longrightarrow> rev (num_rev n b) = digits n b"
proof (induction n rule: less_induct)
  case (less n)
  show ?case
  proof (cases "n < b")
    case True
    then show ?thesis using less.prems by (simp add: num_rev.simps [of n b] num_rev.simps [of 0 b] digits.simps [of n b])
  next
    case False
    then have "0 < n div b" "n div b < n" using less.prems by (simp_all add: div_greater_zero_iff)
    with less.IH less.prems False show ?thesis
      by (simp add: num_rev.simps [of n b] digits.simps [of n b])
  qed
qed

lemma digits_less: "2 \<le> b \<Longrightarrow> \<forall>d\<in>set (digits n b). d < b"
proof (induction n rule: less_induct)
  case (less n)
  show ?case
  proof (cases "n < b")
    case False
    then have "n div b < n" using less.prems by simp
    then have "\<forall>d\<in>set (digits (n div b) b). d < b" using less by blast
    with False less.prems show ?thesis by (subst digits.simps) auto
  qed (subst digits.simps, simp)
qed

lemma digits_value: "2 \<le> b \<Longrightarrow> foldl (\<lambda>v d. v * of_nat b + of_nat d) 0 (digits n b) = (of_nat n :: 'a::comm_semiring_1)"
proof (induction n rule: less_induct)
  case (less n)
  show ?case
  proof (cases "n < b")
    case True
    then show ?thesis by (subst digits.simps) simp
  next
    case False
    then have "n div b < n" using less.prems by simp
    then have "foldl (\<lambda>v d. v * of_nat b + of_nat d) 0 (digits n b) = (of_nat (n div b) * of_nat b + of_nat (n mod b) :: 'a)"
      using less False by (subst digits.simps) simp
    also have "\<dots> = of_nat (n div b * b + n mod b)" by (simp only: of_nat_add of_nat_mult)
    finally show ?thesis by simp
  qed
qed

lemma hexdigit_value:
  assumes "d < 16"
  shows "digit_value (of_int (hexdigit d)) = Some (int d)" "(of_int (hexdigit d) :: u8) \<noteq> 0"
    "(of_int (hexdigit d) :: u8) \<noteq> 120" "(of_int (hexdigit d) :: u8) \<notin> {32, 9, 43, 45}"
proof -
  have "list_all (\<lambda>d. digit_value (of_int (hexdigit d)) = Some (int d) \<and> (of_int (hexdigit d) :: u8) \<noteq> 0
      \<and> (of_int (hexdigit d) :: u8) \<noteq> 120 \<and> (of_int (hexdigit d) :: u8) \<notin> {32, 9, 43, 45}) [0..<16]"
    by code_simp
  then show "digit_value (of_int (hexdigit d)) = Some (int d)" "(of_int (hexdigit d) :: u8) \<noteq> 0"
    "(of_int (hexdigit d) :: u8) \<noteq> 120" "(of_int (hexdigit d) :: u8) \<notin> {32, 9, 43, 45}"
    using assms by (simp_all add: list_all_iff del: upt_Suc)
qed

lemma digits_not_Nil: "digits n b \<noteq> []"
  by (subst digits.simps) simp

lemma strtol_digits_text:
  assumes "cstr m s (map (\<lambda>d. of_int (hexdigit d)) ds)" "\<forall>d\<in>set ds. d < b" "b \<le> 16"
  shows "strtol_digits m s (int b) val = Some (foldl (\<lambda>v d. v * of_nat b + of_nat d) val ds, s + of_nat (length ds))"
  using assms
proof (induction ds arbitrary: s val)
  case Nil
  then show ?case by (subst strtol_digits.simps) (simp add: digit_value_def)
next
  case (Cons d ds)
  then have d: "m s = of_int (hexdigit d)" "d < 16" "d < b" by simp_all
  with Cons show ?case by (subst strtol_digits.simps) (simp add: hexdigit_value ac_simps)
qed

lemma skip_blank_text:
  assumes "cstr m s (replicate k 32 @ xs)" "xs \<noteq> []" "hd xs \<noteq> 32" "hd xs \<noteq> 9"
  shows "skip_blank m s = Some (s + of_nat k) \<and> cstr m (s + of_nat k) xs"
  using assms
proof (induction k arbitrary: s)
  case 0
  then show ?case by (cases xs) (subst skip_blank.simps; simp)+
next
  case (Suc k)
  then show ?case using Suc.IH [of "s + 1"] by (subst skip_blank.simps) (simp add: ac_simps)
qed

lemma replicate_zero_digits: "map (\<lambda>d. of_int (hexdigit d)) (replicate k 0 @ ds) = replicate k (48 :: u8) @ map (\<lambda>d. of_int (hexdigit d)) ds"
  by (simp add: hexdigit_def chars_def)

lemma foldl_zeros: "foldl (\<lambda>v d. v * b + of_nat d) (0 :: 'a::comm_semiring_1) (replicate k 0) = 0"
  by (induction k) simp_all

lemma strtol_at_digit:
  assumes "cstr m s (map (\<lambda>d. of_int (hexdigit d)) ds)" "ds \<noteq> []" "\<forall>d\<in>set ds. d < b" "b \<le> 16" "b \<noteq> 0"
    and "skip_blank m s0 = Some s"
  shows "strtol m s0 (int b) = Some (foldl (\<lambda>v d. v * of_nat b + of_nat d) 0 ds, s + of_nat (length ds))"
proof -
  obtain d ds' where ds: "ds = d # ds'" using assms(2) by (cases ds) auto
  have s0: "m s \<noteq> 43" "m s \<noteq> 45" using assms(1,3,4) hexdigit_value(4) [of d] by (auto simp: ds)
  have s1: "m (s + 1) \<noteq> 120"
  proof (cases ds')
    case Nil
    with assms(1) show ?thesis by (simp add: ds)
  next
    case (Cons e es)
    with assms(1,3,4) hexdigit_value(3) [of e] show ?thesis by (auto simp: ds)
  qed
  show ?thesis using assms(5,6) s0 s1 strtol_digits_text [OF assms(1,3,4), of 0]
    by (simp add: strtol_def)
qed

text \<open>
  C30. Numbers survive printing and reading. What \<open>printnum\<close> prints for a 32-bit number in base 8, 10 or
  16, with any width and padded on the left with spaces or zeros, \<open>strtol\<close> reads back as this number, up
  to the end of the text.
\<close>

theorem printnum_strtol:
  assumes "b = 8 \<or> b = 10 \<or> b = 16" "p = 32 \<or> p = 48"
    and "cstr m s (map of_int (printnum (\<lambda>c out. out @ [c]) n b w p []))"
  shows "strtol m s (int b) = Some (of_nat n, s + of_nat (length (printnum (\<lambda>c out. out @ [c]) n b w p [])))"
proof -
  have b: "2 \<le> b" "b \<le> 16" "b \<noteq> 0" using assms(1) by auto
  let ?k = "nat (w - int (length (digits n b)))"
  have "fold (\<lambda>c out. out @ [c]) xs ys = ys @ xs" for xs ys :: "int list" by (induction xs arbitrary: ys) simp_all
  then have out: "printnum (\<lambda>c out. out @ [c]) n b w p [] = numtext n b w p"
    using printnum_numtext [OF b(1), of p "\<lambda>c out. out @ [c]" n w "[]"] assms(2) by auto
  have str: "cstr m s (map of_int (numtext n b w p))" using assms(3) unfolding out .
  have len: "length (numtext n b w p) = ?k + length (digits n b)" by (simp add: numtext_def)
  note less = digits_less [OF b(1), of n] and val = digits_value [OF b(1), of n]
  show ?thesis using assms(2)
  proof
    assume p: "p = 32"
    let ?ds = "map (\<lambda>d. of_int (hexdigit d)) (digits n b) :: u8 list"
    have c: "cstr m s (replicate ?k 32 @ ?ds)" using str by (simp add: numtext_def p o_def)
    have ne: "?ds \<noteq> []" by (simp add: digits_not_Nil)
    have "hd (digits n b) < b" using less digits_not_Nil [of n b] by simp
    then have "hd ?ds \<notin> {32, 9, 43, 45}"
      using hexdigit_value(4) [of "hd (digits n b)"] b(2) digits_not_Nil [of n b] by (simp add: hd_map)
    then have sk: "skip_blank m s = Some (s + of_nat ?k)" "cstr m (s + of_nat ?k) ?ds"
      using skip_blank_text [OF c ne] by auto
    show ?thesis unfolding out
      using strtol_at_digit [OF sk(2) digits_not_Nil less b(2,3) sk(1)] val len by (simp add: ac_simps)
  next
    assume p: "p = 48"
    let ?ds = "replicate ?k 0 @ digits n b"
    have c: "cstr m s (map (\<lambda>d. of_int (hexdigit d)) ?ds)"
      using str unfolding replicate_zero_digits by (simp add: numtext_def p o_def)
    have ne: "?ds \<noteq> []" by (simp add: digits_not_Nil)
    have l: "\<forall>d\<in>set ?ds. d < b" using less b(3) by auto
    obtain d ds' where ds: "?ds = d # ds'" using ne by (cases ?ds) auto
    have "m s \<notin> {32, 9, 43, 45}" using c l hexdigit_value(4) [of d] b(2) unfolding ds by auto
    then have "skip_blank m s = Some s" by (subst skip_blank.simps) auto
    from strtol_at_digit [OF c ne l b(2,3) this] show ?thesis unfolding out len
      using val by (simp add: foldl_zeros)
  qed
qed

theorem printnum_strtol_witness:
  "printnum (\<lambda>c out. out @ [c]) 42 10 5 32 [] = [32, 32, 32, 52, 50]
   \<and> strtol (\<lambda>a. if a < 3 then 32 else if a = 3 then 52 else if a = 4 then 50 else 0) 0 10 = Some (42, 5)"
proof -
  have out: "printnum (\<lambda>c out. out @ [c]) 42 10 5 32 [] = [32, 32, 32, 52, 50]"
    by (simp add: printnum.simps [of _ 42] printnum.simps [of _ 4] hexdigit_def chars_def numeral_3_eq_3)
  show ?thesis
    using out printnum_strtol [of 10 32 "\<lambda>a. if a < 3 then 32 else if a = 3 then 52 else if a = 4 then 50 else 0" 0 42 5]
    unfolding out by simp
qed

section \<open>What a run changes\<close>

lemma fold_keeps: "(\<And>x \<sigma>. P \<sigma> \<Longrightarrow> P (f x \<sigma>)) \<Longrightarrow> P \<sigma> \<Longrightarrow> P (fold f xs \<sigma>)"
  by (induction xs arbitrary: \<sigma>) simp_all

lemma printnum_keeps:
  assumes put: "\<And>ch \<sigma>. P \<sigma> \<Longrightarrow> P (putch ch \<sigma>)"
  shows "P \<sigma> \<Longrightarrow> P (printnum putch num b w p \<sigma>)"
proof (induction num arbitrary: w \<sigma> rule: less_induct)
  case (less num)
  note f = fold_keeps [of P putch, OF put] and g = fold_keeps [of P "\<lambda>d. putch (hexdigit d)", OF put]
  have "P (printnum_padding putch num b w p \<sigma>)"
    unfolding printnum_padding_def Let_def by (intro f g less.prems)
  moreover have "P (printnum putch (num div b) b (w - 1) p \<sigma>)" if "num \<ge> b" "b \<ge> 2"
    using that less by simp
  ultimately show ?case using less.prems by (subst printnum.simps) (auto simp: Let_def simp del: fold_replicate intro!: put f)
qed

lemma put_string_keeps:
  assumes put: "\<And>ch \<sigma>. P \<sigma> \<Longrightarrow> P (putch ch \<sigma>)"
  shows "P \<sigma> \<Longrightarrow> P (put_string putch fl len cs \<sigma>)"
  unfolding put_string_def Let_def
  by (auto split: prod.split if_splits simp del: fold_replicate intro!: fold_keeps [of P] put)

lemma conv_s_keeps:
  assumes put: "\<And>ch \<sigma>. P \<sigma> \<Longrightarrow> P (putch ch \<sigma>)"
  shows "conv_s putch fl p \<sigma> = Some \<sigma>' \<Longrightarrow> P \<sigma> \<Longrightarrow> P \<sigma>'"
  unfolding conv_s_def Let_def
  by (cases "p = 0"; cases "str_chars (fst \<sigma>) p (precision fl)")
     (simp_all only: if_True if_False bind.simps option.inject option.distinct, auto intro: put_string_keeps [of P putch, OF put])

lemma convert_keeps:
  assumes put: "\<And>ch \<sigma>. P \<sigma> \<Longrightarrow> P (putch ch \<sigma>)" and "ch \<noteq> 110"
  shows "P \<sigma> \<Longrightarrow> convert putch cnt ch fl ap \<sigma> = Some (ap', \<sigma>') \<Longrightarrow> P \<sigma>'"
  using assms(2)
  by (auto simp: convert_def conv_d_def conv_e_def Let_def bind_eq_Some_conv simp del: fold_replicate split: if_splits
      intro!: put printnum_keeps [of P putch] fold_keeps [of P] intro: conv_s_keeps [of P putch, OF put])

lemma reswitch_chars:
  "reswitch fmt fl ap = Some (ch, rest, fl', ap') \<Longrightarrow> (ch = 0 \<or> ch \<in> set fmt) \<and> set rest \<subseteq> set fmt"
proof (induction "length fmt" arbitrary: fmt fl ap rule: less_induct)
  case less
  show ?case
  proof (cases fmt)
    case Nil
    with less.prems show ?thesis by simp
  next
    case (Cons c f)
    define Q where "Q \<longleftrightarrow> (ch = 0 \<or> ch \<in> set fmt) \<and> set rest \<subseteq> set fmt"
    have num: "set (snd (get_number f p)) \<subseteq> set f" for p by (induction f p rule: get_number.induct) auto
    have IH: Q if "reswitch f' fl1 ap1 = Some (ch, rest, fl', ap')" "length f' \<le> length f" "set f' \<subseteq> set f" for f' fl1 ap1
      using less.hyps [of f' fl1 ap1] that Cons by (auto simp: Q_def)
    have IHn: Q if "get_number f p = (q, f')" "reswitch f' fl1 ap1 = Some (ch, rest, fl', ap')" for p q f' fl1 ap1
      using IH [OF that(2)] get_number_length [of f p] num [of p] that(1) by simp
    have own: "c = ch \<Longrightarrow> f = rest \<Longrightarrow> Q" by (auto simp: Q_def Cons)
    have Q using less.prems unfolding Cons reswitch.simps
      by (auto simp: Let_def split: if_split_asm option.split_asm prod.split_asm dest: IH IHn own)
    then show ?thesis by (simp add: Q_def)
  qed
qed

lemma vprintfmt_keeps:
  assumes put: "\<And>ch \<sigma>. P \<sigma> \<Longrightarrow> P (putch ch \<sigma>)"
  shows "vprintfmt putch cnt fmt ap \<sigma> = Some \<sigma>' \<Longrightarrow> P \<sigma> \<Longrightarrow> 110 \<notin> set fmt \<Longrightarrow> P \<sigma>'"
proof (induction "length fmt" arbitrary: fmt ap \<sigma> rule: less_induct)
  case less
  show ?case
  proof (cases fmt)
    case Nil
    with less.prems show ?thesis by simp
  next
    case (Cons c f)
    have IH: "P \<sigma>'" if "vprintfmt putch cnt f' ap1 \<sigma>1 = Some \<sigma>'" "P \<sigma>1" "length f' \<le> length f" "set f' \<subseteq> set f" for f' ap1 \<sigma>1
      using less.hyps [of f' ap1 \<sigma>1] that less.prems(3) Cons by auto
    show ?thesis
    proof (cases "c = 37")
      case False
      then show ?thesis using less.prems(1,2) Cons by (intro IH [of f ap "putch (uint c) \<sigma>"]) (auto intro: put)
    next
      case True
      with less.prems(1) Cons obtain ch rest fl ap1 where r: "reswitch f new_flags ap = Some (ch, rest, fl, ap1)"
        by (auto split: option.splits)
      note len = reswitch_length [OF r] and chs = reswitch_chars [OF r]
      show ?thesis
      proof (cases "is_conversion ch")
        case False
        then show ?thesis using less.prems(1,2) Cons True r by (intro IH [of f ap1 "putch 37 \<sigma>"]) (auto intro: put)
      next
        case conv: True
        then obtain ap2 \<sigma>2 where c: "convert putch cnt ch fl ap1 \<sigma> = Some (ap2, \<sigma>2)" "vprintfmt putch cnt rest ap2 \<sigma>2 = Some \<sigma>'"
          using less.prems(1) Cons True r by (auto split: option.splits)
        have "ch \<noteq> 110" using chs less.prems(3) Cons by auto
        from convert_keeps [OF put this less.prems(2) c(1)] have "P \<sigma>2" .
        then show ?thesis using c(2) len chs by (intro IH) auto
      qed
    qed
  qed
qed



text \<open>
  C32. \<open>%-\<close> prints the low word of the number as a signed value. A number whose low word is positive as
  an \<open>int\<close> comes out as its digits with spaces behind them up to the width. Every other number, zero
  among them, comes out as spaces alone.
\<close>

theorem printnum_minus:
  assumes "2 \<le> b"
  shows "printnum putch n b w 45 \<sigma> = fold putch
    (let k = n mod 2 ^ 32; ds = (if 0 < k \<and> k < 2 ^ 31 then map hexdigit (digits k b) else [])
     in ds @ replicate (nat (w - int (length ds))) 32) \<sigma>"
proof -
  let ?k = "n mod 2 ^ 32"
  let ?t = "nat (sint (of_nat n :: u32))"
  have u: "uint (of_nat n :: u32) = int ?k" by (simp add: unsigned_of_nat take_bit_eq_mod zmod_int)
  have t: "?t = (if ?k < 2 ^ 31 then ?k else 0)"
  proof -
    have "sint (of_nat n :: u32) = (int ?k + 2 ^ 31) mod 2 ^ 32 - 2 ^ 31"
      using sint_uint [of "of_nat n :: u32"] unfolding u by (simp add: signed_take_bit_eq_take_bit_shift take_bit_eq_mod)
    moreover have "(int ?k + 2 ^ 31) mod 2 ^ 32 = (if ?k < 2 ^ 31 then int ?k + 2 ^ 31 else int ?k - 2 ^ 31)"
    proof (cases "?k < 2 ^ 31")
      case False
      have "?k < 2 ^ 32" by simp
      then have "(int ?k + 2 ^ 31 - 2 ^ 32) mod 2 ^ 32 = int ?k + 2 ^ 31 - 2 ^ 32" using False by (intro mod_pos_pos_trivial) simp_all
      moreover have "(int ?k + 2 ^ 31 - 2 ^ 32) mod 2 ^ 32 = (int ?k + 2 ^ 31) mod 2 ^ 32" by (rule minus_mod_self2)
      ultimately show ?thesis using False by simp
    qed simp
    moreover have "?k < 2 ^ 32" by simp
    ultimately show ?thesis by simp
  qed
  show ?thesis
  proof (cases "0 < ?k \<and> ?k < 2 ^ 31")
    case True
    then have r: "rev (num_rev ?t b) = digits ?k b" using t rev_num_rev [OF assms, of ?k] by auto
    moreover have "length (num_rev ?t b) = length (digits ?k b)" unfolding r [symmetric] by simp
    ultimately have "rev (num_rev ?t b) = digits ?k b" "length (num_rev ?t b) = length (digits ?k b)" .
    then show ?thesis using True
      by (simp add: printnum.simps [of putch n] printnum_padding_def Let_def fold_map o_def del: fold_replicate)
  next
    case False
    then have "?t = 0" using t by auto
    then have "num_rev ?t b = []" by (simp add: num_rev.simps)
    then show ?thesis using False
      by (auto simp: printnum.simps [of putch n] printnum_padding_def Let_def simp del: fold_replicate)
  qed
qed

theorem printnum_minus_witness:
  "printnum (\<lambda>c out. out @ [c]) 0 10 3 45 [] = [32, 32, 32]
   \<and> printnum (\<lambda>c out. out @ [c]) 7 10 3 45 [] = [55, 32, 32]"
proof -
  have "digits 7 10 = [7]" by (simp add: digits.simps [of 7])
  then show ?thesis
    using printnum_minus [of 10 "\<lambda>c out. out @ [c]" 0 3 "[]"] printnum_minus [of 10 "\<lambda>c out. out @ [c]" 7 3 "[]"]
    by (simp add: hexdigit_def chars_def funpow_swap1 flip: numeral_2_eq_2) (simp add: numeral_3_eq_3 numeral_2_eq_2)?
qed

end
