(* ===== verification/Spinlock.thy ===== *)
theory Spinlock
  imports Mmu
begin

text \<open>
  The spin locks of \<open>kern/spinlock.c\<close> and \<open>kern/spinlock.h\<close>, with \<open>DEBUG_SPINLOCK\<close> defined as in the
  source. A processor is at one of the points of \<open>spin_lock\<close> and \<open>spin_unlock\<close> between which it
  accesses the lock; a step of the system is one access of one processor, so that the accesses of
  all processors interleave in every possible way. Two reads of \<open>holding\<close> are two steps. A processor
  calls \<open>spin_lock\<close> only when it does not have the lock and \<open>spin_unlock\<close> only when it does, which is how
  \<open>lock_kernel\<close> and \<open>unlock_kernel\<close> are used. The debugging output of \<open>spin_unlock\<close> before its panic is
  not modelled.
\<close>

section \<open>Definitions\<close>

record spinlock =
  locked :: u32
  lk_name :: string
  lk_cpu :: "nat option"      \<comment> \<open>the index in \<open>cpus\<close>\<close>
  pcs :: "u32 list"

definition kernel_lock :: spinlock where
  "kernel_lock = \<lparr>locked = 0, lk_name = ''kernel_lock'', lk_cpu = None, pcs = replicate 10 0\<rparr>"

text \<open>\<open>xchg\<close> returns the old word.\<close>

definition xchg :: "u32 \<Rightarrow> spinlock \<Rightarrow> u32 \<times> spinlock" where
  "xchg newval lk = (locked lk, lk\<lparr>locked := newval\<rparr>)"

text \<open>The chain of frames that starts at \<open>ebp\<close>, in a memory of words.\<close>

fun caller_pcs :: "nat \<Rightarrow> (u32 \<Rightarrow> u32) \<Rightarrow> u32 \<Rightarrow> u32 list" where
  "caller_pcs 0 m ebp = []"
| "caller_pcs (Suc n) m ebp =
     (if ebp = 0 \<or> ebp < ULIM then replicate (Suc n) 0 else m (ebp + 4) # caller_pcs n m (m ebp))"

definition get_caller_pcs :: "(u32 \<Rightarrow> u32) \<Rightarrow> u32 \<Rightarrow> u32 list" where
  "get_caller_pcs m ebp = caller_pcs 10 m ebp"

definition holding :: "spinlock \<Rightarrow> nat \<Rightarrow> bool" where
  "holding lk me \<longleftrightarrow> locked lk \<noteq> 0 \<and> lk_cpu lk = Some me"

definition spin_initlock :: "string \<Rightarrow> spinlock \<Rightarrow> spinlock" where
  "spin_initlock nm lk = lk\<lparr>locked := 0, lk_name := nm, lk_cpu := None\<rparr>"

text \<open>
  The points of \<open>spin_lock\<close> (\<open>L\<close>) and \<open>spin_unlock\<close> (\<open>U\<close>), named after the access that comes next:
  the two reads of \<open>holding\<close>, the exchange, and the stores to \<open>cpu\<close> and \<open>pcs\<close>. \<open>Idle\<close> is outside of
  both without the lock, \<open>Critical\<close> outside of both with it.
\<close>

datatype lock_pc =
    Idle | L_locked | L_cpu | L_xchg | L_set_cpu | L_set_pcs | Critical
  | U_locked | U_cpu | U_set_pcs | U_set_cpu | U_xchg | Lock_panic | Unlock_panic

text \<open>One access of the processor \<open>me\<close>, whose frames start at \<open>ebp\<close> in \<open>m\<close>.\<close>

fun lock_access :: "nat \<Rightarrow> (u32 \<Rightarrow> u32) \<Rightarrow> u32 \<Rightarrow> lock_pc \<Rightarrow> spinlock \<Rightarrow> lock_pc \<times> spinlock" where
  "lock_access me m ebp Idle lk = (L_locked, lk)"
| "lock_access me m ebp L_locked lk = (if locked lk \<noteq> 0 then L_cpu else L_xchg, lk)"
| "lock_access me m ebp L_cpu lk = (if lk_cpu lk = Some me then Lock_panic else L_xchg, lk)"
| "lock_access me m ebp L_xchg lk =
     (let (old, lk) = xchg 1 lk in (if old \<noteq> 0 then L_xchg else L_set_cpu, lk))"
| "lock_access me m ebp L_set_cpu lk = (L_set_pcs, lk\<lparr>lk_cpu := Some me\<rparr>)"
| "lock_access me m ebp L_set_pcs lk = (Critical, lk\<lparr>pcs := get_caller_pcs m ebp\<rparr>)"
| "lock_access me m ebp Critical lk = (U_locked, lk)"
| "lock_access me m ebp U_locked lk = (if locked lk \<noteq> 0 then U_cpu else Unlock_panic, lk)"
| "lock_access me m ebp U_cpu lk = (if lk_cpu lk = Some me then U_set_pcs else Unlock_panic, lk)"
| "lock_access me m ebp U_set_pcs lk = (U_set_cpu, lk\<lparr>pcs := (pcs lk)[0 := 0]\<rparr>)"
| "lock_access me m ebp U_set_cpu lk = (U_xchg, lk\<lparr>lk_cpu := None\<rparr>)"
| "lock_access me m ebp U_xchg lk = (Idle, snd (xchg 0 lk))"
| "lock_access me m ebp Lock_panic lk = (Lock_panic, lk)"
| "lock_access me m ebp Unlock_panic lk = (Unlock_panic, lk)"

text \<open>The accesses of \<open>spin_lock\<close> and \<open>spin_unlock\<close> when no other processor interferes.\<close>

fun lock_run :: "nat \<Rightarrow> nat \<Rightarrow> (u32 \<Rightarrow> u32) \<Rightarrow> u32 \<Rightarrow> lock_pc \<times> spinlock \<Rightarrow> lock_pc \<times> spinlock" where
  "lock_run 0 me m ebp c = c"
| "lock_run (Suc n) me m ebp (pc, lk) = lock_run n me m ebp (lock_access me m ebp pc lk)"

text \<open>
  The same as one function each: the panic, \<open>None\<close> where the loop of \<open>spin_lock\<close> does not end unless
  another processor releases the lock, and the lock afterwards.
\<close>

definition spin_lock :: "nat \<Rightarrow> (u32 \<Rightarrow> u32) \<Rightarrow> u32 \<Rightarrow> spinlock \<Rightarrow> (lock_pc \<times> spinlock) option" where
  "spin_lock me m ebp lk =
     (if holding lk me then Some (Lock_panic, lk)
      else let (old, lk) = xchg 1 lk
           in if old \<noteq> 0 then None
              else Some (Critical, lk\<lparr>lk_cpu := Some me, pcs := get_caller_pcs m ebp\<rparr>))"

definition spin_unlock :: "nat \<Rightarrow> spinlock \<Rightarrow> lock_pc \<times> spinlock" where
  "spin_unlock me lk =
     (if \<not> holding lk me then (Unlock_panic, lk)
      else (Idle, snd (xchg 0 (lk\<lparr>pcs := (pcs lk)[0 := 0], lk_cpu := None\<rparr>))))"

section \<open>The system\<close>

text \<open>Where each processor is, and the lock.\<close>

type_synonym lock_system = "(nat \<Rightarrow> lock_pc) \<times> spinlock"

inductive lock_step :: "lock_system \<Rightarrow> lock_system \<Rightarrow> bool" where
  access: "lock_access me m ebp (at me) lk = (pc', lk') \<Longrightarrow> lock_step (at, lk) (at(me := pc'), lk')"

inductive lock_reachable :: "lock_system \<Rightarrow> bool" where
  initially: "lock_reachable ((\<lambda>_. Idle), kernel_lock)"
| steps: "lock_reachable c \<Longrightarrow> lock_step c c' \<Longrightarrow> lock_reachable c'"

inductive_cases lock_stepE: "lock_step c c'"

text \<open>The points at which a processor has the lock, and those of them at which \<open>cpu\<close> names it.\<close>

definition holds :: "lock_pc \<Rightarrow> bool" where
  "holds pc \<longleftrightarrow> pc \<in> {L_set_cpu, L_set_pcs, Critical, U_locked, U_cpu, U_set_pcs, U_set_cpu, U_xchg}"

definition recorded :: "lock_pc \<Rightarrow> bool" where
  "recorded pc \<longleftrightarrow> pc \<in> {L_set_pcs, Critical, U_locked, U_cpu, U_set_pcs, U_set_cpu}"

text \<open>The invariant, with the processor that has the lock.\<close>

definition owned :: "nat option \<Rightarrow> lock_system \<Rightarrow> bool" where
  "owned ow c \<longleftrightarrow> (case c of (at, lk) \<Rightarrow>
     (\<forall>i. holds (at i) \<longleftrightarrow> ow = Some i) \<and> locked lk = (if ow = None then 0 else 1)
     \<and> (\<forall>i. lk_cpu lk = Some i \<longleftrightarrow> recorded (at i))
     \<and> (\<forall>i. at i \<noteq> Lock_panic \<and> at i \<noteq> Unlock_panic) \<and> length (pcs lk) = 10)"

section \<open>Mutual exclusion\<close>

lemma length_caller_pcs [simp]: "length (caller_pcs n m ebp) = n"
  by (induction n arbitrary: ebp) simp_all

lemma owned_update:
  assumes "owned ow (at, lk)"
    and "holds pc' \<longleftrightarrow> ow' = Some me" "recorded pc' \<longleftrightarrow> lk_cpu lk' = Some me"
    and "\<And>i. i \<noteq> me \<Longrightarrow> (ow' = Some i \<longleftrightarrow> ow = Some i) \<and> (lk_cpu lk' = Some i \<longleftrightarrow> lk_cpu lk = Some i)"
    and "locked lk' = (if ow' = None then 0 else 1)" "pc' \<noteq> Lock_panic" "pc' \<noteq> Unlock_panic" "length (pcs lk') = 10"
  shows "owned ow' (at(me := pc'), lk')"
  using assms by (auto simp: owned_def)

lemma owned_access:
  assumes own: "owned ow (at, lk)" and acc: "lock_access me m ebp (at me) lk = (pc', lk')"
  shows "owned (if holds pc' then Some me else if ow = Some me then None else ow) (at(me := pc'), lk')"
proof -
  have h: "holds (at me) \<longleftrightarrow> ow = Some me" "lk_cpu lk = Some me \<longleftrightarrow> recorded (at me)" "at me \<noteq> Lock_panic" "at me \<noteq> Unlock_panic"
    "locked lk = (if ow = None then 0 else 1)" "length (pcs lk) = 10" using own by (simp_all add: owned_def)
  have cpu: "ow = Some i" if "lk_cpu lk = Some i" for i
  proof -
    have "recorded (at i)" "holds (at i) \<longleftrightarrow> ow = Some i" using own that by (auto simp: owned_def)
    then show ?thesis by (auto simp: recorded_def holds_def)
  qed
  show ?thesis
    by (rule owned_update [OF own]; insert acc h cpu; cases "at me"; cases ow; cases "lk_cpu lk")
      (auto simp: xchg_def get_caller_pcs_def holds_def recorded_def)
qed

lemma reachable_owned: "lock_reachable c \<Longrightarrow> \<exists>ow. owned ow c"
proof (induction rule: lock_reachable.induct)
  case initially
  have "owned None ((\<lambda>_. Idle), kernel_lock)" by (simp add: owned_def holds_def recorded_def kernel_lock_def)
  then show ?case ..
next
  case (steps c c')
  from steps.hyps(2) steps.IH show ?case by (auto elim!: lock_stepE dest: owned_access)
qed

lemma lock_run_numeral [simp]:
  "lock_run (numeral n) me m ebp (pc, lk) = lock_run (pred_numeral n) me m ebp (lock_access me m ebp pc lk)"
  by (simp add: numeral_eq_Suc)

lemma lock_runs:
  "locked lk = 0 \<Longrightarrow> lock_run 4 me m ebp (L_locked, lk) = the (spin_lock me m ebp lk)"
  "holding lk me \<Longrightarrow> lock_run 5 me m ebp (U_locked, lk) = spin_unlock me lk"
  by (simp_all add: spin_lock_def spin_unlock_def holding_def xchg_def)

lemma reachable_run:
  "lock_reachable (at, lk) \<Longrightarrow> lock_run n me m ebp (at me, lk) = (pc', lk') \<Longrightarrow> lock_reachable (at(me := pc'), lk')"
proof (induction n arbitrary: at lk)
  case (Suc n)
  obtain pc1 lk1 where a: "lock_access me m ebp (at me) lk = (pc1, lk1)" by fastforce
  then have r: "lock_reachable (at(me := pc1), lk1)" using Suc.prems(1) by (blast intro: steps access)
  have "lock_reachable ((at(me := pc1))(me := pc'), lk')" by (rule Suc.IH [OF r]) (use a Suc.prems(2) in simp)
  then show ?case by (simp only: fun_upd_upd)
qed (auto simp: fun_upd_idem)

text \<open>
  C27. Spin locks exclude. However the accesses of the processors interleave, at most one processor
  has the lock, the lock word is 1 exactly while one has it, no processor ever runs into the panics of
  \<open>spin_lock\<close> and \<open>spin_unlock\<close>, and a processor in its critical section is the one that \<open>holding\<close>
  recognises.
\<close>

theorem spin_lock_excludes:
  assumes "lock_reachable (at, lk)"
  shows "(holds (at i) \<longrightarrow> holds (at j) \<longrightarrow> i = j) \<and> (locked lk = 1 \<longleftrightarrow> (\<exists>k. holds (at k))) \<and> locked lk \<in> {0, 1}
    \<and> at i \<notin> {Lock_panic, Unlock_panic} \<and> (at i = Critical \<longrightarrow> holding lk k \<longleftrightarrow> k = i)"
proof -
  obtain ow where ow: "owned ow (at, lk)" using reachable_owned [OF assms] ..
  have "holding lk k \<longleftrightarrow> k = i" if "at i = Critical"
  proof -
    from that have "lk_cpu lk = Some i" "locked lk = 1" using ow by (auto simp: owned_def holds_def recorded_def)
    then show ?thesis by (auto simp: holding_def)
  qed
  with ow show ?thesis by (auto simp: owned_def)
qed

theorem spin_lock_excludes_witness:
  "lock_reachable ((\<lambda>_. Idle)(3 := Critical), snd (the (spin_lock 3 (\<lambda>_. 0) 0 kernel_lock)))
    \<and> holding (snd (the (spin_lock 3 (\<lambda>_. 0) 0 kernel_lock))) 3
    \<and> \<not> holding (snd (the (spin_lock 3 (\<lambda>_. 0) 0 kernel_lock))) 2"
proof -
  let ?lk = "snd (the (spin_lock 3 (\<lambda>_. 0) 0 kernel_lock))"
  have "lock_run 5 3 (\<lambda>_. 0) 0 (Idle, kernel_lock) = (Critical, ?lk)"
    by (simp add: spin_lock_def kernel_lock_def holding_def xchg_def)
  then have r: "lock_reachable ((\<lambda>_. Idle)(3 := Critical), ?lk)" by (rule reachable_run [OF initially])
  show ?thesis using r spin_lock_excludes [OF r, of 3 3 3] spin_lock_excludes [OF r, of 3 3 2] by simp
qed



end
