(* ===== verification/Block_Cache.thy ===== *)
theory Block_Cache
  imports Cstring
begin

text \<open>
  The block cache of the file server: \<open>fs/bc.c\<close> and the transfers of \<open>fs/ide.c\<close>. Disk block \<open>n\<close> appears
  in the address space of the server at \<open>DISKMAP + n * BLKSIZE\<close>; the first access to a page of this
  region faults, and the handler \<open>bc_pgfault\<close> loads the block. The memory of the server is a byte
  memory with, for every page, whether it is mapped and whether the processor has set its dirty
  bit. Every load and store of the file server goes through \<open>touch\<close>, the access with its fault. The
  kernel is seen through its documented results: \<open>sys_page_alloc\<close> gives a zeroed page as long as
  pages are left, \<open>sys_page_map\<close> of a page onto itself clears the dirty bit and refuses addresses that
  are not page-aligned. The drive transfers sectors or reports an error for a bad one. \<open>check_bc\<close>, a
  self-test that leaves the disk unchanged, and the selection of the drive are not modelled.
\<close>

section \<open>Definitions\<close>

named_theorems fs_defs \<open>the constants of the file system\<close>

definition BLKSIZE :: u32 where [fs_defs]: "BLKSIZE = PGSIZE"
definition SECTSIZE :: nat where [fs_defs]: "SECTSIZE = 512"
definition BLKSECTS :: nat where [fs_defs]: "BLKSECTS = 8"
definition DISKMAP :: u32 where [fs_defs]: "DISKMAP = 0x10000000"
definition DISKSIZE :: u32 where [fs_defs]: "DISKSIZE = 0xC0000000"

text \<open>The panics and failed assertions of the file server.\<close>

datatype fspanic =
    Bad_block_number u32       \<comment> \<open>diskaddr\<close>
  | Fault_in_fs u32            \<comment> \<open>bc_pgfault: outside the disk map\<close>
  | Fault_recursion            \<comment> \<open>the handler faults on the super block again and again\<close>
  | Nonexistent_block u32
  | Alloc_failed
  | Map_failed
  | Reading_free_block u32
  | Flush_bad_va u32
  | Flush_write_failed
  | Flush_map_failed
  | Bad_magic
  | Fs_too_large
  | Free_zero_block
  | Assert_bitmap u32
  | Bitmap_check_loops         \<comment> \<open>check_bitmap: the counter wraps around\<close>
  | Assert_dir_size
  | Runaway_string             \<comment> \<open>strcpy of a string without an end\<close>
  | Ide_assert

type_synonym 'a fres = "(fspanic, 'a) res"

text \<open>
  The memory of the server, the state of its pages, the drive, the number of pages that the kernel
  is still going to give, and whether \<open>super\<close> and \<open>bitmap\<close> are set; they then point to the blocks 1 and 2.
\<close>

record fsmem =
  fmem :: mem
  mapped :: "nat \<Rightarrow> bool"
  dirty :: "nat \<Rightarrow> bool"
  disk :: "nat \<Rightarrow> u8"
  bad :: "nat \<Rightarrow> bool"
  avail :: nat
  super_set :: bool
  bitmap_set :: bool

definition super :: u32 where [fs_defs]: "super = DISKMAP + BLKSIZE"
definition bitmap :: u32 where [fs_defs]: "bitmap = DISKMAP + 2 * BLKSIZE"

text \<open>The sector that the registers select, with 28 bits; the transfers of one sector.\<close>

definition lba :: "u32 \<Rightarrow> nat" where
  "lba secno = unat (secno AND 0x0FFFFFFF)"

definition insl :: "u32 \<Rightarrow> (nat \<Rightarrow> u8) \<Rightarrow> mem \<Rightarrow> mem" where
  "insl dst data m = (\<lambda>a. if unat (a - dst) < SECTSIZE then data (unat (a - dst)) else m a)"

definition outsl :: "u32 \<Rightarrow> nat \<Rightarrow> mem \<Rightarrow> (nat \<Rightarrow> u8) \<Rightarrow> nat \<Rightarrow> u8" where
  "outsl src sec m d = (\<lambda>x. if x div SECTSIZE = sec then m (src + of_nat (x mod SECTSIZE)) else d x)"

fun ide_read_loop :: "nat \<Rightarrow> nat \<Rightarrow> u32 \<Rightarrow> fsmem \<Rightarrow> int \<times> fsmem" where
  "ide_read_loop 0 sec dst s = (0, s)"
| "ide_read_loop (Suc nsecs) sec dst s =
     (if bad s sec then (- 1, s)
      else ide_read_loop nsecs (sec + 1) (dst + 512)
             (s\<lparr>fmem := insl dst (\<lambda>k. disk s (sec * SECTSIZE + k)) (fmem s), dirty := (dirty s)(PGNUM dst := True)\<rparr>))"

definition ide_read :: "u32 \<Rightarrow> u32 \<Rightarrow> nat \<Rightarrow> fsmem \<Rightarrow> (int \<times> fsmem) fres" where
  "ide_read secno dst nsecs s = (if nsecs \<le> 256 then Ok (ide_read_loop nsecs (lba secno) dst s) else Panic Ide_assert)"

fun ide_write_loop :: "nat \<Rightarrow> nat \<Rightarrow> u32 \<Rightarrow> fsmem \<Rightarrow> int \<times> fsmem" where
  "ide_write_loop 0 sec src s = (0, s)"
| "ide_write_loop (Suc nsecs) sec src s =
     (if bad s sec then (- 1, s)
      else ide_write_loop nsecs (sec + 1) (src + 512) (s\<lparr>disk := outsl src sec (fmem s) (disk s)\<rparr>))"

definition ide_write :: "u32 \<Rightarrow> u32 \<Rightarrow> nat \<Rightarrow> fsmem \<Rightarrow> (int \<times> fsmem) fres" where
  "ide_write secno src nsecs s = (if nsecs \<le> 256 then Ok (ide_write_loop nsecs (lba secno) src s) else Panic Ide_assert)"

text \<open>The system calls.\<close>

definition sys_page_alloc_zero :: "u32 \<Rightarrow> fsmem \<Rightarrow> int \<times> fsmem" where
  "sys_page_alloc_zero va s =
     (if avail s = 0 then (- E_NO_MEM, s)
      else (0, s\<lparr>avail := avail s - 1, mapped := (mapped s)(PGNUM va := True), dirty := (dirty s)(PGNUM va := False),
                 fmem := (\<lambda>a. if PGNUM a = PGNUM va then 0 else fmem s a)\<rparr>))"

definition sys_page_map_self :: "u32 \<Rightarrow> fsmem \<Rightarrow> int \<times> fsmem" where
  "sys_page_map_self va s =
     (if va \<ge> UTOP \<or> PGOFF va \<noteq> 0 \<or> \<not> mapped s (PGNUM va) then (- E_INVAL, s)
      else (0, s\<lparr>dirty := (dirty s)(PGNUM va := False)\<rparr>))"

definition sys_page_unmap_self :: "u32 \<Rightarrow> fsmem \<Rightarrow> int \<times> fsmem" where
  "sys_page_unmap_self va s =
     (if va \<ge> UTOP \<or> PGOFF va \<noteq> 0 then (- E_INVAL, s) else (0, s\<lparr>mapped := (mapped s)(PGNUM va := False)\<rparr>))"

definition in_diskmap :: "u32 \<Rightarrow> bool" where
  "in_diskmap a \<longleftrightarrow> DISKMAP \<le> a \<and> a < DISKMAP + DISKSIZE"

definition block_of :: "u32 \<Rightarrow> u32" where
  "block_of a = (a - DISKMAP) div BLKSIZE"

text \<open>The super block as the handler reads it, when its page is mapped.\<close>

definition s_nblocks :: "fsmem \<Rightarrow> u32" where
  "s_nblocks s = load32 (fmem s) (super + 4)"

text \<open>The part of \<open>bc_pgfault\<close> that brings the block in. The result of \<open>ide_read\<close> is ignored.\<close>

definition bc_load :: "u32 \<Rightarrow> fsmem \<Rightarrow> fsmem fres" where
  "bc_load addr s =
     (let addr_round = ROUNDDOWN addr PGSIZE; (ret_alloc, s) = sys_page_alloc_zero addr_round s
      in if ret_alloc < 0 then Panic Alloc_failed
         else bind_res (ide_read (block_of addr * of_nat BLKSECTS) addr_round BLKSECTS s) (\<lambda>(_, s).
           let (r, s) = sys_page_map_self addr s in if r < 0 then Panic Map_failed else Ok s))"

lemma ide_read_loop_mapped: "mapped (snd (ide_read_loop n sec dst s)) = mapped s"
  by (induction n sec dst s rule: ide_read_loop.induct) simp_all

lemma PGNUM_ROUNDDOWN [simp]: "PGNUM (ROUNDDOWN a PGSIZE) = PGNUM a"
  unfolding PGNUM_div unat_ROUNDDOWN by (simp add: minus_mod_eq_div_mult)

lemma bc_load_mapped: "bc_load addr s = Ok s' \<Longrightarrow> mapped s' = (mapped s)(PGNUM addr := True)"
  using ide_read_loop_mapped [of 8 "lba (block_of addr * 8)" "ROUNDDOWN addr PGSIZE" "snd (sys_page_alloc_zero (ROUNDDOWN addr PGSIZE) s)"]
  by (auto simp: bc_load_def sys_page_map_self_def ide_read_def BLKSECTS_def sys_page_alloc_zero_def err_defs
      Let_def split: if_split_asm prod.split_asm simp del: ide_read_loop.simps)

definition unmapped :: "fsmem \<Rightarrow> nat set" where
  "unmapped s = {p. p < 2 ^ 20 \<and> \<not> mapped s p}"

lemma bc_load_unmapped:
  assumes "bc_load va s = Ok s'" "\<not> mapped s (PGNUM va)"
  shows "card (unmapped s') < card (unmapped s)"
proof -
  have "unmapped s' = unmapped s - {PGNUM va}" by (auto simp: unmapped_def bc_load_mapped [OF assms(1)])
  moreover have "PGNUM va \<in> unmapped s" using assms(2) by (simp add: unmapped_def)
  moreover have "finite (unmapped s)" by (simp add: unmapped_def)
  ultimately show ?thesis by (simp only: card_Diff1_less)
qed

text \<open>
  An access to \<open>va\<close>. If the page is not mapped, this is \<open>bc_pgfault\<close>: reading \<open>super->s_nblocks\<close> there
  would fault again if the super block were not mapped, and reading the bitmap in \<open>block_is_free\<close> may
  fault for the block of the bitmap.
\<close>

function touch :: "u32 \<Rightarrow> fsmem \<Rightarrow> fsmem fres" where
  "touch va s =
     (if mapped s (PGNUM va) then Ok s
      else if \<not> in_diskmap va then Panic (Fault_in_fs va)
      else if super_set s \<and> \<not> mapped s (PGNUM super) then Panic Fault_recursion
      else if super_set s \<and> block_of va \<ge> s_nblocks s then Panic (Nonexistent_block (block_of va))
      else bind_res (bc_load va s) (\<lambda>s.
        if bitmap_set s \<and> super_set s \<and> block_of va < s_nblocks s
        then let word = bitmap + 4 * (block_of va div 32)
             in bind_res (touch word s) (\<lambda>s.
                  if bit (load32 (fmem s) word) (unat (block_of va mod 32))
                  then Panic (Reading_free_block (block_of va)) else Ok s)
        else Ok s))"
  by pat_completeness auto

termination
  by (relation "measure (\<lambda>(va, s). card (unmapped s))") (auto simp only: in_measure split_conv intro: bc_load_unmapped)

declare touch.simps [simp del]

text \<open>Loads and stores; a store sets the dirty bit of its page.\<close>

definition ld8 :: "u32 \<Rightarrow> fsmem \<Rightarrow> (u8 \<times> fsmem) fres" where
  "ld8 a s = bind_res (touch a s) (\<lambda>s. Ok (fmem s a, s))"

definition st8 :: "u32 \<Rightarrow> u8 \<Rightarrow> fsmem \<Rightarrow> fsmem fres" where
  "st8 a b s = bind_res (touch a s) (\<lambda>s. Ok (s\<lparr>fmem := (fmem s)(a := b), dirty := (dirty s)(PGNUM a := True)\<rparr>))"

definition ld32 :: "u32 \<Rightarrow> fsmem \<Rightarrow> (u32 \<times> fsmem) fres" where
  "ld32 a s = bind_res (touch a s) (\<lambda>s. Ok (load32 (fmem s) a, s))"

definition st32 :: "u32 \<Rightarrow> u32 \<Rightarrow> fsmem \<Rightarrow> fsmem fres" where
  "st32 a w s = bind_res (touch a s) (\<lambda>s. Ok (s\<lparr>fmem := store32 a w (fmem s), dirty := (dirty s)(PGNUM a := True)\<rparr>))"

text \<open>\<open>memmove\<close> and \<open>memset\<close> byte by byte, on a memory with the given loads and stores.\<close>

fun move_up :: "(u32 \<Rightarrow> 's \<Rightarrow> ('e, u8 \<times> 's) res) \<Rightarrow> (u32 \<Rightarrow> u8 \<Rightarrow> 's \<Rightarrow> ('e, 's) res) \<Rightarrow> nat \<Rightarrow> u32 \<Rightarrow> u32 \<Rightarrow> 's \<Rightarrow> ('e, 's) res" where
  "move_up ld st 0 d p s = Ok s"
| "move_up ld st (Suc n) d p s =
     bind_res (ld p s) (\<lambda>(b, s). bind_res (st d b s) (move_up ld st n (d + 1) (p + 1)))"

fun move_down :: "(u32 \<Rightarrow> 's \<Rightarrow> ('e, u8 \<times> 's) res) \<Rightarrow> (u32 \<Rightarrow> u8 \<Rightarrow> 's \<Rightarrow> ('e, 's) res) \<Rightarrow> nat \<Rightarrow> u32 \<Rightarrow> u32 \<Rightarrow> 's \<Rightarrow> ('e, 's) res" where
  "move_down ld st 0 d p s = Ok s"
| "move_down ld st (Suc n) d p s =
     bind_res (ld (p - 1) s) (\<lambda>(b, s). bind_res (st (d - 1) b s) (move_down ld st n (d - 1) (p - 1)))"

fun fill_up :: "(u32 \<Rightarrow> u8 \<Rightarrow> 's \<Rightarrow> ('e, 's) res) \<Rightarrow> nat \<Rightarrow> u32 \<Rightarrow> u8 \<Rightarrow> 's \<Rightarrow> ('e, 's) res" where
  "fill_up st 0 p c s = Ok s"
| "fill_up st (Suc n) p c s = bind_res (st p c s) (fill_up st n (p + 1) c)"

definition fs_memmove :: "u32 \<Rightarrow> u32 \<Rightarrow> u32 \<Rightarrow> fsmem \<Rightarrow> fsmem fres" where
  "fs_memmove dst src n s =
     (if src < dst \<and> src + n > dst then move_down ld8 st8 (unat n) (dst + n) (src + n) s
      else move_up ld8 st8 (unat n) dst src s)"

definition fs_memset :: "u32 \<Rightarrow> u8 \<Rightarrow> u32 \<Rightarrow> fsmem \<Rightarrow> fsmem fres" where
  "fs_memset p c n s = fill_up st8 (unat n) p c s"

definition diskaddr :: "u32 \<Rightarrow> fsmem \<Rightarrow> (u32 \<times> fsmem) fres" where
  "diskaddr blockno s =
     (if blockno = 0 then Panic (Bad_block_number blockno)
      else if super_set s
      then bind_res (ld32 (super + 4) s) (\<lambda>(n, s).
             if blockno \<ge> n then Panic (Bad_block_number blockno) else Ok (DISKMAP + blockno * BLKSIZE, s))
      else Ok (DISKMAP + blockno * BLKSIZE, s))"

definition va_is_mapped :: "u32 \<Rightarrow> fsmem \<Rightarrow> bool" where
  "va_is_mapped va s \<longleftrightarrow> mapped s (PGNUM va)"

definition va_is_dirty :: "u32 \<Rightarrow> fsmem \<Rightarrow> bool" where
  "va_is_dirty va s \<longleftrightarrow> dirty s (PGNUM va)"

definition flush_block :: "u32 \<Rightarrow> fsmem \<Rightarrow> fsmem fres" where
  "flush_block addr s =
     (if \<not> in_diskmap addr then Panic (Flush_bad_va addr)
      else
        let addr_round = ROUNDDOWN addr PGSIZE
        in if va_is_mapped addr_round s \<and> va_is_dirty addr_round s
           then bind_res (ide_write (block_of addr * of_nat BLKSECTS) addr_round BLKSECTS s) (\<lambda>(ret_flush, s).
                  if ret_flush < 0 then Panic Flush_write_failed
                  else let (ret_clearbit, s) = sys_page_map_self addr_round s
                       in if ret_clearbit < 0 then Panic Flush_map_failed else Ok s)
           else Ok s)"

section \<open>What the server sees\<close>

text \<open>
  The memory as loads see it: a page of the disk map that is not mapped shows the disk. The cache is
  coherent when clean pages equal the disk.
\<close>

definition diskpos :: "u32 \<Rightarrow> nat" where
  "diskpos a = unat a - unat DISKMAP"

definition view :: "fsmem \<Rightarrow> mem" where
  "view s a = (if in_diskmap a \<and> \<not> mapped s (PGNUM a) then disk s (diskpos a) else fmem s a)"

definition coherent :: "fsmem \<Rightarrow> bool" where
  "coherent s \<longleftrightarrow> (\<forall>a. in_diskmap a \<and> mapped s (PGNUM a) \<and> \<not> dirty s (PGNUM a) \<longrightarrow> fmem s a = disk s (diskpos a))"

section \<open>Loading a block\<close>

lemma ide_read_loop_eq:
  assumes "\<forall>i<n. \<not> bad s (sec + i) \<and> PGNUM (dst + of_nat (512 * i)) = P" "512 * n \<le> 2 ^ 32"
  shows "ide_read_loop n sec dst s =
    (0, s\<lparr>fmem := (\<lambda>a. if unat (a - dst) < 512 * n then disk s (sec * 512 + unat (a - dst)) else fmem s a),
         dirty := (if n = 0 then dirty s else (dirty s)(P := True))\<rparr>)"
  using assms
proof (induction n arbitrary: sec dst s)
  case (Suc n)
  let ?s = "s\<lparr>fmem := insl dst (\<lambda>k. disk s (sec * SECTSIZE + k)) (fmem s), dirty := (dirty s)(P := True)\<rparr>"
  have nb: "\<not> bad s sec" "PGNUM dst = P" using Suc.prems(1) by (auto dest: spec [of _ 0])
  have i: "\<forall>i<n. \<not> bad ?s (sec + 1 + i) \<and> PGNUM (dst + 512 + of_nat (512 * i)) = P"
    using Suc.prems(1) by (auto dest: spec [of _ "Suc _"] simp: ac_simps)
  have e: "unat (a - (dst + 512)) = (if unat (a - dst) < 512 then unat (a - dst) + 2 ^ 32 - 512 else unat (a - dst) - 512)" for a
  proof -
    have "a - (dst + 512) = (a - dst) - 512" by simp
    then show ?thesis using unat_u32_less [of "a - dst"] by (simp only: unat_sub_if_size) (simp add: word_size not_less)
  qed
  have m: "(if unat (a - (dst + 512)) < 512 * n then disk ?s ((sec + 1) * 512 + unat (a - (dst + 512))) else fmem ?s a)
     = (if unat (a - dst) < 512 * Suc n then disk s (sec * 512 + unat (a - dst)) else fmem s a)" for a
    using Suc.prems(2) by (auto simp: e insl_def SECTSIZE_def algebra_simps)
  have "ide_read_loop (Suc n) sec dst s = ide_read_loop n (sec + 1) (dst + 512) ?s" using nb by simp
  also have "\<dots> = (0, ?s\<lparr>fmem := (\<lambda>a. if unat (a - (dst + 512)) < 512 * n then disk ?s ((sec + 1) * 512 + unat (a - (dst + 512))) else fmem ?s a),
         dirty := (if n = 0 then dirty ?s else (dirty ?s)(P := True))\<rparr>)"
    using Suc.prems(2) by (intro Suc.IH [OF i]) simp
  also have "(if n = 0 then dirty ?s else (dirty ?s)(P := True)) = (dirty s)(P := True)" by simp
  finally show ?case unfolding m by (simp del: fun_upd_apply ide_read_loop.simps)
qed simp

lemma in_diskmap_unat: "in_diskmap a \<longleftrightarrow> 0x10000000 \<le> unat a \<and> unat a < 0xD0000000"
  by (simp add: in_diskmap_def fs_defs word_le_nat_alt word_less_nat_alt)

lemma diskmap_unat: "in_diskmap a \<Longrightarrow> unat a = diskpos a + 65536 * 4096"
  by (simp add: in_diskmap_unat diskpos_def fs_defs)

lemma unat_block_of: "in_diskmap a \<Longrightarrow> unat (block_of a) = diskpos a div 4096"
  by (simp add: in_diskmap_unat block_of_def diskpos_def fs_defs PGSIZE_def unat_div_distrib unat_sub word_le_nat_alt)

lemma diskmap_PGNUM: "in_diskmap a \<Longrightarrow> PGNUM a = unat (block_of a) + 65536"
  unfolding PGNUM_div by (simp only: unat_block_of diskmap_unat div_mult_self1)

lemma diskpos_split:
  assumes "in_diskmap a"
  shows "diskpos a = unat (block_of a) * 4096 + unat a mod 4096"
  unfolding unat_block_of [OF assms] diskmap_unat [OF assms] mod_mult_self1 by simp

lemma in_diskmap_PGNUM: "in_diskmap a \<longleftrightarrow> 65536 \<le> PGNUM a \<and> PGNUM a < 851968"
  unfolding PGNUM_div in_diskmap_unat by (simp add: less_eq_div_iff_mult_less_eq div_less_iff_less_mult)

lemma in_diskmap_page: "PGNUM a = PGNUM b \<Longrightarrow> in_diskmap a \<longleftrightarrow> in_diskmap b"
  by (simp add: in_diskmap_PGNUM)

lemma block_of_page:
  assumes "PGNUM a = PGNUM b" "in_diskmap a"
  shows "block_of a = block_of b"
  using diskmap_PGNUM [OF assms(2)] diskmap_PGNUM [of b] assms(1) in_diskmap_page [OF assms(1)] assms(2)
  by (simp add: word_unat_eq_iff)

lemma block_less:
  assumes "in_diskmap a"
  shows "unat (block_of a) < 0xC0000"
proof -
  have "PGNUM a < 851968" using assms by (simp only: in_diskmap_PGNUM)
  then show ?thesis using diskmap_PGNUM [OF assms] by linarith
qed

lemma lba_eq: "lba w = unat w mod 2 ^ 28"
proof -
  have "(0x0FFFFFFF :: u32) = mask 28" by (simp add: mask_eq_exp_minus_1)
  then have "w AND 0x0FFFFFFF = take_bit 28 w" by (simp add: take_bit_eq_mask)
  then show ?thesis by (simp add: lba_def take_bit_eq_mod unat_mod_distrib)
qed

lemma lba_block:
  assumes "in_diskmap a"
  shows "lba (block_of a * 8) = unat (block_of a) * 8"
proof -
  have "unat (block_of a * 8) = unat (block_of a) * 8" using block_less [OF assms] by (simp add: unat_word_ariths)
  then show ?thesis using block_less [OF assms] by (simp add: lba_eq)
qed

lemma page_offset:
  "unat (a - ROUNDDOWN va PGSIZE) < 4096 \<longleftrightarrow> PGNUM a = PGNUM va"
  "PGNUM a = PGNUM va \<Longrightarrow> unat (a - ROUNDDOWN va PGSIZE) = unat a mod 4096"
proof -
  define r where "r = unat va div 4096"
  define q where "q = unat a div 4096"
  define o' where "o' = unat a mod 4096"
  have a: "unat a = q * 4096 + o'" "o' < 4096" by (simp_all add: q_def o'_def)
  have rd: "unat (ROUNDDOWN va PGSIZE) = r * 4096" by (simp add: unat_ROUNDDOWN r_def minus_mod_eq_div_mult)
  have lt: "r < 2 ^ 20" using unat_u32_less [of va] by (simp add: r_def)
  have u: "unat (a - ROUNDDOWN va PGSIZE) = (if r * 4096 \<le> q * 4096 + o' then q * 4096 + o' - r * 4096 else q * 4096 + o' + 2 ^ 32 - r * 4096)"
    by (simp only: unat_sub_if_size rd a(1) word_size) simp
  show "unat (a - ROUNDDOWN va PGSIZE) < 4096 \<longleftrightarrow> PGNUM a = PGNUM va"
  proof (cases "q = r")
    case False
    then have "r + 1 \<le> q \<or> q + 1 \<le> r" by linarith
    then show ?thesis using False a(2) lt unfolding u PGNUM_div r_def [symmetric] q_def [symmetric] by (auto split: if_splits)
  qed (use a(2) in \<open>simp add: u PGNUM_div flip: r_def q_def\<close>)
  show "PGNUM a = PGNUM va \<Longrightarrow> unat (a - ROUNDDOWN va PGSIZE) = unat a mod 4096"
    by (simp add: u PGNUM_div o'_def flip: r_def q_def)
qed

lemma PGNUM_sector: "i < 8 \<Longrightarrow> PGNUM (ROUNDDOWN va PGSIZE + of_nat (512 * i)) = PGNUM va"
proof -
  assume "i < 8"
  let ?a = "ROUNDDOWN va PGSIZE + of_nat (512 * i) :: u32"
  have "unat (?a - ROUNDDOWN va PGSIZE) = unat (of_nat (512 * i) :: u32)" by simp
  also have "\<dots> < 4096" using \<open>i < 8\<close> by (simp only: unat_of_nat) simp
  finally show ?thesis by (simp only: page_offset(1))
qed

text \<open>A fault at the start of a page loads the block of the page.\<close>

lemma bc_load_eq:
  assumes "in_diskmap va" "\<forall>i. \<not> bad s i"
  shows "bc_load va s =
    (if avail s = 0 then Panic Alloc_failed else if PGOFF va \<noteq> 0 then Panic Map_failed
     else Ok (s\<lparr>avail := avail s - 1, mapped := (mapped s)(PGNUM va := True), dirty := (dirty s)(PGNUM va := False),
                fmem := (\<lambda>a. if PGNUM a = PGNUM va then disk s (diskpos a) else fmem s a)\<rparr>))"
proof (cases "avail s = 0")
  case True
  then show ?thesis by (simp add: bc_load_def sys_page_alloc_zero_def err_defs)
next
  case False
  define s1 where "s1 = snd (sys_page_alloc_zero (ROUNDDOWN va PGSIZE) s)"
  have s1: "sys_page_alloc_zero (ROUNDDOWN va PGSIZE) s = (0, s1)" "disk s1 = disk s" "bad s1 = bad s"
    "\<And>a. PGNUM a \<noteq> PGNUM va \<Longrightarrow> fmem s1 a = fmem s a" using False by (simp_all add: s1_def sys_page_alloc_zero_def)
  have r: "ide_read_loop 8 (unat (block_of va) * 8) (ROUNDDOWN va PGSIZE) s1 =
     (0, s1\<lparr>fmem := (\<lambda>a. if unat (a - ROUNDDOWN va PGSIZE) < 512 * 8 then disk s1 (unat (block_of va) * 8 * 512 + unat (a - ROUNDDOWN va PGSIZE)) else fmem s1 a),
         dirty := (if (8::nat) = 0 then dirty s1 else (dirty s1)(PGNUM va := True))\<rparr>)"
    by (rule ide_read_loop_eq) (use PGNUM_sector assms(2) in \<open>auto simp: s1(3)\<close>)
  have f: "(if unat (a - ROUNDDOWN va PGSIZE) < 512 * 8 then disk s1 (unat (block_of va) * 8 * 512 + unat (a - ROUNDDOWN va PGSIZE)) else fmem s1 a)
     = (if PGNUM a = PGNUM va then disk s (diskpos a) else fmem s a)" for a
  proof (cases "PGNUM a = PGNUM va")
    case True
    then have "in_diskmap a" "block_of a = block_of va" using assms(1) in_diskmap_page [OF True] block_of_page [OF True] by auto
    then show ?thesis using True page_offset [of a va] by (simp add: s1(2) diskpos_split mult.commute)
  next
    case n: False
    then show ?thesis using page_offset(1) [of a va] by (simp add: s1(4))
  qed
  have ut: "\<not> UTOP \<le> va" using assms(1) by (simp add: in_diskmap_unat mmu_defs word_le_nat_alt)
  have l: "ide_read (block_of va * of_nat BLKSECTS) (ROUNDDOWN va PGSIZE) BLKSECTS s1 =
      Ok (0, s1\<lparr>fmem := (\<lambda>a. if PGNUM a = PGNUM va then disk s (diskpos a) else fmem s a), dirty := (dirty s1)(PGNUM va := True)\<rparr>)"
    using r unfolding f by (simp add: ide_read_def BLKSECTS_def lba_block [OF assms(1)] del: ide_read_loop.simps)
  show ?thesis using False ut
    unfolding bc_load_def Let_def s1(1) by (simp add: l sys_page_map_self_def err_defs) (simp add: s1_def sys_page_alloc_zero_def)
qed

section \<open>The cache shows the disk\<close>

text \<open>
  What a fault may change: more blocks are in memory, clean, and nothing else is different. The
  server sees the same memory.
\<close>

definition grows :: "fsmem \<Rightarrow> fsmem \<Rightarrow> bool" where
  "grows s s' \<longleftrightarrow> view s' = view s \<and> disk s' = disk s \<and> bad s' = bad s \<and> super_set s' = super_set s \<and> bitmap_set s' = bitmap_set s
     \<and> (\<forall>p. mapped s p \<longrightarrow> mapped s' p \<and> dirty s' p = dirty s p)
     \<and> (\<forall>a. mapped s (PGNUM a) \<longrightarrow> fmem s' a = fmem s a)
     \<and> (coherent s \<longrightarrow> coherent s')"

lemma grows_refl [simp]: "grows s s"
  by (simp add: grows_def)

lemma grows_trans: "grows s s' \<Longrightarrow> grows s' s'' \<Longrightarrow> grows s s''"
  by (simp add: grows_def)

lemma touch_mapped [simp]: "mapped s (PGNUM va) \<Longrightarrow> touch va s = Ok s"
  by (simp add: touch.simps)

lemma bc_load_grows:
  assumes "bc_load va s = Ok s'" "in_diskmap va" "\<forall>i. \<not> bad s i" "\<not> mapped s (PGNUM va)"
  shows "grows s s' \<and> mapped s' (PGNUM va)"
proof -
  have s': "s' = s\<lparr>avail := avail s - 1, mapped := (mapped s)(PGNUM va := True), dirty := (dirty s)(PGNUM va := False),
      fmem := (\<lambda>a. if PGNUM a = PGNUM va then disk s (diskpos a) else fmem s a)\<rparr>"
    using assms(1) unfolding bc_load_eq [OF assms(2,3)] by (auto split: if_split_asm)
  have "view s' a = view s a" for a
    using assms(2,4) in_diskmap_page [of a va] by (cases "PGNUM a = PGNUM va") (auto simp: s' view_def)
  then have v: "view s' = view s" ..
  have "coherent s'" if "coherent s" using that unfolding coherent_def s' by auto
  then show ?thesis using v assms(4) by (auto simp: grows_def s')
qed

lemma touch_grows:
  "touch va s = Ok s' \<Longrightarrow> \<forall>i. \<not> bad s i \<Longrightarrow> grows s s' \<and> mapped s' (PGNUM va)"
proof (induction va s arbitrary: s' rule: touch.induct)
  case (1 va s)
  show ?case
  proof (cases "mapped s (PGNUM va)")
    case True
    with 1(2) show ?thesis by simp
  next
    case False
    with 1(2) have d: "in_diskmap va" "\<not> (super_set s \<and> \<not> mapped s (PGNUM super))" "\<not> (super_set s \<and> s_nblocks s \<le> block_of va)"
      by (subst (asm) touch.simps; simp split: if_split_asm)+
    obtain s1 where s1: "bc_load va s = Ok s1"
      using 1(2) d False by (subst (asm) touch.simps) (auto simp: bind_res_eq_Ok split: if_split_asm)
    note g = bc_load_grows [OF s1 d(1) 1(3) False]
    show ?thesis
    proof (cases "bitmap_set s1 \<and> super_set s1 \<and> block_of va < s_nblocks s1")
      case False
      then have "s' = s1" using 1(2) d s1 \<open>\<not> mapped s (PGNUM va)\<close> by (subst (asm) touch.simps) auto
      with g show ?thesis by simp
    next
      case True
      then have t: "touch (bitmap + 4 * (block_of va div 32)) s1 = Ok s'"
        using 1(2) d s1 \<open>\<not> mapped s (PGNUM va)\<close> by (subst (asm) touch.simps) (auto simp: Let_def bind_res_eq_Ok split: if_split_asm)
      have "\<forall>i. \<not> bad s1 i" using g 1(3) by (simp add: grows_def)
      from 1(1) [OF \<open>\<not> mapped s (PGNUM va)\<close> _ d(2,3) s1 True refl t this] d(1) have "grows s1 s'" by blast
      with g show ?thesis by (auto intro: grows_trans simp: grows_def)
    qed
  qed
qed

definition readable :: "fsmem \<Rightarrow> bool" where
  "readable s \<longleftrightarrow> coherent s \<and> (\<forall>i. \<not> bad s i)"

lemma grows_readable: "grows s s' \<Longrightarrow> readable s \<Longrightarrow> readable s'"
  by (simp add: grows_def readable_def)

lemma mapped_view: "mapped s (PGNUM a) \<Longrightarrow> view s a = fmem s a"
  by (simp add: view_def)

lemma ld8_view:
  assumes "readable s" "ld8 a s = Ok (b, s')"
  shows "b = view s a \<and> grows s s'"
proof -
  have t: "touch a s = Ok s'" "b = fmem s' a" using assms(2) by (auto simp: ld8_def bind_res_eq_Ok)
  then have "grows s s'" "mapped s' (PGNUM a)" using touch_grows assms(1) by (auto simp: readable_def)
  then show ?thesis using mapped_view [of s' a] t(2) by (simp add: grows_def)
qed

lemma store_view:
  assumes "readable s" "touch a s = Ok s1" "\<And>c. PGNUM c \<noteq> PGNUM a \<Longrightarrow> m c = fmem s1 c"
  defines "s' \<equiv> s1\<lparr>fmem := m, dirty := (dirty s1)(PGNUM a := True)\<rparr>"
  shows "view s' = (\<lambda>c. if PGNUM c = PGNUM a then m c else view s c)" "disk s' = disk s" "readable s'"
    "\<And>p. mapped s p \<Longrightarrow> mapped s' p" "mapped s' (PGNUM a)"
proof -
  have g: "grows s s1" "mapped s1 (PGNUM a)" using touch_grows [OF assms(2)] assms(1) by (auto simp: readable_def)
  show "view s' = (\<lambda>c. if PGNUM c = PGNUM a then m c else view s c)"
  proof
    fix c
    have "view s1 c = view s c" using g(1) by (simp add: grows_def)
    then show "view s' c = (if PGNUM c = PGNUM a then m c else view s c)"
      using g(2) assms(3) [of c] by (auto simp: view_def s'_def)
  qed
  show "disk s' = disk s" "\<And>p. mapped s p \<Longrightarrow> mapped s' p" "mapped s' (PGNUM a)"
    using g by (simp_all add: s'_def grows_def)
  have "readable s1" by (rule grows_readable [OF g(1) assms(1)])
  then show "readable s'" using assms(3) unfolding readable_def coherent_def s'_def by auto
qed

lemma st8_view:
  assumes "readable s" "st8 a b s = Ok s'"
  shows "view s' = (view s)(a := b) \<and> disk s' = disk s \<and> readable s' \<and> (\<forall>p. mapped s p \<longrightarrow> mapped s' p) \<and> mapped s' (PGNUM a)"
proof -
  obtain s1 where t: "touch a s = Ok s1" and s': "s' = s1\<lparr>fmem := (fmem s1)(a := b), dirty := (dirty s1)(PGNUM a := True)\<rparr>"
    using assms(2) by (auto simp: st8_def bind_res_eq_Ok)
  have m: "((fmem s1)(a := b)) c = fmem s1 c" if "PGNUM c \<noteq> PGNUM a" for c using that by auto
  note sv = store_view [OF assms(1) t, where m = "(fmem s1)(a := b)", OF m, folded s']
  have g: "grows s s1" "mapped s1 (PGNUM a)" using touch_grows [OF t] assms(1) by (auto simp: readable_def)
  have "fmem s1 c = view s c" if "PGNUM c = PGNUM a" for c
    using that g mapped_view [of s1 c] by (auto simp: grows_def)
  then have "view s' = (view s)(a := b)" using sv(1) by (auto simp: fun_eq_iff)
  with sv(2-) show ?thesis by blast
qed

section \<open>Flushing a block\<close>

lemma ide_write_loop_eq:
  assumes "\<forall>i<n. \<not> bad s (sec + i)"
  shows "ide_write_loop n sec src s = (0, s\<lparr>disk :=
    (\<lambda>x. if sec \<le> x div 512 \<and> x div 512 < sec + n then fmem s (src + of_nat (x - sec * 512)) else disk s x)\<rparr>)"
  using assms
proof (induction n arbitrary: sec src s)
  case (Suc n)
  let ?s = "s\<lparr>disk := outsl src sec (fmem s) (disk s)\<rparr>"
  have nb: "\<not> bad s sec" "\<forall>i<n. \<not> bad ?s (sec + 1 + i)"
    using Suc.prems by (auto dest: spec [of _ 0] spec [of _ "Suc _"])
  have m: "(if sec + 1 \<le> x div 512 \<and> x div 512 < sec + 1 + n then fmem ?s (src + 512 + of_nat (x - (sec + 1) * 512)) else disk ?s x)
     = (if sec \<le> x div 512 \<and> x div 512 < sec + Suc n then fmem s (src + of_nat (x - sec * 512)) else disk s x)" for x
  proof (cases "sec + 1 \<le> x div 512")
    case True
    then have "(sec + 1) * 512 \<le> x" by (simp add: less_eq_div_iff_mult_less_eq)
    then have "(src + 512 + of_nat (x - (sec + 1) * 512) :: u32) = src + of_nat (x - sec * 512)"
      by (simp add: of_nat_diff algebra_simps)
    with True show ?thesis by (simp add: outsl_def SECTSIZE_def)
  next
    case False
    show ?thesis
    proof (cases "sec \<le> x div 512")
      case True
      with False have "sec = x div 512" by simp
      then have "x - sec * 512 = x mod 512" by (simp add: minus_div_mult_eq_mod)
      with \<open>sec = x div 512\<close> show ?thesis by (simp only: outsl_def SECTSIZE_def) simp
    qed (use False in \<open>simp add: outsl_def SECTSIZE_def\<close>)
  qed
  have "ide_write_loop (Suc n) sec src s = ide_write_loop n (sec + 1) (src + 512) ?s" using nb by simp
  also note Suc.IH [OF nb(2)]
  finally show ?case unfolding m by simp
qed (simp flip: not_less)

definition flushed :: "u32 \<Rightarrow> fsmem \<Rightarrow> fsmem" where
  "flushed a s =
     (if mapped s (PGNUM a) \<and> dirty s (PGNUM a)
      then s\<lparr>disk := (\<lambda>x. if x div 4096 = unat (block_of a) then fmem s (ROUNDDOWN a PGSIZE + of_nat (x - unat (block_of a) * 4096)) else disk s x),
             dirty := (dirty s)(PGNUM a := False)\<rparr>
      else s)"

lemma flush_block_eq:
  assumes "readable s" "in_diskmap a"
  shows "flush_block a s = Ok (flushed a s)"
proof (cases "mapped s (PGNUM a) \<and> dirty s (PGNUM a)")
  case True
  let ?b = "unat (block_of a)"
  have sec: "?b * 8 \<le> x div 512 \<and> x div 512 < ?b * 8 + 8 \<longleftrightarrow> x div 4096 = ?b" for x
  proof -
    have "x div 4096 = x div 512 div 8" by (simp flip: div_mult2_eq)
    then show ?thesis by auto
  qed
  have pos: "?b * 8 * 512 = ?b * 4096" by simp
  have nb: "\<forall>i<8. \<not> bad s (?b * 8 + i)" using assms(1) by (simp add: readable_def)
  have w: "ide_write (block_of a * of_nat BLKSECTS) (ROUNDDOWN a PGSIZE) BLKSECTS s =
      Ok (0, s\<lparr>disk := (\<lambda>x. if x div 4096 = ?b then fmem s (ROUNDDOWN a PGSIZE + of_nat (x - ?b * 4096)) else disk s x)\<rparr>)"
    using ide_write_loop_eq [OF nb, of "ROUNDDOWN a PGSIZE"]
    unfolding sec pos by (simp add: ide_write_def BLKSECTS_def lba_block [OF assms(2)] del: ide_write_loop.simps)
  have "ROUNDDOWN a PGSIZE \<le> a" by (simp add: word_le_nat_alt unat_ROUNDDOWN)
  moreover have "\<not> UTOP \<le> a" using assms(2) by (simp add: in_diskmap_unat mmu_defs word_le_nat_alt)
  ultimately have "\<not> UTOP \<le> ROUNDDOWN a PGSIZE" by (meson order.trans)
  moreover have "PGOFF (ROUNDDOWN a PGSIZE) = 0" by (simp add: word_unat_eq_iff PGOFF_mod ROUNDDOWN_aligned)
  ultimately show ?thesis using True assms(2)
    by (simp add: flush_block_def va_is_mapped_def va_is_dirty_def w sys_page_map_self_def flushed_def)
next
  case False
  then show ?thesis using assms(2) by (auto simp: flush_block_def va_is_mapped_def va_is_dirty_def flushed_def Let_def)
qed

lemma same_block: "in_diskmap a \<Longrightarrow> in_diskmap c \<Longrightarrow> diskpos c div 4096 = unat (block_of a) \<longleftrightarrow> PGNUM c = PGNUM a"
  using unat_block_of [of c] diskmap_PGNUM [of c] diskmap_PGNUM [of a] by simp

lemma page_address:
  assumes "PGNUM c = PGNUM a" "in_diskmap a"
  shows "ROUNDDOWN a PGSIZE + of_nat (diskpos c - unat (block_of a) * 4096) = c"
proof -
  have c: "in_diskmap c" "block_of c = block_of a" using assms in_diskmap_page [OF assms(1)] block_of_page [OF assms(1)] by auto
  then have "diskpos c - unat (block_of a) * 4096 = unat (c - ROUNDDOWN a PGSIZE)"
    using page_offset(2) [OF assms(1)] by (simp add: diskpos_split)
  then show ?thesis by simp
qed

lemma flushed_view:
  assumes "readable s" "in_diskmap a"
  shows "view (flushed a s) = view s" "readable (flushed a s)" "mapped (flushed a s) = mapped s"
    "in_diskmap c \<Longrightarrow> disk (flushed a s) (diskpos c) = (if PGNUM c = PGNUM a then view s c else disk s (diskpos c))"
    "mapped s (PGNUM a) \<Longrightarrow> \<not> dirty (flushed a s) (PGNUM a)"
    "p \<noteq> PGNUM a \<Longrightarrow> dirty (flushed a s) p = dirty s p" "fmem (flushed a s) = fmem s"
proof -
  have d: "disk (flushed a s) (diskpos c) = (if PGNUM c = PGNUM a then view s c else disk s (diskpos c))" if "in_diskmap c" for c
  proof (cases "mapped s (PGNUM a) \<and> dirty s (PGNUM a)")
    case True
    then show ?thesis using same_block [OF assms(2) that] page_address [OF _ assms(2), of c]
      by (auto simp: flushed_def view_def)
  next
    case False
    then show ?thesis using assms(1) that by (auto simp: flushed_def view_def readable_def coherent_def)
  qed
  show m: "mapped (flushed a s) = mapped s" "fmem (flushed a s) = fmem s" by (simp_all add: flushed_def)
  show "disk (flushed a s) (diskpos c) = (if PGNUM c = PGNUM a then view s c else disk s (diskpos c))" if "in_diskmap c" using d that .
  show "view (flushed a s) = view s" by (rule ext) (auto simp: view_def [of "flushed a s"] m d, auto simp: view_def)
  show dd: "mapped s (PGNUM a) \<Longrightarrow> \<not> dirty (flushed a s) (PGNUM a)" "p \<noteq> PGNUM a \<Longrightarrow> dirty (flushed a s) p = dirty s p" for p
    by (auto simp: flushed_def)
  have "bad (flushed a s) = bad s" by (simp add: flushed_def)
  moreover have "fmem (flushed a s) c = disk (flushed a s) (diskpos c)"
    if c: "in_diskmap c" "mapped (flushed a s) (PGNUM c)" "\<not> dirty (flushed a s) (PGNUM c)" for c
  proof (cases "PGNUM c = PGNUM a")
    case True
    then show ?thesis using c by (simp add: d m mapped_view)
  next
    case False
    then show ?thesis using c dd(2) [OF False] assms(1) by (simp add: d m readable_def coherent_def)
  qed
  ultimately show "readable (flushed a s)" using assms(1) by (simp add: readable_def coherent_def)
qed

section \<open>A memory behind faults\<close>

text \<open>
  The contract between the cache and the code above it: loads return what the server sees and leave it
  alone, stores change one byte of it, and once a page has been accessed, accesses to it succeed.
\<close>

locale faulting_memory =
  fixes ld :: "u32 \<Rightarrow> 's \<Rightarrow> ('e, u8 \<times> 's) res" and st :: "u32 \<Rightarrow> u8 \<Rightarrow> 's \<Rightarrow> ('e, 's) res"
    and seen :: "'s \<Rightarrow> mem" and inv :: "'s \<Rightarrow> bool" and present :: "'s \<Rightarrow> u32 \<Rightarrow> bool"
  assumes ld_seen: "inv s \<Longrightarrow> ld a s = Ok (b, s') \<Longrightarrow> b = seen s a \<and> seen s' = seen s \<and> inv s' \<and> (\<forall>c. present s c \<longrightarrow> present s' c)"
    and st_seen: "inv s \<Longrightarrow> st a b s = Ok s' \<Longrightarrow> seen s' = (seen s)(a := b) \<and> inv s' \<and> (\<forall>c. present s c \<longrightarrow> present s' c)"
    and ld_present: "inv s \<Longrightarrow> present s a \<Longrightarrow> \<exists>b. ld a s = Ok (b, s)"
    and st_present: "inv s \<Longrightarrow> present s a \<Longrightarrow> \<exists>s'. st a b s = Ok s'"
begin

lemma move_up_seen:
  "inv s \<Longrightarrow> move_up ld st n d p s = Ok s' \<Longrightarrow> seen s' = copy_up n d p (seen s) \<and> inv s' \<and> (\<forall>c. present s c \<longrightarrow> present s' c)"
proof (induction n arbitrary: d p s)
  case (Suc n)
  then obtain b s1 s2 where l: "ld p s = Ok (b, s1)" and w: "st d b s1 = Ok s2" and m: "move_up ld st n (d + 1) (p + 1) s2 = Ok s'"
    by (auto simp: bind_res_eq_Ok)
  note l' = ld_seen [OF Suc.prems(1) l]
  note w' = st_seen [OF conjunct1 [OF conjunct2 [OF conjunct2 [OF l']]] w]
  from Suc.IH [OF _ m] l' w' show ?case by (simp del: fun_upd_apply)
qed simp

lemma move_up_present:
  "inv s \<Longrightarrow> \<forall>k<n. present s (d + of_nat k) \<and> present s (p + of_nat k) \<Longrightarrow> \<exists>s'. move_up ld st n d p s = Ok s'"
proof (induction n arbitrary: d p s)
  case (Suc n)
  have "present s d" "present s p" using Suc.prems(2) by (auto dest: spec [of _ 0])
  then obtain b s2 where l: "ld p s = Ok (b, s)" and w: "st d b s = Ok s2" using ld_present st_present Suc.prems(1) by blast
  note w' = st_seen [OF Suc.prems(1) w]
  have "\<forall>k<n. present s2 (d + 1 + of_nat k) \<and> present s2 (p + 1 + of_nat k)"
  proof (intro allI impI)
    fix k assume "k < n"
    then have "present s (d + of_nat (Suc k))" "present s (p + of_nat (Suc k))" using Suc.prems(2) [rule_format, of "Suc k"] by auto
    then show "present s2 (d + 1 + of_nat k) \<and> present s2 (p + 1 + of_nat k)" using w' by (simp add: ac_simps)
  qed
  from Suc.IH [OF _ this] w' l w show ?case by auto
qed simp

lemma fill_up_seen:
  "inv s \<Longrightarrow> \<forall>k<n. present s (p + of_nat k) \<Longrightarrow> \<exists>s'. fill_up st n p c s = Ok s' \<and> seen s' = rep_stosb n p c (seen s) \<and> inv s'
     \<and> (\<forall>c. present s c \<longrightarrow> present s' c)"
proof (induction n arbitrary: p s)
  case (Suc n)
  have "present s p" using Suc.prems(2) by (auto dest: spec [of _ 0])
  then obtain s2 where w: "st p c s = Ok s2" using st_present Suc.prems(1) by blast
  note w' = st_seen [OF Suc.prems(1) w]
  have "\<forall>k<n. present s2 (p + 1 + of_nat k)"
  proof (intro allI impI)
    fix k assume "k < n"
    then have "present s (p + of_nat (Suc k))" using Suc.prems(2) [rule_format, of "Suc k"] by auto
    then show "present s2 (p + 1 + of_nat k)" using w' by (simp add: ac_simps)
  qed
  then obtain s' where "fill_up st n (p + 1) c s2 = Ok s' \<and> seen s' = rep_stosb n (p + 1) c (seen s2) \<and> inv s' \<and> (\<forall>c. present s2 c \<longrightarrow> present s' c)"
    using Suc.IH w' by blast
  then show ?case using w w' by (intro exI [of _ s']) (simp del: fun_upd_apply)
qed simp

end

interpretation cached: faulting_memory ld8 st8 view readable "\<lambda>s a. mapped s (PGNUM a)"
proof
  show "b = view s a \<and> view s' = view s \<and> readable s' \<and> (\<forall>c. mapped s (PGNUM c) \<longrightarrow> mapped s' (PGNUM c))"
    if "readable s" "ld8 a s = Ok (b, s')" for s a b s'
    using ld8_view [OF that] grows_readable [of s s'] that(1) by (auto simp: grows_def)
  show "view s' = (view s)(a := b) \<and> readable s' \<and> (\<forall>c. mapped s (PGNUM c) \<longrightarrow> mapped s' (PGNUM c))"
    if "readable s" "st8 a b s = Ok s'" for s a b s'
    using st8_view [OF that] by auto
qed (simp_all add: ld8_def st8_def)

text \<open>An aligned word lies in one page.\<close>

lemma aligned_word_page:
  assumes "unat w mod 4 = 0" "j < 4"
  shows "PGNUM (w + of_nat j) = PGNUM w"
proof -
  obtain q where q: "unat w = 4 * q" using assms(1) by (auto simp: mod_eq_0_iff_dvd elim: dvdE)
  then have lt: "unat w + j < 2 ^ 32" using assms(2) unat_u32_less [of w] by simp
  then have "unat (w + of_nat j) = unat w + j" by (simp add: unat_word_ariths unat_of_nat)
  moreover have "(unat w + j) div 4 = unat w div 4" using assms by presburger
  then have "(unat w + j) div 4 div 1024 = unat w div 4 div 1024" by simp
  ultimately show ?thesis unfolding PGNUM_div by (simp flip: div_mult2_eq)
qed

lemma aligned_word_bytes:
  assumes "unat w mod 4 = 0"
  shows "PGNUM (w + 1) = PGNUM w" "PGNUM (w + 2) = PGNUM w" "PGNUM (w + 3) = PGNUM w"
  using aligned_word_page [OF assms, of 1] aligned_word_page [OF assms, of 2] aligned_word_page [OF assms, of 3] by simp_all

lemma load32_page: "unat w mod 4 = 0 \<Longrightarrow> (\<And>c. PGNUM c = PGNUM w \<Longrightarrow> m c = m' c) \<Longrightarrow> load32 m w = load32 m' w"
  by (simp add: load32_def aligned_word_bytes)

lemma store32_page: "unat w mod 4 = 0 \<Longrightarrow> PGNUM c \<noteq> PGNUM w \<Longrightarrow> store32 w x m c = m c"
  using aligned_word_bytes [of w] by (auto simp: store32_def)

lemma unat_4_mult: "unat (4 * x + w :: u32) mod 4 = unat w mod 4"
proof -
  have "unat (4 * x + w) = (4 * unat x + unat w) mod 2 ^ 32" by (simp add: unat_word_ariths mod_simps)
  moreover have "(4 * unat x + unat w) mod 2 ^ 32 mod 4 = (4 * unat x + unat w) mod 4" by (rule mod_mod_cancel) simp
  ultimately show ?thesis by simp
qed

lemma unat_bitmap: "unat bitmap = 0x10002000"
  by (simp add: fs_defs PGSIZE_def)

lemma super_word_aligned [simp]: "unat (super + 4) mod 4 = 0" "PGNUM (super + 4) = PGNUM super"
  by (simp_all add: fs_defs PGSIZE_def PGNUM_div)

lemma bitmap_word_aligned [simp]: "unat (bitmap + 4 * x) mod 4 = 0"
  using unat_4_mult [of x bitmap] by (simp add: unat_bitmap add.commute)

lemma grows_load32: "grows s s' \<Longrightarrow> unat w mod 4 = 0 \<Longrightarrow> mapped s (PGNUM w) \<Longrightarrow> load32 (fmem s') w = load32 (fmem s) w"
  by (rule load32_page) (auto simp: grows_def)

text \<open>
  C33. The block cache is transparent. On a drive without errors and with a coherent cache, a load
  returns the byte that the server sees (the disk, where the block is not in memory yet) and changes
  nothing that is seen; a store changes this byte alone and not the disk; and \<open>flush_block\<close> returns, keeps
  what is seen, and makes the disk equal to it in this block alone.
\<close>

theorem cache_transparent:
  assumes "readable s"
  shows "(ld8 a s = Ok (b, s') \<longrightarrow> b = view s a \<and> view s' = view s \<and> disk s' = disk s \<and> readable s')
    \<and> (st8 a b s = Ok s' \<longrightarrow> view s' = (view s)(a := b) \<and> disk s' = disk s \<and> readable s')
    \<and> (in_diskmap a \<longrightarrow> (\<exists>s'. flush_block a s = Ok s' \<and> view s' = view s \<and> readable s' \<and>
         (\<forall>c. in_diskmap c \<longrightarrow> disk s' (diskpos c) = (if PGNUM c = PGNUM a then view s c else disk s (diskpos c)))))"
  using ld8_view [OF assms, of a b s'] grows_readable [OF _ assms, of s'] st8_view [OF assms, of a b s']
    flush_block_eq [OF assms, of a] flushed_view [OF assms, of a]
  by (auto simp: grows_def)

definition fresh_cache :: "nat \<Rightarrow> fsmem" where
  "fresh_cache n = \<lparr>fmem = (\<lambda>_. 0), mapped = (\<lambda>_. False), dirty = (\<lambda>_. False), disk = (\<lambda>x. of_nat (x div 4096)),
     bad = (\<lambda>_. False), avail = n, super_set = False, bitmap_set = False\<rparr>"

lemma fresh_cache_readable: "readable (fresh_cache n)"
  by (simp add: readable_def coherent_def fresh_cache_def)

theorem cache_transparent_witness:
  "readable (fresh_cache 1) \<and> (\<exists>s'. ld8 0x10003000 (fresh_cache 1) = Ok (3, s') \<and> view s' = view (fresh_cache 1))"
proof -
  let ?s = "fresh_cache 1"
  have d: "in_diskmap 0x10003000" by (simp add: in_diskmap_def fs_defs)
  have nb: "\<forall>i. \<not> bad ?s i" by (simp add: fresh_cache_def)
  obtain s' where s': "bc_load 0x10003000 ?s = Ok s'"
    using bc_load_eq [OF d nb] by (simp add: fresh_cache_def PGOFF_def)
  have "super_set s' = False \<and> mapped s' (PGNUM 0x10003000)"
    using bc_load_grows [OF s' d nb] by (simp add: grows_def fresh_cache_def)
  then have "touch 0x10003000 ?s = Ok s'" using s' d by (subst touch.simps) (simp add: fresh_cache_def)
  then have l: "ld8 0x10003000 ?s = Ok (fmem s' 0x10003000, s')" by (simp add: ld8_def)
  have "view ?s 0x10003000 = 3" using d by (simp add: view_def fresh_cache_def diskpos_def fs_defs)
  with cache_transparent [OF fresh_cache_readable [of 1], of "0x10003000" "fmem s' 0x10003000" s'] l fresh_cache_readable [of 1]
  show ?thesis by auto
qed

text \<open>
  C34. The first access to a block must be page-aligned. Let the super block and the bitmap be in memory
  and say that the block exists and is in use, and let the kernel have a page left. Then a fault at the
  first byte of the block loads it and the server goes on, but a fault at any other byte ends in the panic
  of \<open>bc_pgfault\<close>, because it passes the fault address to \<open>sys_page_map\<close> without rounding it down.
\<close>

theorem first_access:
  assumes "readable s" "super_set s" "mapped s (PGNUM super)" "bitmap_set s" "0 < avail s"
    and "in_diskmap va" "\<not> mapped s (PGNUM va)" "block_of va < s_nblocks s"
    and "mapped s (PGNUM (bitmap + 4 * (block_of va div 32)))"
    and "\<not> bit (load32 (fmem s) (bitmap + 4 * (block_of va div 32))) (unat (block_of va mod 32))"
  shows "(PGOFF va = 0 \<longrightarrow> (\<exists>s'. touch va s = Ok s' \<and> view s' = view s \<and> readable s' \<and> mapped s' (PGNUM va)))
    \<and> (PGOFF va \<noteq> 0 \<longrightarrow> touch va s = Panic Map_failed)"
proof -
  have nb: "\<forall>i. \<not> bad s i" using assms(1) by (simp add: readable_def)
  note load = bc_load_eq [OF assms(6) nb]
  show ?thesis
  proof (cases "PGOFF va = 0")
    case False
    then show ?thesis using assms load by (subst touch.simps) (simp add: not_le)
  next
    case True
    then obtain s1 where s1: "bc_load va s = Ok s1" using load assms(5) by simp
    note g = bc_load_grows [OF s1 assms(6) nb assms(7)]
    let ?w = "bitmap + 4 * (block_of va div 32)"
    have w: "mapped s1 (PGNUM ?w)" "load32 (fmem s1) ?w = load32 (fmem s) ?w" "s_nblocks s1 = s_nblocks s" "super_set s1" "bitmap_set s1"
      using g assms grows_load32 [of s s1 ?w] grows_load32 [of s s1 "super + 4"] by (simp_all add: s_nblocks_def grows_def)
    have "touch va s = Ok s1" using assms s1 w by (subst touch.simps) (simp add: not_le)
    then show ?thesis using True g grows_readable [of s s1] assms(1) by (auto simp: grows_def)
  qed
qed

text \<open>A cache that holds the super block and the bitmap of a disk with eight blocks, all in use.\<close>

definition eight_blocks :: fsmem where
  "eight_blocks = \<lparr>fmem = (\<lambda>a. if a = super + 4 then 8 else 0), mapped = (\<lambda>p. p = 65537 \<or> p = 65538), dirty = (\<lambda>p. p = 65537 \<or> p = 65538),
     disk = (\<lambda>_. 0), bad = (\<lambda>_. False), avail = 4, super_set = True, bitmap_set = True\<rparr>"

lemma eight_blocks_readable: "readable eight_blocks"
  by (auto simp: readable_def coherent_def eight_blocks_def)

theorem first_access_witness:
  "touch (DISKMAP + 3 * BLKSIZE + 5) eight_blocks = Panic Map_failed
    \<and> (\<exists>s'. touch (DISKMAP + 3 * BLKSIZE) eight_blocks = Ok s' \<and> view s' = view eight_blocks)"
proof -
  have n: "s_nblocks eight_blocks = 8" "super_set eight_blocks" "bitmap_set eight_blocks" "0 < avail eight_blocks"
    "mapped eight_blocks (PGNUM super)" "mapped eight_blocks (PGNUM bitmap)"
    by (simp_all add: s_nblocks_def load32_def eight_blocks_def fs_defs PGSIZE_def PGNUM_div)
  have b: "\<not> bit (load32 (fmem eight_blocks) bitmap) 3"
    by (simp add: load32_def eight_blocks_def fs_defs PGSIZE_def)
  have va: "in_diskmap va \<and> \<not> mapped eight_blocks (PGNUM va) \<and> block_of va = 3 \<and> (PGOFF va = 0 \<longleftrightarrow> va = 0x10003000)"
    if "va = 0x10003005 \<or> va = 0x10003000" for va
    using that by (auto simp: in_diskmap_def eight_blocks_def fs_defs PGSIZE_def PGNUM_div block_of_def PGOFF_def)
  have "DISKMAP + 3 * BLKSIZE + 5 = 0x10003005" "DISKMAP + 3 * BLKSIZE = 0x10003000" by (simp_all add: fs_defs PGSIZE_def)
  then show ?thesis
    using first_access [OF eight_blocks_readable n(2,5,3,4), of "0x10003005"] first_access [OF eight_blocks_readable n(2,5,3,4), of "0x10003000"]
      va [of "0x10003005"] va [of "0x10003000"] n b by auto
qed

end
