(* ===== verification/Fs.thy ===== *)
theory Fs
  imports Block_Cache "HOL-Library.Signed_Division"
begin

text \<open>
  The file system of \<open>fs/fs.c\<close> over the block cache. The program works in place on the disk blocks that
  are mapped into its memory, so the model does too: a \<open>struct File\<close> is an address, with its fields at
  their offsets, and every field access is a load or a store that may fault. A function that returns an
  error code or stores a result through a pointer returns \<open>Inl\<close> of the negative code or \<open>Inr\<close> of the
  result. The pointers \<open>super\<close> and \<open>bitmap\<close> are null before \<open>fs_init\<close> sets them. Names and paths, which
  are local arrays of the server, are lists of bytes without the final null.
\<close>

section \<open>Definitions\<close>

definition MAXNAMELEN :: nat where [fs_defs]: "MAXNAMELEN = 128"
definition NDIRECT :: u32 where [fs_defs]: "NDIRECT = 10"
definition NINDIRECT :: u32 where [fs_defs]: "NINDIRECT = 1024"
definition BLKBITSIZE :: u32 where [fs_defs]: "BLKBITSIZE = 32768"
definition BLKFILES :: nat where [fs_defs]: "BLKFILES = 16"
definition FTYPE_DIR :: u32 where [fs_defs]: "FTYPE_DIR = 1"
definition FS_MAGIC :: u32 where [fs_defs]: "FS_MAGIC = 0x4A0530AE"

text \<open>The fields of \<open>struct File\<close> (256 bytes) and \<open>struct Super\<close>.\<close>

definition f_size :: "u32 \<Rightarrow> u32" where "f_size f = f + 128"
definition f_type :: "u32 \<Rightarrow> u32" where "f_type f = f + 132"
definition f_direct :: "u32 \<Rightarrow> u32 \<Rightarrow> u32" where "f_direct f i = f + 136 + 4 * i"
definition f_indirect :: "u32 \<Rightarrow> u32" where "f_indirect f = f + 176"
definition s_root :: "u32 \<Rightarrow> u32" where "s_root p = p + 8"

definition super_ptr :: "fsmem \<Rightarrow> u32" where
  "super_ptr s = (if super_set s then super else 0)"

definition bitmap_ptr :: "fsmem \<Rightarrow> u32" where
  "bitmap_ptr s = (if bitmap_set s then bitmap else 0)"

definition bitmap_word :: "u32 \<Rightarrow> fsmem \<Rightarrow> u32" where
  "bitmap_word blockno s = bitmap_ptr s + 4 * (blockno div 32)"

text \<open>Division and remainder of an \<open>off_t\<close> by \<open>BLKSIZE\<close>, which are signed.\<close>

definition blk_div :: "u32 \<Rightarrow> u32" where
  "blk_div pos = of_int (sint pos sdiv 4096)"

definition blk_mod :: "u32 \<Rightarrow> u32" where
  "blk_mod pos = of_int (sint pos smod 4096)"

definition check_super :: "fsmem \<Rightarrow> fsmem fres" where
  "check_super s =
     bind_res (ld32 (super_ptr s) s) (\<lambda>(magic, s).
       if magic \<noteq> FS_MAGIC then Panic Bad_magic
       else bind_res (ld32 (super_ptr s + 4) s) (\<lambda>(n, s).
         if n > DISKSIZE div BLKSIZE then Panic Fs_too_large else Ok s))"

definition block_is_free :: "u32 \<Rightarrow> fsmem \<Rightarrow> (bool \<times> fsmem) fres" where
  "block_is_free blockno s =
     (if \<not> super_set s then Ok (False, s)
      else bind_res (ld32 (super + 4) s) (\<lambda>(n, s).
        if blockno \<ge> n then Ok (False, s)
        else bind_res (ld32 (bitmap_word blockno s) s) (\<lambda>(w, s). Ok (bit w (unat (blockno mod 32)), s))))"

definition free_block :: "u32 \<Rightarrow> fsmem \<Rightarrow> fsmem fres" where
  "free_block blockno s =
     (if blockno = 0 then Panic Free_zero_block
      else bind_res (ld32 (bitmap_word blockno s) s) (\<lambda>(w, s).
        st32 (bitmap_word blockno s) (w OR push_bit (unat (blockno mod 32)) 1) s))"

lemma unat_incr: "b < (n :: u32) \<Longrightarrow> unat (b + 1) = unat b + 1"
  using unat_u32_less [of n] by (simp add: unat_word_ariths word_less_nat_alt)

lemma unat_incr_max: "b \<noteq> (- 1 :: u32) \<Longrightarrow> unat (b + 1) = unat b + 1"
  using unat_incr [of b "- 1"] by (metis word_order.not_eq_extremum)

lemma counts_up: "4294967295 - unat b < 4294967296 - unat (b :: u32)"
  using unat_u32_less [of b] by simp

text \<open>The loop of \<open>alloc_block\<close> from \<open>blockno\<close> on.\<close>

function alloc_block_loop :: "u32 \<Rightarrow> fsmem \<Rightarrow> (int \<times> fsmem) fres" where
  "alloc_block_loop blockno s =
     bind_res (ld32 (super_ptr s + 4) s) (\<lambda>(n, s).
       if blockno < n
       then bind_res (block_is_free blockno s) (\<lambda>(free, s).
         if free
         then bind_res (ld32 (bitmap_word blockno s) s) (\<lambda>(w, s).
                bind_res (st32 (bitmap_word blockno s) (w AND NOT (push_bit (unat (blockno mod 32)) 1)) s) (\<lambda>s.
                  bind_res (flush_block (bitmap_word blockno s) s) (\<lambda>s. Ok (sint blockno, s))))
         else alloc_block_loop (blockno + 1) s)
       else Ok (- E_NO_DISK, s))"
  by pat_completeness auto

termination
  by (relation "measure (\<lambda>(blockno, s). 2 ^ 32 - unat blockno)") (auto simp: counts_up unat_incr)

declare alloc_block_loop.simps [simp del]

definition alloc_block :: "fsmem \<Rightarrow> (int \<times> fsmem) fres" where
  "alloc_block s = alloc_block_loop 0 s"

function check_bitmap_loop :: "u32 \<Rightarrow> fsmem \<Rightarrow> fsmem fres" where
  "check_bitmap_loop i s =
     bind_res (ld32 (super_ptr s + 4) s) (\<lambda>(n, s).
       if i * BLKBITSIZE < n
       then bind_res (block_is_free (2 + i) s) (\<lambda>(free, s).
         if free then Panic (Assert_bitmap (2 + i))
         else if i = - 1 then Panic Bitmap_check_loops else check_bitmap_loop (i + 1) s)
       else Ok s)"
  by pat_completeness auto

termination
  by (relation "measure (\<lambda>(i, s). 2 ^ 32 - unat i)") (auto simp: counts_up unat_incr_max)

declare check_bitmap_loop.simps [simp del]

definition check_bitmap :: "fsmem \<Rightarrow> fsmem fres" where
  "check_bitmap s =
     bind_res (check_bitmap_loop 0 s) (\<lambda>s.
       bind_res (block_is_free 0 s) (\<lambda>(free, s).
         if free then Panic (Assert_bitmap 0)
         else bind_res (block_is_free 1 s) (\<lambda>(free, s).
           if free then Panic (Assert_bitmap 1) else Ok s)))"

text \<open>\<open>fs_init\<close> after the drive has been chosen; \<open>bc_init\<close> reads the super block once.\<close>

definition fs_init :: "fsmem \<Rightarrow> fsmem fres" where
  "fs_init s =
     bind_res (ld8 super s) (\<lambda>(_, s).
       bind_res (diskaddr 1 s) (\<lambda>(_, s).
         bind_res (check_super (s\<lparr>super_set := True\<rparr>)) (\<lambda>s.
           bind_res (diskaddr 2 s) (\<lambda>(_, s). check_bitmap (s\<lparr>bitmap_set := True\<rparr>)))))"

section \<open>Blocks of a file\<close>

text \<open>The part of \<open>file_block_walk\<close> that gives the file an indirect block.\<close>

definition alloc_indirect :: "u32 \<Rightarrow> fsmem \<Rightarrow> (int \<times> fsmem) fres" where
  "alloc_indirect f s =
     bind_res (alloc_block s) (\<lambda>(r, s).
       if r < 0 then Ok (- E_NO_DISK, s)
       else bind_res (diskaddr (of_int r) s) (\<lambda>(a, s).
         bind_res (fs_memset a 0 BLKSIZE s) (\<lambda>s.
           bind_res (st32 (f_indirect f) (of_int r) s) (\<lambda>s.
             bind_res (diskaddr (of_int r) s) (\<lambda>(a, s).
               bind_res (flush_block a s) (\<lambda>s. Ok (0, s)))))))"

definition file_block_walk :: "u32 \<Rightarrow> u32 \<Rightarrow> bool \<Rightarrow> fsmem \<Rightarrow> ((int + u32) \<times> fsmem) fres" where
  "file_block_walk f filebno alloc s =
     (if filebno \<ge> NDIRECT + NINDIRECT then Ok (Inl (- E_INVAL), s)
      else if filebno < NDIRECT then Ok (Inr (f_direct f filebno), s)
      else
        bind_res (ld32 (f_indirect f) s) (\<lambda>(ind, s).
          bind_res (if ind \<noteq> 0 then Ok (0, s) else if \<not> alloc then Ok (- E_NOT_FOUND, s) else alloc_indirect f s) (\<lambda>(r, s).
            if r < 0 then Ok (Inl r, s)
            else bind_res (ld32 (f_indirect f) s) (\<lambda>(ind, s).
              bind_res (diskaddr ind s) (\<lambda>(a, s). Ok (Inr (a + 4 * (filebno - NDIRECT)), s))))))"

text \<open>The comparison of the unsigned block number with 0 in \<open>file_get_block\<close> never holds.\<close>

definition file_get_block :: "u32 \<Rightarrow> u32 \<Rightarrow> fsmem \<Rightarrow> ((int + u32) \<times> fsmem) fres" where
  "file_get_block f filebno s =
     bind_res (file_block_walk f filebno True s) (\<lambda>(r, s).
       case r of Inl e \<Rightarrow> Ok (Inl e, s)
       | Inr pdiskbno \<Rightarrow>
           bind_res (ld32 pdiskbno s) (\<lambda>(b, s).
             bind_res (if b = 0 then bind_res (alloc_block s) (\<lambda>(r, s). st32 pdiskbno (of_int r) s) else Ok s) (\<lambda>s.
               bind_res (ld32 pdiskbno s) (\<lambda>(b, s).
                 if b < 0 then Ok (Inl (- E_NO_DISK), s)
                 else bind_res (diskaddr b s) (\<lambda>(a, s). Ok (Inr a, s))))))"

section \<open>Directories\<close>

text \<open>\<open>strcmp\<close> of the string at \<open>a\<close> with a name: whether they are equal.\<close>

fun name_is :: "u32 \<Rightarrow> u8 list \<Rightarrow> fsmem \<Rightarrow> (bool \<times> fsmem) fres" where
  "name_is a [] s = bind_res (ld8 a s) (\<lambda>(b, s). Ok (b = 0, s))"
| "name_is a (c # cs) s =
     bind_res (ld8 a s) (\<lambda>(b, s). if b = 0 \<or> b \<noteq> c then Ok (False, s) else name_is (a + 1) cs s)"

text \<open>The loops over the entries of a directory block, from the entry at \<open>f\<close> with \<open>k\<close> left.\<close>

fun find_name :: "nat \<Rightarrow> u32 \<Rightarrow> u8 list \<Rightarrow> fsmem \<Rightarrow> (u32 option \<times> fsmem) fres" where
  "find_name 0 f name s = Ok (None, s)"
| "find_name (Suc k) f name s =
     bind_res (name_is f name s) (\<lambda>(eq, s). if eq then Ok (Some f, s) else find_name k (f + 256) name s)"

fun find_free :: "nat \<Rightarrow> u32 \<Rightarrow> fsmem \<Rightarrow> (u32 option \<times> fsmem) fres" where
  "find_free 0 f s = Ok (None, s)"
| "find_free (Suc k) f s =
     bind_res (ld8 f s) (\<lambda>(b, s). if b = 0 then Ok (Some f, s) else find_free k (f + 256) s)"

fun dir_lookup_loop :: "nat \<Rightarrow> u32 \<Rightarrow> u32 \<Rightarrow> u8 list \<Rightarrow> fsmem \<Rightarrow> ((int + u32) \<times> fsmem) fres" where
  "dir_lookup_loop 0 i dir name s = Ok (Inl (- E_NOT_FOUND), s)"
| "dir_lookup_loop (Suc k) i dir name s =
     bind_res (file_get_block dir i s) (\<lambda>(r, s).
       case r of Inl e \<Rightarrow> Ok (Inl e, s)
       | Inr blk \<Rightarrow>
           bind_res (find_name BLKFILES blk name s) (\<lambda>(fo, s).
             case fo of Some f \<Rightarrow> Ok (Inr f, s) | None \<Rightarrow> dir_lookup_loop k (i + 1) dir name s))"

definition dir_lookup :: "u32 \<Rightarrow> u8 list \<Rightarrow> fsmem \<Rightarrow> ((int + u32) \<times> fsmem) fres" where
  "dir_lookup dir name s =
     bind_res (ld32 (f_size dir) s) (\<lambda>(sz, s).
       if blk_mod sz \<noteq> 0 then Panic Assert_dir_size
       else dir_lookup_loop (unat (blk_div sz)) 0 dir name s)"

fun dir_alloc_loop :: "nat \<Rightarrow> u32 \<Rightarrow> u32 \<Rightarrow> fsmem \<Rightarrow> ((int + u32) \<times> fsmem) fres" where
  "dir_alloc_loop 0 i dir s =
     bind_res (ld32 (f_size dir) s) (\<lambda>(sz, s).
       bind_res (st32 (f_size dir) (sz + BLKSIZE) s) (file_get_block dir i))"
| "dir_alloc_loop (Suc k) i dir s =
     bind_res (file_get_block dir i s) (\<lambda>(r, s).
       case r of Inl e \<Rightarrow> Ok (Inl e, s)
       | Inr blk \<Rightarrow>
           bind_res (find_free BLKFILES blk s) (\<lambda>(fo, s).
             case fo of Some f \<Rightarrow> Ok (Inr f, s) | None \<Rightarrow> dir_alloc_loop k (i + 1) dir s))"

definition dir_alloc_file :: "u32 \<Rightarrow> fsmem \<Rightarrow> ((int + u32) \<times> fsmem) fres" where
  "dir_alloc_file dir s =
     bind_res (ld32 (f_size dir) s) (\<lambda>(sz, s).
       if blk_mod sz \<noteq> 0 then Panic Assert_dir_size
       else dir_alloc_loop (unat (blk_div sz)) 0 dir s)"

section \<open>Paths\<close>

definition skip_slash :: "u8 list \<Rightarrow> u8 list" where
  "skip_slash p = dropWhile (\<lambda>c. c = 47) p"

text \<open>
  What \<open>walk_path\<close> leaves: its result and the values of \<open>*pdir\<close>, \<open>*pf\<close> and \<open>lastelem\<close>, with 0 for the
  null pointer.
\<close>

record walked =
  w_result :: int
  w_dir :: u32
  w_file :: u32
  w_last :: "u8 list"

lemma path_shrinks: "path \<noteq> [] \<Longrightarrow> length (skip_slash (dropWhile (\<lambda>c. c \<noteq> 47) path)) < length path"
proof (cases path)
  case (Cons c cs)
  have "length (dropWhile P xs) \<le> length xs" for P and xs :: "u8 list" by (rule length_dropWhile_le)
  note le = le_trans [OF this this]
  show ?thesis using le [of "\<lambda>c. c = 47" "\<lambda>c. c \<noteq> 47" cs] \<open>\<And>xs P. length (dropWhile P xs) \<le> length xs\<close> [of "\<lambda>c. c = 47" cs]
    by (auto simp: Cons skip_slash_def less_Suc_eq_le)
qed simp

function walk_path_loop :: "u8 list \<Rightarrow> u32 \<Rightarrow> u32 \<Rightarrow> fsmem \<Rightarrow> (walked \<times> fsmem) fres" where
  "walk_path_loop path dir f s =
     (if path = [] then Ok (\<lparr>w_result = 0, w_dir = dir, w_file = f, w_last = []\<rparr>, s)
      else
        let dir = f; name = takeWhile (\<lambda>c. c \<noteq> 47) path; path' = skip_slash (dropWhile (\<lambda>c. c \<noteq> 47) path)
        in if length name \<ge> MAXNAMELEN then Ok (\<lparr>w_result = - E_BAD_PATH, w_dir = 0, w_file = 0, w_last = []\<rparr>, s)
           else bind_res (ld32 (f_type dir) s) (\<lambda>(ty, s).
             if ty \<noteq> FTYPE_DIR then Ok (\<lparr>w_result = - E_NOT_FOUND, w_dir = 0, w_file = 0, w_last = []\<rparr>, s)
             else bind_res (dir_lookup dir name s) (\<lambda>(r, s).
               case r of
                 Inl e \<Rightarrow>
                   if e = - E_NOT_FOUND \<and> path' = []
                   then Ok (\<lparr>w_result = e, w_dir = dir, w_file = 0, w_last = name\<rparr>, s)
                   else Ok (\<lparr>w_result = e, w_dir = 0, w_file = 0, w_last = []\<rparr>, s)
               | Inr f \<Rightarrow> walk_path_loop path' dir f s)))"
  by pat_completeness auto

termination
  by (relation "measure (\<lambda>(path, dir, f, s). length path)") (auto simp: path_shrinks)

declare walk_path_loop.simps [simp del]

definition walk_path :: "u8 list \<Rightarrow> fsmem \<Rightarrow> (walked \<times> fsmem) fres" where
  "walk_path path s = walk_path_loop (skip_slash path) 0 (s_root (super_ptr s)) s"

section \<open>File operations\<close>

text \<open>\<open>strcpy\<close> of a name into the memory at \<open>a\<close>.\<close>

fun put_name :: "u32 \<Rightarrow> u8 list \<Rightarrow> fsmem \<Rightarrow> fsmem fres" where
  "put_name a [] s = st8 a 0 s"
| "put_name a (c # cs) s = bind_res (st8 a c s) (put_name (a + 1) cs)"

lemma sdiv_bound: "sint (w :: u32) sdiv 4096 \<le> 2 ^ 31"
proof -
  have "sint w < 2 ^ 31" "- (2 ^ 31) \<le> sint w" using sint_lt [of w] sint_ge [of w] by simp_all
  moreover have "\<bar>sint w\<bar> div 4096 \<le> \<bar>sint w\<bar>" "0 \<le> \<bar>sint w\<bar> div 4096"
    using zdiv_mono2 [of "\<bar>sint w\<bar>" 1 4096] by (simp_all add: pos_imp_zdiv_nonneg_iff)
  ultimately show ?thesis by (auto simp: signed_divide_int_def sgn_if abs_if)
qed

text \<open>The loop of \<open>file_flush\<close>; it reads the size in every round.\<close>

function file_flush_loop :: "u32 \<Rightarrow> int \<Rightarrow> fsmem \<Rightarrow> fsmem fres" where
  "file_flush_loop f i s =
     bind_res (ld32 (f_size f) s) (\<lambda>(sz, s).
       if i < sint (sz + BLKSIZE - 1) sdiv 4096
       then bind_res (file_block_walk f (of_int i) False s) (\<lambda>(r, s).
         bind_res (case r of
             Inl _ \<Rightarrow> Ok s
           | Inr pdiskbno \<Rightarrow>
               bind_res (ld32 pdiskbno s) (\<lambda>(b, s).
                 if b = 0 then Ok s
                 else bind_res (ld32 pdiskbno s) (\<lambda>(b, s). bind_res (diskaddr b s) (\<lambda>(a, s). flush_block a s))))
           (file_flush_loop f (i + 1)))
       else Ok s)"
  by pat_completeness auto

termination
  by (relation "measure (\<lambda>(f, i, s). nat (2 ^ 31 - i))") (auto dest!: less_le_trans [OF _ sdiv_bound])

declare file_flush_loop.simps [simp del]

definition file_flush :: "u32 \<Rightarrow> fsmem \<Rightarrow> fsmem fres" where
  "file_flush f s =
     bind_res (file_flush_loop f 0 s) (\<lambda>s.
       bind_res (flush_block f s) (\<lambda>s.
         bind_res (ld32 (f_indirect f) s) (\<lambda>(ind, s).
           if ind \<noteq> 0 then bind_res (diskaddr ind s) (\<lambda>(a, s). flush_block a s) else Ok s)))"

definition file_create :: "u8 list \<Rightarrow> fsmem \<Rightarrow> ((int + u32) \<times> fsmem) fres" where
  "file_create path s =
     bind_res (walk_path path s) (\<lambda>(w, s).
       if w_result w = 0 then Ok (Inl (- E_FILE_EXISTS), s)
       else if w_result w \<noteq> - E_NOT_FOUND \<or> w_dir w = 0 then Ok (Inl (w_result w), s)
       else bind_res (dir_alloc_file (w_dir w) s) (\<lambda>(r, s).
         case r of Inl e \<Rightarrow> Ok (Inl e, s)
         | Inr f \<Rightarrow>
             bind_res (put_name f (w_last w) s) (\<lambda>s.
               bind_res (file_flush (w_dir w) s) (\<lambda>s. Ok (Inr f, s)))))"

definition file_open :: "u8 list \<Rightarrow> fsmem \<Rightarrow> ((int + u32) \<times> fsmem) fres" where
  "file_open path s =
     bind_res (walk_path path s) (\<lambda>(w, s).
       Ok (if w_result w < 0 then Inl (w_result w) else Inr (w_file w), s))"

text \<open>
  The bytes of one round of the loops of \<open>file_read\<close> and \<open>file_write\<close> at \<open>pos\<close>, up to the end of the block
  or to \<open>lim\<close>. The comparison is unsigned.
\<close>

definition chunk :: "u32 \<Rightarrow> u32 \<Rightarrow> u32" where
  "chunk pos lim = min (BLKSIZE - blk_mod pos) (lim - pos)"

lemma blk_mod_less: "sint pos smod 4096 < 4096" "- 4096 < sint pos smod 4096"
proof -
  have m: "0 \<le> k mod 4096" "k mod 4096 < 4096" for k :: int by simp_all
  show "sint pos smod 4096 < 4096" "- 4096 < sint pos smod 4096"
    using m [of "sint pos"] m [of "- sint pos"] by (auto simp: smod_int_alt_def sgn_if)
qed

lemma unat_of_int: "0 \<le> k \<Longrightarrow> k < 2 ^ 32 \<Longrightarrow> unat (of_int k :: u32) = nat k"
  by (simp add: unsigned_of_int take_bit_eq_mod nat_mod_distrib)

lemma chunk_bounds:
  assumes "pos < lim"
  shows "0 < unat (chunk pos lim)" "unat (chunk pos lim) \<le> unat lim - unat pos" "unat (pos + chunk pos lim) = unat pos + unat (chunk pos lim)"
proof -
  have "BLKSIZE - blk_mod pos = of_int (4096 - sint pos smod 4096)" by (simp add: BLKSIZE_def PGSIZE_def blk_mod_def)
  moreover have "unat (of_int (4096 - sint pos smod 4096) :: u32) = nat (4096 - sint pos smod 4096)"
    by (rule unat_of_int) (use blk_mod_less [of pos] in simp_all)
  ultimately have b: "0 < unat (BLKSIZE - blk_mod pos)" using blk_mod_less(1) [of pos] by simp
  have l: "unat (lim - pos) = unat lim - unat pos" using assms by (simp add: unat_sub word_less_nat_alt word_le_nat_alt)
  have c: "unat (chunk pos lim) = min (unat (BLKSIZE - blk_mod pos)) (unat lim - unat pos)"
    by (simp add: chunk_def min_def l word_le_nat_alt)
  show "0 < unat (chunk pos lim)" "unat (chunk pos lim) \<le> unat lim - unat pos"
    using b assms unfolding c by (simp_all add: word_less_nat_alt)
  then show "unat (pos + chunk pos lim) = unat pos + unat (chunk pos lim)"
    using assms unat_u32_less [of lim] by (simp add: unat_word_ariths word_less_nat_alt)
qed

lemma chunk_progress: "pos < lim \<Longrightarrow> unat lim - unat (pos + chunk pos lim) < unat lim - unat pos"
  using chunk_bounds [of pos lim] by (simp add: word_less_nat_alt)

function file_read_loop :: "u32 \<Rightarrow> u32 \<Rightarrow> u32 \<Rightarrow> u32 \<Rightarrow> fsmem \<Rightarrow> (int \<times> fsmem) fres" where
  "file_read_loop f buf pos lim s =
     (if pos < lim
      then bind_res (file_get_block f (blk_div pos) s) (\<lambda>(r, s).
        case r of Inl e \<Rightarrow> Ok (e, s)
        | Inr blk \<Rightarrow>
            let bn = chunk pos lim
            in bind_res (fs_memmove buf (blk + blk_mod pos) bn s) (file_read_loop f (buf + bn) (pos + bn) lim))
      else Ok (0, s))"
  by pat_completeness auto

termination
  by (relation "measure (\<lambda>(f, buf, pos, lim, s). unat lim - unat pos)") (auto intro: chunk_progress)

declare file_read_loop.simps [simp del]

text \<open>\<open>count\<close> and the smaller of two lengths are unsigned, the offset and the size are signed.\<close>

definition file_read :: "u32 \<Rightarrow> u32 \<Rightarrow> u32 \<Rightarrow> u32 \<Rightarrow> fsmem \<Rightarrow> (int \<times> fsmem) fres" where
  "file_read f buf count offset s =
     bind_res (ld32 (f_size f) s) (\<lambda>(sz, s).
       if sint offset \<ge> sint sz then Ok (0, s)
       else
         let count = min count (sz - offset)
         in bind_res (file_read_loop f buf offset (offset + count) s) (\<lambda>(r, s).
              Ok (if r < 0 then r else sint count, s)))"

definition file_free_block :: "u32 \<Rightarrow> u32 \<Rightarrow> fsmem \<Rightarrow> (int \<times> fsmem) fres" where
  "file_free_block f filebno s =
     bind_res (file_block_walk f filebno False s) (\<lambda>(r, s).
       case r of Inl e \<Rightarrow> Ok (e, s)
       | Inr p \<Rightarrow>
           bind_res (ld32 p s) (\<lambda>(b, s).
             if b = 0 then Ok (0, s)
             else bind_res (free_block b s) (\<lambda>s. bind_res (st32 p 0 s) (\<lambda>s. Ok (0, s)))))"

function truncate_loop :: "u32 \<Rightarrow> u32 \<Rightarrow> u32 \<Rightarrow> fsmem \<Rightarrow> fsmem fres" where
  "truncate_loop f bno old_nblocks s =
     (if bno < old_nblocks
      then bind_res (file_free_block f bno s) (\<lambda>(_, s). truncate_loop f (bno + 1) old_nblocks s)
      else Ok s)"
  by pat_completeness auto

termination
  by (relation "measure (\<lambda>(f, bno, old, s). unat old - unat bno)") (auto simp: unat_incr word_less_nat_alt)

declare truncate_loop.simps [simp del]

definition file_truncate_blocks :: "u32 \<Rightarrow> u32 \<Rightarrow> fsmem \<Rightarrow> fsmem fres" where
  "file_truncate_blocks f newsize s =
     bind_res (ld32 (f_size f) s) (\<lambda>(sz, s).
       let old_nblocks = blk_div (sz + BLKSIZE - 1); new_nblocks = blk_div (newsize + BLKSIZE - 1)
       in bind_res (truncate_loop f new_nblocks old_nblocks s) (\<lambda>s.
            if new_nblocks \<le> NDIRECT
            then bind_res (ld32 (f_indirect f) s) (\<lambda>(ind, s).
              if ind \<noteq> 0 then bind_res (free_block ind s) (st32 (f_indirect f) 0) else Ok s)
            else Ok s))"

definition file_set_size :: "u32 \<Rightarrow> u32 \<Rightarrow> fsmem \<Rightarrow> (int \<times> fsmem) fres" where
  "file_set_size f newsize s =
     bind_res (ld32 (f_size f) s) (\<lambda>(sz, s).
       bind_res (if sint sz > sint newsize then file_truncate_blocks f newsize s else Ok s) (\<lambda>s.
         bind_res (st32 (f_size f) newsize s) (\<lambda>s.
           bind_res (flush_block f s) (\<lambda>s. Ok (0, s)))))"

function file_write_loop :: "u32 \<Rightarrow> u32 \<Rightarrow> u32 \<Rightarrow> u32 \<Rightarrow> fsmem \<Rightarrow> (int \<times> fsmem) fres" where
  "file_write_loop f buf pos lim s =
     (if pos < lim
      then bind_res (file_get_block f (blk_div pos) s) (\<lambda>(r, s).
        case r of Inl e \<Rightarrow> Ok (e, s)
        | Inr blk \<Rightarrow>
            let bn = chunk pos lim
            in bind_res (fs_memmove (blk + blk_mod pos) buf bn s) (file_write_loop f (buf + bn) (pos + bn) lim))
      else Ok (0, s))"
  by pat_completeness auto

termination
  by (relation "measure (\<lambda>(f, buf, pos, lim, s). unat lim - unat pos)") (auto intro: chunk_progress)

declare file_write_loop.simps [simp del]

definition file_write :: "u32 \<Rightarrow> u32 \<Rightarrow> u32 \<Rightarrow> u32 \<Rightarrow> fsmem \<Rightarrow> (int \<times> fsmem) fres" where
  "file_write f buf count offset s =
     bind_res (ld32 (f_size f) s) (\<lambda>(sz, s).
       bind_res (if offset + count > sz then file_set_size f (offset + count) s else Ok (0, s)) (\<lambda>(r, s).
         if r < 0 then Ok (r, s)
         else bind_res (file_write_loop f buf offset (offset + count) s) (\<lambda>(r, s).
           Ok (if r < 0 then r else sint count, s))))"

function fs_sync_loop :: "u32 \<Rightarrow> fsmem \<Rightarrow> fsmem fres" where
  "fs_sync_loop i s =
     bind_res (ld32 (super_ptr s + 4) s) (\<lambda>(n, s).
       if i < n then bind_res (diskaddr i s) (\<lambda>(a, s). bind_res (flush_block a s) (fs_sync_loop (i + 1))) else Ok s)"
  by pat_completeness auto

termination
  by (relation "measure (\<lambda>(i, s). 2 ^ 32 - unat i)") (auto simp: counts_up unat_incr)

declare fs_sync_loop.simps [simp del]

definition fs_sync :: "fsmem \<Rightarrow> fsmem fres" where
  "fs_sync s = fs_sync_loop 1 s"

end
