(* ===== verification/Fs_Inv.thy ===== *)
theory Fs_Inv
  imports Fs
begin

text \<open>
  Correctness of the file system: the block bitmap as an allocator, the error of \<open>file_get_block\<close> on a full
  disk, and reading back what was written. The lemmas are about states in which the blocks that an
  operation works on are in the cache, where loads and stores do not fault; the theory of the cache shows
  what the first access to a block does.
\<close>

section \<open>Words in memory\<close>

lemma load_store32: "load32 (store32 w x m) w = x"
proof (rule bit_word_eqI)
  fix n
  assume "n < LENGTH(32)"
  then have "n < 32" by simp
  have b: "load32 (store32 w x m) w = ucast (ucast x :: u8) OR push_bit 8 (ucast (ucast (drop_bit 8 x) :: u8))
      OR push_bit 16 (ucast (ucast (drop_bit 16 x) :: u8)) OR push_bit 24 (ucast (ucast (drop_bit 24 x) :: u8))"
    by (simp add: load32_def store32_def)
  consider "n < 8" | "8 \<le> n" "n < 16" | "16 \<le> n" "n < 24" | "24 \<le> n" using \<open>n < 32\<close> by linarith
  then show "bit (load32 (store32 w x m) w) n \<longleftrightarrow> bit x n"
    unfolding b by cases (use \<open>n < 32\<close> in \<open>simp_all add: bit_or_iff bit_push_bit_iff bit_ucast_iff bit_drop_bit_eq less_diff_conv2\<close>)
qed

lemma aligned_disjoint:
  fixes w w' :: u32
  assumes "unat w mod 4 = 0" "unat w' mod 4 = 0" "w \<noteq> w'" "i < 4" "j < 4"
  shows "w + of_nat i \<noteq> w' + of_nat j"
proof
  assume eq: "w + of_nat i = w' + of_nat j"
  have u: "unat (v + of_nat k) = unat v + k" if "unat v mod 4 = 0" "k < 4" for v :: u32 and k
  proof -
    obtain q where "unat v = 4 * q" using \<open>unat v mod 4 = 0\<close> by (auto simp: mod_eq_0_iff_dvd elim: dvdE)
    then have "unat v + k < 2 ^ 32" using \<open>k < 4\<close> unat_u32_less [of v] by simp
    then show ?thesis by (simp add: unat_word_ariths unat_of_nat)
  qed
  have "unat w + i = unat w' + j" using u [OF assms(1,4)] u [OF assms(2,5)] eq by simp
  then have "unat w = unat w'" using assms(1,2,4,5) by presburger
  with assms(3) show False by (simp add: word_unat_eq_iff)
qed

lemma load_store32_other:
  assumes "unat w mod 4 = 0" "unat w' mod 4 = 0" "w \<noteq> w'"
  shows "load32 (store32 w x m) w' = load32 m w'"
proof -
  have d: "w' + of_nat j \<noteq> w + of_nat i" if "i < 4" "j < 4" for i j
    using aligned_disjoint [OF assms(1,2,3) that] by metis
  have "store32 w x m (w' + of_nat j) = m (w' + of_nat j)" if "j < 4" for j
    using d [of 0 j] d [of 1 j] d [of 2 j] d [of 3 j] that by (simp add: store32_def)
  from this [of 0] this [of 1] this [of 2] this [of 3] show ?thesis by (simp add: load32_def)
qed

section \<open>Words that are in the cache\<close>

lemma ld32_mapped [simp]: "mapped s (PGNUM a) \<Longrightarrow> ld32 a s = Ok (load32 (fmem s) a, s)"
  by (simp add: ld32_def)

lemma st32_mapped [simp]:
  "mapped s (PGNUM a) \<Longrightarrow> st32 a w s = Ok (s\<lparr>fmem := store32 a w (fmem s), dirty := (dirty s)(PGNUM a := True)\<rparr>)"
  by (simp add: st32_def)

lemma stored_view:
  fixes w :: u32
  assumes "readable s" "mapped s (PGNUM a)" "unat a mod 4 = 0"
  defines "s' \<equiv> s\<lparr>fmem := store32 a w (fmem s), dirty := (dirty s)(PGNUM a := True)\<rparr>"
  shows "readable s'" "view s' = store32 a w (view s)"
proof -
  have t: "touch a s = Ok s" using assms(2) by simp
  note sv = store_view [OF assms(1) t, where m = "store32 a w (fmem s)", OF store32_page [OF assms(3)], folded s'_def]
  show "readable s'" by (rule sv(3))
  have p: "PGNUM (a + 1) = PGNUM a" "PGNUM (a + 2) = PGNUM a" "PGNUM (a + 3) = PGNUM a" using aligned_word_bytes [OF assms(3)] by auto
  show "view s' = store32 a w (view s)"
  proof
    fix c
    show "view s' c = store32 a w (view s) c"
    proof (cases "PGNUM c = PGNUM a")
      case True
      then have "fmem s c = view s c" using assms(2) by (simp add: mapped_view)
      then show ?thesis using True sv(1) by (simp add: store32_def)
    next
      case False
      then show ?thesis using sv(1) store32_page [OF assms(3), of c] by simp
    qed
  qed
qed

section \<open>The free blocks\<close>

text \<open>
  The super block and the bitmap are in the cache, and the size is one that \<open>check_super\<close> accepts. This is
  how \<open>fs_init\<close> leaves a file system whose bitmap has one block.
\<close>

definition meta_cached :: "fsmem \<Rightarrow> bool" where
  "meta_cached s \<longleftrightarrow> readable s \<and> super_set s \<and> bitmap_set s \<and> mapped s (PGNUM super) \<and> s_nblocks s \<le> 0xC0000
     \<and> (\<forall>b < s_nblocks s. mapped s (PGNUM (bitmap + 4 * (b div 32))))"

definition in_use_word :: "fsmem \<Rightarrow> u32 \<Rightarrow> u32" where
  "in_use_word s b = load32 (fmem s) (bitmap + 4 * (b div 32))"

definition free_blocks :: "fsmem \<Rightarrow> u32 set" where
  "free_blocks s = {b. b < s_nblocks s \<and> bit (in_use_word s b) (unat (b mod 32))}"

lemma super_ptr_set [simp]: "super_set s \<Longrightarrow> super_ptr s = super"
  by (simp add: super_ptr_def)

lemma bitmap_word_set [simp]: "bitmap_set s \<Longrightarrow> bitmap_word b s = bitmap + 4 * (b div 32)"
  by (simp add: bitmap_word_def bitmap_ptr_def)

lemma block_is_free_eq: "meta_cached s \<Longrightarrow> block_is_free b s = Ok (b \<in> free_blocks s, s)"
  by (auto simp: block_is_free_def meta_cached_def free_blocks_def in_use_word_def s_nblocks_def)

text \<open>The state after one bit of the bitmap has been set to \<open>v\<close>.\<close>

definition marked :: "u32 \<Rightarrow> (u32 \<Rightarrow> u32) \<Rightarrow> fsmem \<Rightarrow> fsmem" where
  "marked b g s = (let a = bitmap + 4 * (b div 32)
     in s\<lparr>fmem := store32 a (g (load32 (fmem s) a)) (fmem s), dirty := (dirty s)(PGNUM a := True)\<rparr>)"

lemma unat_bitmap_word:
  assumes "b < 0xC0000"
  shows "unat (bitmap + 4 * (b div 32)) = 0x10002000 + 4 * (unat b div 32)"
proof -
  have "unat b < 0xC0000" using assms by (simp add: word_less_nat_alt)
  then have "unat b div 32 < 0x6000" by simp
  then have "unat (4 * (b div 32)) = 4 * (unat b div 32)" by (simp add: unat_word_ariths unat_div_distrib)
  then show ?thesis using \<open>unat b div 32 < 0x6000\<close> by (simp add: unat_word_ariths unat_bitmap)
qed

lemma bitmap_word_place:
  assumes "b < 0xC0000"
  shows "in_diskmap (bitmap + 4 * (b div 32))" "PGNUM (bitmap + 4 * (b div 32)) \<noteq> PGNUM super" "super + 4 \<noteq> bitmap + 4 * (b div 32)"
proof -
  have "unat b < 0xC0000" using assms by (simp add: word_less_nat_alt)
  then have d: "unat b div 32 < 0x6000" by simp
  note u = unat_bitmap_word [OF assms]
  have s: "unat super = 0x10001000" "unat (super + 4) = 0x10001004" by (simp_all add: fs_defs PGSIZE_def)
  show "in_diskmap (bitmap + 4 * (b div 32))" using u d by (simp add: in_diskmap_unat)
  have "65538 \<le> unat (bitmap + 4 * (b div 32)) div 4096" unfolding u by (simp add: less_eq_div_iff_mult_less_eq)
  then show "PGNUM (bitmap + 4 * (b div 32)) \<noteq> PGNUM super" unfolding PGNUM_div s by simp
  then show "super + 4 \<noteq> bitmap + 4 * (b div 32)" by (metis super_word_aligned(2))
qed

lemma same_bitmap_word:
  assumes "b < 0xC0000" "c < 0xC0000"
  shows "bitmap + 4 * (b div 32) = bitmap + 4 * (c div 32) \<longleftrightarrow> b div 32 = c div 32"
  using unat_bitmap_word [OF assms(1)] unat_bitmap_word [OF assms(2)]
  by (auto simp: word_unat_eq_iff unat_div_distrib)

lemma meta_cachedD:
  assumes "meta_cached s"
  shows "readable s" "super_set s" "bitmap_set s" "mapped s (PGNUM super)" "b < s_nblocks s \<Longrightarrow> b < 0xC0000"
    "b < s_nblocks s \<Longrightarrow> mapped s (PGNUM (bitmap + 4 * (b div 32)))"
  using assms by (auto simp: meta_cached_def)

lemma marked_fields:
  "mapped (marked b g s) = mapped s" "super_set (marked b g s) = super_set s" "bitmap_set (marked b g s) = bitmap_set s"
  "fmem (marked b g s) = store32 (bitmap + 4 * (b div 32)) (g (in_use_word s b)) (fmem s)"
  by (simp_all add: marked_def Let_def in_use_word_def)

lemma marked_meta:
  assumes "meta_cached s" "b < s_nblocks s"
  shows "meta_cached (marked b g s)" "s_nblocks (marked b g s) = s_nblocks s"
    "view (marked b g s) = store32 (bitmap + 4 * (b div 32)) (g (in_use_word s b)) (view s)"
    "c < s_nblocks s \<Longrightarrow> in_use_word (marked b g s) c = (if c div 32 = b div 32 then g (in_use_word s b) else in_use_word s c)"
proof -
  note D = meta_cachedD [OF assms(1)]
  let ?a = "bitmap + 4 * (b div 32)"
  have b: "b < 0xC0000" "mapped s (PGNUM ?a)" using D(5,6) assms(2) by auto
  show n: "s_nblocks (marked b g s) = s_nblocks s"
    unfolding s_nblocks_def marked_fields using bitmap_word_place(3) [OF b(1)] by (intro load_store32_other) auto
  have sv: "readable (marked b g s)" "view (marked b g s) = store32 ?a (g (in_use_word s b)) (view s)"
    using stored_view [OF D(1) b(2) bitmap_word_aligned, of "g (in_use_word s b)"] by (simp_all add: marked_def Let_def in_use_word_def)
  show "view (marked b g s) = store32 ?a (g (in_use_word s b)) (view s)" by (rule sv)
  show "meta_cached (marked b g s)" using assms(1) sv(1) by (simp add: meta_cached_def n marked_fields)
  show "in_use_word (marked b g s) c = (if c div 32 = b div 32 then g (in_use_word s b) else in_use_word s c)" if "c < s_nblocks s"
  proof (cases "c div 32 = b div 32")
    case True
    then show ?thesis by (simp add: in_use_word_def [of "marked b g s"] marked_fields load_store32)
  next
    case False
    then have "?a \<noteq> bitmap + 4 * (c div 32)" using same_bitmap_word [OF b(1) D(5) [OF that]] by metis
    then show ?thesis using False by (simp add: in_use_word_def [of "marked b g s" c] in_use_word_def [of s c] marked_fields load_store32_other)
  qed
qed

lemma same_block_bit: "b div 32 = c div 32 \<Longrightarrow> unat (b mod 32) = unat (c mod 32) \<longleftrightarrow> b = c" for b c :: u32
proof -
  assume d: "b div 32 = c div 32"
  have "b = b div 32 * 32 + b mod 32" "c = c div 32 * 32 + c mod 32" by (simp_all add: word_mod_div_equality)
  then show ?thesis using d by (metis word_unat_eq_iff)
qed

lemma mod32_less: "unat (b mod 32 :: u32) < 32"
  by (simp add: unat_mod_distrib)

lemma free_blocks_marked:
  assumes "meta_cached s" "b < s_nblocks s"
  shows "free_blocks (marked b (\<lambda>w. w AND NOT (push_bit (unat (b mod 32)) 1)) s) = free_blocks s - {b}"
    "free_blocks (marked b (\<lambda>w. w OR push_bit (unat (b mod 32)) 1) s) = insert b (free_blocks s)"
proof -
  have bit1: "bit (push_bit k 1 :: u32) n \<longleftrightarrow> n = k" if "k < 32" for k n using that by (auto simp: bit_simps)
  note m = marked_meta [OF assms]
  have "c \<in> free_blocks (marked b (\<lambda>w. w AND NOT (push_bit (unat (b mod 32)) 1)) s) \<longleftrightarrow> c \<in> free_blocks s - {b}" for c
    using m(4) [of c] same_block_bit [of b c] mod32_less [of c] mod32_less [of b] bit1 [OF mod32_less [of b]]
    by (auto simp: free_blocks_def m(2) bit_and_iff bit_not_iff in_use_word_def split: if_split_asm)
  then show "free_blocks (marked b (\<lambda>w. w AND NOT (push_bit (unat (b mod 32)) 1)) s) = free_blocks s - {b}" by blast
  have "c \<in> free_blocks (marked b (\<lambda>w. w OR push_bit (unat (b mod 32)) 1) s) \<longleftrightarrow> c \<in> insert b (free_blocks s)" for c
    using m(4) [of c] same_block_bit [of b c] assms(2) bit1 [OF mod32_less [of b]]
    by (auto simp: free_blocks_def m(2) bit_or_iff in_use_word_def split: if_split_asm)
  then show "free_blocks (marked b (\<lambda>w. w OR push_bit (unat (b mod 32)) 1) s) = insert b (free_blocks s)" by blast
qed

lemma flushed_meta:
  assumes "meta_cached s" "in_diskmap a"
  shows "meta_cached (flushed a s)" "free_blocks (flushed a s) = free_blocks s" "s_nblocks (flushed a s) = s_nblocks s"
proof -
  note f = flushed_view [OF meta_cachedD(1) [OF assms(1)] assms(2)]
  have u: "super_set (flushed a s) = super_set s" "bitmap_set (flushed a s) = bitmap_set s" by (simp_all add: flushed_def)
  show n: "s_nblocks (flushed a s) = s_nblocks s" by (simp add: s_nblocks_def f(7))
  show "free_blocks (flushed a s) = free_blocks s" by (simp add: free_blocks_def n in_use_word_def f(7))
  show "meta_cached (flushed a s)" using assms(1) by (simp add: meta_cached_def n f(2,3) u)
qed

definition taken_block :: "u32 \<Rightarrow> fsmem \<Rightarrow> fsmem" where
  "taken_block b s = flushed (bitmap + 4 * (b div 32)) (marked b (\<lambda>w. w AND NOT (push_bit (unat (b mod 32)) 1)) s)"

lemma taken_block_meta:
  assumes "meta_cached s" "b < s_nblocks s"
  shows "meta_cached (taken_block b s)" "free_blocks (taken_block b s) = free_blocks s - {b}" "s_nblocks (taken_block b s) = s_nblocks s"
    "view (taken_block b s) = store32 (bitmap + 4 * (b div 32)) (in_use_word s b AND NOT (push_bit (unat (b mod 32)) 1)) (view s)"
    "mapped (taken_block b s) = mapped s"
    "in_diskmap c \<Longrightarrow> PGNUM c = PGNUM (bitmap + 4 * (b div 32)) \<Longrightarrow> disk (taken_block b s) (diskpos c) = view (taken_block b s) c"
    "in_diskmap c \<Longrightarrow> PGNUM c \<noteq> PGNUM (bitmap + 4 * (b div 32)) \<Longrightarrow> disk (taken_block b s) (diskpos c) = disk s (diskpos c)"
proof -
  let ?s = "marked b (\<lambda>w. w AND NOT (push_bit (unat (b mod 32)) 1)) s"
  note m = marked_meta [OF assms, where g = "\<lambda>w. w AND NOT (push_bit (unat (b mod 32)) 1)"]
  have p: "in_diskmap (bitmap + 4 * (b div 32))" using bitmap_word_place(1) meta_cachedD(5) [OF assms(1,2)] by blast
  note f = flushed_meta [OF m(1) p] and v = flushed_view [OF meta_cachedD(1) [OF m(1)] p]
  show "meta_cached (taken_block b s)" "free_blocks (taken_block b s) = free_blocks s - {b}" "s_nblocks (taken_block b s) = s_nblocks s"
    "view (taken_block b s) = store32 (bitmap + 4 * (b div 32)) (in_use_word s b AND NOT (push_bit (unat (b mod 32)) 1)) (view s)"
    "mapped (taken_block b s) = mapped s"
    using f v(1,3) m(2,3) free_blocks_marked(1) [OF assms] by (simp_all add: taken_block_def marked_fields)
  show "in_diskmap c \<Longrightarrow> PGNUM c = PGNUM (bitmap + 4 * (b div 32)) \<Longrightarrow> disk (taken_block b s) (diskpos c) = view (taken_block b s) c"
    using v(1) v(4) [of c] by (simp add: taken_block_def)
  show "in_diskmap c \<Longrightarrow> PGNUM c \<noteq> PGNUM (bitmap + 4 * (b div 32)) \<Longrightarrow> disk (taken_block b s) (diskpos c) = disk s (diskpos c)"
    using v(4) [of c] by (simp add: taken_block_def) (simp add: marked_def Let_def)
qed

lemma alloc_block_step:
  assumes "meta_cached s"
  shows "alloc_block_loop b s =
    (if b < s_nblocks s then if b \<in> free_blocks s then Ok (sint b, taken_block b s) else alloc_block_loop (b + 1) s
     else Ok (- E_NO_DISK, s))"
proof (cases "b < s_nblocks s \<and> b \<in> free_blocks s")
  case True
  note D = meta_cachedD [OF assms]
  have b: "mapped s (PGNUM (bitmap + 4 * (b div 32)))" "in_diskmap (bitmap + 4 * (b div 32))"
    using True D(5,6) bitmap_word_place(1) by auto
  note m = marked_meta [OF assms, where b = b and g = "\<lambda>w. w AND NOT (push_bit (unat (b mod 32)) 1)"]
  have f: "flush_block (bitmap + 4 * (b div 32)) (marked b (\<lambda>w. w AND NOT (push_bit (unat (b mod 32)) 1)) s) = Ok (taken_block b s)"
    using flush_block_eq [OF meta_cachedD(1) [OF m(1)] b(2)] True by (simp add: taken_block_def)
  have "alloc_block_loop b s = bind_res (flush_block (bitmap + 4 * (b div 32)) (marked b (\<lambda>w. w AND NOT (push_bit (unat (b mod 32)) 1)) s)) (\<lambda>s. Ok (sint b, s))"
    using True D b(1) block_is_free_eq [OF assms]
    by (subst alloc_block_loop.simps) (simp add: marked_def Let_def flip: s_nblocks_def)
  then show ?thesis using True f by simp
next
  case False
  then show ?thesis using meta_cachedD [OF assms] block_is_free_eq [OF assms]
    by (subst alloc_block_loop.simps) (simp flip: s_nblocks_def)
qed

lemma alloc_block_loop_cases:
  assumes "meta_cached s" "\<forall>c\<in>free_blocks s. b \<le> c"
  shows "free_blocks s = {} \<and> alloc_block_loop b s = Ok (- E_NO_DISK, s)
    \<or> (\<exists>c\<in>free_blocks s. (\<forall>d\<in>free_blocks s. c \<le> d) \<and> alloc_block_loop b s = Ok (sint c, taken_block c s))"
  using assms(2)
proof (induction "unat (s_nblocks s) - unat b" arbitrary: b rule: less_induct)
  case less
  note step = alloc_block_step [OF assms(1), of b]
  consider "\<not> b < s_nblocks s" | "b < s_nblocks s" "b \<in> free_blocks s" | "b < s_nblocks s" "b \<notin> free_blocks s" by blast
  then show ?case
  proof cases
    case 1
    then have "free_blocks s = {}" using less.prems by (auto simp: free_blocks_def)
    then show ?thesis using 1 step by simp
  next
    case 2
    then show ?thesis using less.prems step by auto
  next
    case 3
    have u: "unat (b + 1) = unat b + 1" by (rule unat_incr [OF 3(1)])
    have "\<forall>c\<in>free_blocks s. b + 1 \<le> c"
    proof
      fix c
      assume "c \<in> free_blocks s"
      then have "b \<le> c" "b \<noteq> c" using less.prems 3 by auto
      then show "b + 1 \<le> c" using u by (simp add: word_le_nat_alt word_unat_eq_iff)
    qed
    moreover have "unat (s_nblocks s) - unat (b + 1) < unat (s_nblocks s) - unat b" using 3(1) u by (simp add: word_less_nat_alt)
    ultimately show ?thesis using less.hyps step 3 by simp
  qed
qed

lemma alloc_block_cases:
  assumes "meta_cached s"
  shows "free_blocks s = {} \<and> alloc_block s = Ok (- E_NO_DISK, s)
    \<or> (\<exists>c\<in>free_blocks s. (\<forall>d\<in>free_blocks s. c \<le> d) \<and> alloc_block s = Ok (int (unat c), taken_block c s))"
proof -
  have "sint c = int (unat c)" if "c \<in> free_blocks s" for c
  proof -
    have "c < 0xC0000" using that meta_cachedD(5) [OF assms] by (simp add: free_blocks_def)
    then have "unat c < 0xC0000" by (simp add: word_less_nat_alt)
    then show ?thesis by (intro sint_small) simp
  qed
  moreover have "\<forall>c\<in>free_blocks s. 0 \<le> c" by simp
  ultimately show ?thesis using alloc_block_loop_cases [OF assms, of 0] unfolding alloc_block_def by metis
qed

lemma free_block_eq:
  assumes "meta_cached s" "b \<noteq> 0" "b < s_nblocks s"
  shows "free_block b s = Ok (marked b (\<lambda>w. w OR push_bit (unat (b mod 32)) 1) s)"
  using meta_cachedD [OF assms(1)] assms by (simp add: free_block_def marked_def Let_def)

text \<open>Block numbers are handed out and given back like any resource.\<close>

interpretation block_pool: resource_pool
  "\<lambda>s b s'. alloc_block s = Ok (int (unat b), s')"
  "\<lambda>s. alloc_block s = Ok (- E_NO_DISK, s)"
  "\<lambda>b s s'. free_block b s = Ok s'"
  "\<lambda>b s. b \<noteq> 0 \<and> b < s_nblocks s" free_blocks meta_cached
proof
  fix s :: fsmem and b :: u32 and s'
  assume m: "meta_cached s" and al: "alloc_block s = Ok (int (unat b), s')"
  have "0 \<le> int (unat b)" by (rule of_nat_0_le_iff)
  then have "int (unat b) \<noteq> - E_NO_DISK" unfolding err_defs by linarith
  then obtain c where c: "c \<in> free_blocks s" "int (unat c) = int (unat b)" "s' = taken_block c s"
    using alloc_block_cases [OF m] al by fastforce
  then have "c = b" by (simp add: word_uint_eq_iff)
  moreover have "c < s_nblocks s" using c(1) by (simp add: free_blocks_def)
  ultimately show "b \<in> free_blocks s \<and> free_blocks s' = free_blocks s - {b}" "meta_cached s'"
    using c taken_block_meta(1,2) [OF m] by auto
next
  fix s
  assume m: "meta_cached s"
  show "alloc_block s = Ok (- E_NO_DISK, s) \<or> (\<exists>(r :: u32) s'. alloc_block s = Ok (int (unat r), s'))"
    using alloc_block_cases [OF m] by blast
  have ne: "int (unat b) \<noteq> - E_NO_DISK" for b :: u32
  proof -
    have "0 \<le> int (unat b)" by (rule of_nat_0_le_iff)
    then show ?thesis unfolding err_defs by linarith
  qed
  show "alloc_block s = Ok (- E_NO_DISK, s) \<longleftrightarrow> free_blocks s = {}"
  proof
    assume "alloc_block s = Ok (- E_NO_DISK, s)"
    then show "free_blocks s = {}" using alloc_block_cases [OF m] ne by fastforce
  qed (use alloc_block_cases [OF m] in auto)
next
  fix s :: fsmem and b :: u32 and s'
  assume m: "meta_cached s" and b: "b \<noteq> 0 \<and> b < s_nblocks s"
  note eq = free_block_eq [OF m, of b]
  show "\<exists>s'. free_block b s = Ok s'" using eq b by simp
  assume "free_block b s = Ok s'"
  then have "s' = marked b (\<lambda>w. w OR push_bit (unat (b mod 32)) 1) s" using eq b by simp
  then show "free_blocks s' = insert b (free_blocks s)" "meta_cached s'"
    using free_blocks_marked(2) [OF m] marked_meta(1) [OF m] b by auto
qed

text \<open>
  C35. \<open>alloc_block\<close> takes the first free block. With the super block and the bitmap in the cache it returns
  the lowest free block, after which exactly this block is no longer free, the server sees the same memory
  but for the word of the bitmap, and the bitmap block on the disk is up to date; if no block is free it
  returns \<open>-E_NO_DISK\<close> and changes nothing. Allocations in a row never hand out a block twice.
\<close>

theorem alloc_block_first:
  assumes "meta_cached s"
  shows "(free_blocks s = {} \<longrightarrow> alloc_block s = Ok (- E_NO_DISK, s))
    \<and> (free_blocks s \<noteq> {} \<longrightarrow> (\<exists>b s'. alloc_block s = Ok (int (unat b), s') \<and> b \<in> free_blocks s \<and> (\<forall>c\<in>free_blocks s. b \<le> c)
        \<and> free_blocks s' = free_blocks s - {b} \<and> meta_cached s' \<and> s_nblocks s' = s_nblocks s
        \<and> (\<forall>c. \<not> (bitmap + 4 * (b div 32) \<le> c \<and> c < bitmap + 4 * (b div 32) + 4) \<longrightarrow> view s' c = view s c)
        \<and> (\<forall>c. in_diskmap c \<and> PGNUM c = PGNUM (bitmap + 4 * (b div 32)) \<longrightarrow> disk s' (diskpos c) = view s' c)))
    \<and> (block_pool.alloc_run s bs s'' \<longrightarrow> distinct bs \<and> set bs \<subseteq> free_blocks s \<and> free_blocks s'' = free_blocks s - set bs)"
proof -
  have word: "store32 a x m c = m c" if "\<not> (a \<le> c \<and> c < a + 4)" "unat a < 2 ^ 31" for a c x and m :: mem
  proof -
    have u: "unat (a + 4) = unat a + 4" "unat (a + 1) = unat a + 1" "unat (a + 2) = unat a + 2" "unat (a + 3) = unat a + 3"
      using that(2) by (simp_all add: unat_word_ariths)
    have "c \<noteq> a \<and> c \<noteq> a + 1 \<and> c \<noteq> a + 2 \<and> c \<noteq> a + 3"
      using that(1) u by (auto simp: word_le_nat_alt word_less_nat_alt)
    then show ?thesis by (simp add: store32_def)
  qed
  have a31: "unat (bitmap + 4 * (b div 32)) < 2 ^ 31" if "b \<in> free_blocks s" for b
  proof -
    have "b < 0xC0000" using that meta_cachedD(5) [OF assms] by (simp add: free_blocks_def)
    then have "unat b div 32 < 0x6000" by (simp add: word_less_nat_alt)
    then show ?thesis using unat_bitmap_word [OF \<open>b < 0xC0000\<close>] by simp
  qed
  have "\<exists>b s'. alloc_block s = Ok (int (unat b), s') \<and> b \<in> free_blocks s \<and> (\<forall>c\<in>free_blocks s. b \<le> c)
        \<and> free_blocks s' = free_blocks s - {b} \<and> meta_cached s' \<and> s_nblocks s' = s_nblocks s
        \<and> (\<forall>c. \<not> (bitmap + 4 * (b div 32) \<le> c \<and> c < bitmap + 4 * (b div 32) + 4) \<longrightarrow> view s' c = view s c)
        \<and> (\<forall>c. in_diskmap c \<and> PGNUM c = PGNUM (bitmap + 4 * (b div 32)) \<longrightarrow> disk s' (diskpos c) = view s' c)"
    if ne: "free_blocks s \<noteq> {}"
  proof -
    obtain b where b: "b \<in> free_blocks s" "\<forall>c\<in>free_blocks s. b \<le> c" "alloc_block s = Ok (int (unat b), taken_block b s)"
      using alloc_block_cases [OF assms] ne by auto
    have "b < s_nblocks s" using b(1) by (simp add: free_blocks_def)
    note t = taken_block_meta [OF assms this]
    show ?thesis using b t(1-3,6) word [OF _ a31 [OF b(1)]] by (intro exI [of _ b] exI [of _ "taken_block b s"]) (simp add: t(4))
  qed
  moreover have "free_blocks s = {} \<longrightarrow> alloc_block s = Ok (- E_NO_DISK, s)" using alloc_block_cases [OF assms] by auto
  ultimately show ?thesis using block_pool.alloc_run_takes [of s bs s''] assms by blast
qed

text \<open>A disk with eight blocks, of which the blocks 5 and 6 are free.\<close>

definition two_free :: fsmem where
  "two_free = eight_blocks\<lparr>fmem := (fmem eight_blocks)(bitmap := 0x60)\<rparr>"

lemma small_words: "(b :: u32) < 8 \<Longrightarrow> b div 32 = 0 \<and> b mod 32 = b"
  by (simp add: word_less_nat_alt word_unat_eq_iff unat_div_distrib unat_mod_distrib)

lemma eight_mapped: "mapped eight_blocks = (\<lambda>p. p = 65537 \<or> p = 65538)" "PGNUM super = 65537" "PGNUM bitmap = 65538"
  by (simp_all add: eight_blocks_def fs_defs PGSIZE_def PGNUM_div)

lemma two_free_meta: "meta_cached two_free" "s_nblocks two_free = 8" "free_blocks two_free = {5, 6}"
proof -
  have "super + 4 \<noteq> bitmap" "super + 5 \<noteq> bitmap" "super + 6 \<noteq> bitmap" "super + 7 \<noteq> bitmap" by (simp_all add: fs_defs PGSIZE_def)
  then show n: "s_nblocks two_free = 8"
    by (simp add: s_nblocks_def load32_def two_free_def eight_blocks_def add.assoc)
  have w: "load32 (fmem two_free) bitmap = 0x60" by (simp add: load32_def two_free_def eight_blocks_def fs_defs PGSIZE_def)
  have r: "readable two_free" using eight_blocks_readable eight_mapped
    by (auto simp: readable_def coherent_def two_free_def eight_blocks_def)
  have "mapped two_free (PGNUM (bitmap + 4 * (b div 32)))" if "b < 8" for b
    using small_words [OF that] eight_mapped by (simp add: two_free_def)
  then show "meta_cached two_free" using r eight_mapped by (simp add: meta_cached_def n) (simp add: two_free_def eight_blocks_def)
  have "b \<in> free_blocks two_free \<longleftrightarrow> b = 5 \<or> b = 6" for b
  proof (cases "b < 8")
    case True
    then have "unat b < 8" by (simp add: word_less_nat_alt)
    then have "unat b \<in> {0, 1, 2, 3, 4, 5, 6, 7}" by auto
    moreover have "b \<in> free_blocks two_free \<longleftrightarrow> bit (0x60 :: u32) (unat b)"
      using True small_words [OF True] w by (simp add: free_blocks_def n in_use_word_def)
    moreover have "b = of_nat (unat b)" by simp
    ultimately show ?thesis by (auto simp: word_unat_eq_iff)
  next
    case False
    then show ?thesis by (auto simp: free_blocks_def n)
  qed
  then show "free_blocks two_free = {5, 6}" by auto
qed

theorem alloc_block_first_witness:
  "\<exists>s'. alloc_block two_free = Ok (5, s') \<and> free_blocks s' = {6} \<and> meta_cached s'"
proof -
  have "(5 :: u32) \<le> 6" "\<not> (6 :: u32) \<le> 5" by simp_all
  then show ?thesis using alloc_block_first [OF two_free_meta(1), of "[]" two_free] two_free_meta(3) by auto
qed

section \<open>A hole in a file\<close>

lemma diskaddr_cached:
  assumes "super_set s" "mapped s (PGNUM super)"
  shows "diskaddr b s = (if b = 0 \<or> s_nblocks s \<le> b then Panic (Bad_block_number b) else Ok (DISKMAP + b * BLKSIZE, s))"
  using assms by (auto simp: diskaddr_def s_nblocks_def)

lemma f_direct_aligned: "unat f mod 4 = 0 \<Longrightarrow> unat (f_direct f i) mod 4 = 0"
  using unat_4_mult [of "34 + i" f] by (simp add: f_direct_def algebra_simps)

lemma store_word_nblocks:
  assumes "unat a mod 4 = 0" "a \<noteq> super + 4"
  shows "s_nblocks (s\<lparr>fmem := store32 a w (fmem s), dirty := d\<rparr>) = s_nblocks s"
  using load_store32_other [OF assms(1) super_word_aligned(1) assms(2)] by (simp add: s_nblocks_def)

text \<open>
  C36. A hole in a file. When one of the first ten blocks of a file is not allocated, \<open>file_get_block\<close> stores the
  lowest free block there and returns its address; the block keeps what it held before, it is not cleared.
  But on a full disk it does not return \<open>-E_NO_DISK\<close>: it stores the negative error code as a block number,
  its test for a negative unsigned number never holds, and the server panics.
\<close>

theorem file_get_block_hole:
  assumes "meta_cached s" "0 \<notin> free_blocks s" "i < 10" "unat f mod 4 = 0" "mapped s (PGNUM (f_direct f i))"
    and "load32 (fmem s) (f_direct f i) = 0" "f_direct f i \<noteq> super + 4" "\<forall>b < s_nblocks s. f_direct f i \<noteq> bitmap + 4 * (b div 32)"
  shows "(free_blocks s = {} \<longrightarrow> file_get_block f i s = Panic (Bad_block_number (of_int (- E_NO_DISK))))
    \<and> (free_blocks s \<noteq> {} \<longrightarrow> (\<exists>b s'. b \<in> free_blocks s \<and> (\<forall>c\<in>free_blocks s. b \<le> c)
        \<and> file_get_block f i s = Ok (Inr (DISKMAP + b * BLKSIZE), s')
        \<and> load32 (fmem s') (f_direct f i) = b \<and> free_blocks s' = free_blocks s - {b}
        \<and> (\<forall>c. PGNUM c \<noteq> PGNUM (f_direct f i) \<and> PGNUM c \<noteq> PGNUM (bitmap + 4 * (b div 32)) \<longrightarrow> view s' c = view s c)))"
proof -
  let ?p = "f_direct f i"
  note al = f_direct_aligned [OF assms(4), of i]
  have walk: "file_block_walk f i True s' = Ok (Inr ?p, s')" for s'
    using assms(3) by (simp add: file_block_walk_def fs_defs not_le [symmetric] word_le_nat_alt word_less_nat_alt)
  have get: "file_get_block f i s = bind_res (alloc_block s) (\<lambda>(r, s). bind_res (st32 ?p (of_int r) s) (\<lambda>s.
      bind_res (ld32 ?p s) (\<lambda>(b, s). bind_res (diskaddr b s) (\<lambda>(a, s). Ok (Inr a, s)))))"
    using assms(5,6) by (simp add: file_get_block_def walk bind_res_assoc split_def)
  have st: "bind_res (st32 ?p w s') (\<lambda>s. bind_res (ld32 ?p s) (\<lambda>(b, s). bind_res (diskaddr b s) (\<lambda>(a, s). Ok (Inr a :: int + u32, s))))
      = (if w = 0 \<or> s_nblocks s' \<le> w then Panic (Bad_block_number w)
         else Ok (Inr (DISKMAP + w * BLKSIZE), s'\<lparr>fmem := store32 ?p w (fmem s'), dirty := (dirty s')(PGNUM ?p := True)\<rparr>))"
    if "meta_cached s'" "mapped s' (PGNUM ?p)" for w s'
    using that meta_cachedD [OF that(1)] store_word_nblocks [OF al assms(7)] by (simp add: load_store32 diskaddr_cached)
  have full: "file_get_block f i s = Panic (Bad_block_number (of_int (- E_NO_DISK)))" if "free_blocks s = {}"
  proof -
    have "alloc_block s = Ok (- E_NO_DISK, s)" using alloc_block_cases [OF assms(1)] that by auto
    moreover have "s_nblocks s \<le> 0xC0000" using assms(1) by (simp add: meta_cached_def)
    then have "s_nblocks s \<le> of_int (- E_NO_DISK)" by (rule order.trans) (simp add: err_defs)
    ultimately show ?thesis using st [OF assms(1,5)] by (simp add: get)
  qed
  have "\<exists>b s'. b \<in> free_blocks s \<and> (\<forall>c\<in>free_blocks s. b \<le> c) \<and> file_get_block f i s = Ok (Inr (DISKMAP + b * BLKSIZE), s')
        \<and> load32 (fmem s') ?p = b \<and> free_blocks s' = free_blocks s - {b}
        \<and> (\<forall>c. PGNUM c \<noteq> PGNUM ?p \<and> PGNUM c \<noteq> PGNUM (bitmap + 4 * (b div 32)) \<longrightarrow> view s' c = view s c)" if ne: "free_blocks s \<noteq> {}"
  proof -
    obtain b where b: "b \<in> free_blocks s" "\<forall>c\<in>free_blocks s. b \<le> c" "alloc_block s = Ok (int (unat b), taken_block b s)"
      using alloc_block_cases [OF assms(1)] ne by auto
    then have n: "b < s_nblocks s" "b \<noteq> 0" using assms(2) by (auto simp: free_blocks_def)
    note t = taken_block_meta [OF assms(1) n(1)]
    let ?s = "taken_block b s"
    let ?s' = "?s\<lparr>fmem := store32 ?p b (fmem ?s), dirty := (dirty ?s)(PGNUM ?p := True)\<rparr>"
    have "mapped ?s (PGNUM ?p)" using assms(5) by (simp add: t(5))
    note sv = stored_view [OF meta_cachedD(1) [OF t(1)] this al, of b]
    have "file_get_block f i s = Ok (Inr (DISKMAP + b * BLKSIZE), ?s')"
      using st [OF t(1) \<open>mapped ?s (PGNUM ?p)\<close>, of b] n by (simp add: get b(3) t(3))
    moreover have "free_blocks ?s' = free_blocks s - {b}"
    proof -
      have "in_use_word ?s' c = in_use_word ?s c" if "c < s_nblocks s" for c
        using assms(8) that al by (simp add: in_use_word_def load_store32_other)
      then show ?thesis using t(2) store_word_nblocks [OF al assms(7)] by (auto simp: free_blocks_def t(3))
    qed
    moreover have "view ?s' c = view s c" if "PGNUM c \<noteq> PGNUM ?p \<and> PGNUM c \<noteq> PGNUM (bitmap + 4 * (b div 32))" for c
      using that by (simp add: sv(2) t(4) store32_page al)
    ultimately show ?thesis using b(1,2) by (intro exI [of _ b] exI [of _ ?s']) (simp add: load_store32)
  qed
  with full show ?thesis by blast
qed

theorem file_get_block_hole_witness:
  "\<exists>s'. file_get_block (s_root super) 0 two_free = Ok (Inr 0x10005000, s') \<and> load32 (fmem s') (f_direct (s_root super) 0) = 5"
proof -
  let ?f = "s_root super"
  have f: "unat ?f mod 4 = 0" "f_direct ?f 0 = 0x10001090" "super + 4 = 0x10001004" "bitmap = 0x10002000"
    by (simp_all add: s_root_def f_direct_def fs_defs PGSIZE_def)
  have m: "mapped two_free (PGNUM (f_direct ?f 0))" "load32 (fmem two_free) (f_direct ?f 0) = 0"
    unfolding f(2) by (simp_all add: two_free_def eight_mapped PGNUM_div) (simp add: load32_def eight_blocks_def f(3,4))
  have w: "\<forall>b < s_nblocks two_free. f_direct ?f 0 \<noteq> bitmap + 4 * (b div 32)"
    using small_words by (auto simp: two_free_meta(2) f(2,4))
  have le: "(5 :: u32) \<le> 6" "\<not> (6 :: u32) \<le> 5" "DISKMAP + 5 * BLKSIZE = 0x10005000" by (simp_all add: fs_defs PGSIZE_def)
  have "0 \<notin> free_blocks two_free" by (simp add: two_free_meta(3))
  from file_get_block_hole [OF two_free_meta(1) this _ f(1) m _ w]
  show ?thesis using le f(2,3) by (auto simp: two_free_meta(3))
qed

section \<open>Where the bytes of a file are\<close>

text \<open>
  The word that holds the number of a block of a file, and the address of a byte of the file when \<open>bs\<close>
  gives the block numbers.
\<close>

definition file_slot :: "u32 \<Rightarrow> mem \<Rightarrow> nat \<Rightarrow> u32" where
  "file_slot f m i = (if i < 10 then f_direct f (of_nat i) else DISKMAP + load32 m (f_indirect f) * BLKSIZE + 4 * (of_nat i - 10))"

definition byte_at :: "(nat \<Rightarrow> u32) \<Rightarrow> nat \<Rightarrow> u32" where
  "byte_at bs p = DISKMAP + bs (p div 4096) * BLKSIZE + of_nat (p mod 4096)"

definition meta_pages :: "u32 \<Rightarrow> nat \<Rightarrow> fsmem \<Rightarrow> nat set" where
  "meta_pages f n s = {PGNUM super, PGNUM (f_indirect f), PGNUM (f_size f)} \<union> (\<lambda>i. PGNUM (file_slot f (fmem s) i)) ` {..<n}"

definition block_page :: "u32 \<Rightarrow> nat" where
  "block_page b = 65536 + unat b"

text \<open>
  The first \<open>n\<close> blocks of the file are allocated, as \<open>bs\<close>, and in the cache together with the words that
  lead to them; no two are the same block and none holds such a word.
\<close>

definition file_map :: "u32 \<Rightarrow> nat \<Rightarrow> (nat \<Rightarrow> u32) \<Rightarrow> fsmem \<Rightarrow> bool" where
  "file_map f n bs s \<longleftrightarrow> readable s \<and> super_set s \<and> mapped s (PGNUM super) \<and> s_nblocks s \<le> 0xC0000 \<and> n \<le> 1034 \<and> unat f mod 4 = 0
     \<and> mapped s (PGNUM (f_indirect f)) \<and> mapped s (PGNUM (f_size f))
     \<and> (10 < n \<longrightarrow> load32 (fmem s) (f_indirect f) \<noteq> 0 \<and> load32 (fmem s) (f_indirect f) < s_nblocks s)
     \<and> (\<forall>i<n. mapped s (PGNUM (file_slot f (fmem s) i)) \<and> load32 (fmem s) (file_slot f (fmem s) i) = bs i
          \<and> bs i \<noteq> 0 \<and> bs i < s_nblocks s \<and> mapped s (block_page (bs i)) \<and> block_page (bs i) \<notin> meta_pages f n s)
     \<and> inj_on bs {..<n}"

lemma word_offset_aligned: "unat f mod 4 = 0 \<Longrightarrow> unat (f_indirect f) mod 4 = 0" "unat f mod 4 = 0 \<Longrightarrow> unat (f_size f) mod 4 = 0"
  using unat_4_mult [of 44 f] unat_4_mult [of 32 f] by (simp_all add: f_indirect_def f_size_def add.commute)

lemma file_slot_aligned: "unat f mod 4 = 0 \<Longrightarrow> unat (file_slot f m i) mod 4 = 0"
proof -
  assume f: "unat f mod 4 = 0"
  have "DISKMAP + b * BLKSIZE + 4 * k = 4 * (0x4000000 + b * 1024 + k) + 0" for b k :: u32
    by (simp add: fs_defs PGSIZE_def algebra_simps)
  then have "unat (DISKMAP + b * BLKSIZE + 4 * k) mod 4 = 0" for b k :: u32
    using unat_4_mult [of "0x4000000 + b * 1024 + k" 0] by simp
  then show ?thesis using f_direct_aligned [OF f] unfolding file_slot_def by (auto simp only: split: if_split)
qed

text \<open>What agrees on the pages that hold these words is the same map.\<close>

lemma file_map_cong:
  assumes "file_map f n bs s" "\<And>a. PGNUM a \<in> meta_pages f n s \<Longrightarrow> m a = fmem s a"
    and "readable (s\<lparr>fmem := m, dirty := d\<rparr>)"
  shows "file_map f n bs (s\<lparr>fmem := m, dirty := d\<rparr>)"
proof -
  let ?s = "s\<lparr>fmem := m, dirty := d\<rparr>"
  have al: "unat f mod 4 = 0" using assms(1) by (simp add: file_map_def)
  have w: "load32 m a = load32 (fmem s) a" if "unat a mod 4 = 0" "PGNUM a \<in> meta_pages f n s" for a
    using that assms(2) by (intro load32_page) auto
  have n: "s_nblocks ?s = s_nblocks s" using w [of "super + 4"] by (simp add: s_nblocks_def meta_pages_def)
  have i: "load32 m (f_indirect f) = load32 (fmem s) (f_indirect f)" using w [of "f_indirect f"] word_offset_aligned [OF al] by (simp add: meta_pages_def)
  have sl: "file_slot f m = file_slot f (fmem s)" by (rule ext) (simp add: file_slot_def i)
  have b: "load32 m (file_slot f (fmem s) k) = load32 (fmem s) (file_slot f (fmem s) k)" if "k < n" for k
    using w [OF file_slot_aligned [OF al]] that by (simp add: meta_pages_def)
  have mp: "meta_pages f n ?s = meta_pages f n s" by (simp add: meta_pages_def sl)
  show ?thesis using assms(1,3) unfolding file_map_def mp n by (simp add: i sl b)
qed

lemma file_get_block_mapped:
  assumes "file_map f n bs s" "i < n"
  shows "file_get_block f (of_nat i) s = Ok (Inr (DISKMAP + bs i * BLKSIZE), s)"
proof -
  have n: "n \<le> 1034" and sup: "super_set s" "mapped s (PGNUM super)" "mapped s (PGNUM (f_indirect f))"
    and b: "mapped s (PGNUM (file_slot f (fmem s) i))" "load32 (fmem s) (file_slot f (fmem s) i) = bs i" "bs i \<noteq> 0" "\<not> s_nblocks s \<le> bs i"
    using assms by (auto simp: file_map_def)
  have u: "unat (of_nat i :: u32) = i" using assms(2) n by (simp add: unat_of_nat)
  have walk: "file_block_walk f (of_nat i) True s = Ok (Inr (file_slot f (fmem s) i), s)"
  proof (cases "i < 10")
    case True
    then show ?thesis using n assms(2) u by (simp add: file_block_walk_def file_slot_def fs_defs word_le_nat_alt word_less_nat_alt)
  next
    case False
    then have "load32 (fmem s) (f_indirect f) \<noteq> 0" "\<not> s_nblocks s \<le> load32 (fmem s) (f_indirect f)"
      using assms by (auto simp: file_map_def)
    then show ?thesis using False n assms(2) u sup
      by (simp add: file_block_walk_def file_slot_def diskaddr_cached) (simp add: fs_defs word_le_nat_alt word_less_nat_alt)
  qed
  show ?thesis using b sup by (simp add: file_get_block_def walk diskaddr_cached)
qed

lemma byte_at_page:
  assumes "bs (p div 4096) < 0xC0000"
  shows "PGNUM (byte_at bs p) = block_page (bs (p div 4096))" "unat (byte_at bs p) = 0x10000000 + unat (bs (p div 4096)) * 4096 + p mod 4096"
proof -
  let ?b = "bs (p div 4096)"
  have b: "unat ?b < 0xC0000" using assms by (simp add: word_less_nat_alt)
  have "p mod 4096 < 4096" by simp
  then have "0x10000000 + unat ?b * 4096 + p mod 4096 < 2 ^ 32" using b by simp
  moreover have "byte_at bs p = of_nat (0x10000000 + unat ?b * 4096 + p mod 4096)"
    by (simp add: byte_at_def fs_defs PGSIZE_def)
  ultimately show u: "unat (byte_at bs p) = 0x10000000 + unat ?b * 4096 + p mod 4096" by (simp only: unat_of_nat) simp
  have "0x10000000 + unat ?b * 4096 + p mod 4096 = p mod 4096 + (65536 + unat ?b) * 4096" by simp
  then show "PGNUM (byte_at bs p) = block_page ?b" unfolding PGNUM_div u block_page_def by (simp only: div_mult_self1)
qed

section \<open>Moving bytes between a buffer and a block\<close>

lemma ld8_mapped [simp]: "mapped s (PGNUM a) \<Longrightarrow> ld8 a s = Ok (fmem s a, s)"
  by (simp add: ld8_def)

lemma st8_mapped [simp]:
  "mapped s (PGNUM a) \<Longrightarrow> st8 a b s = Ok (s\<lparr>fmem := (fmem s)(a := b), dirty := (dirty s)(PGNUM a := True)\<rparr>)"
  by (simp add: st8_def)

lemma move_up_mapped:
  "\<forall>k<n. mapped s (PGNUM (d + of_nat k)) \<and> mapped s (PGNUM (p + of_nat k)) \<Longrightarrow>
    \<exists>D. move_up ld8 st8 n d p s = Ok (s\<lparr>fmem := copy_up n d p (fmem s), dirty := D\<rparr>)"
proof (induction n arbitrary: d p s)
  case 0
  then show ?case by (intro exI [of _ "dirty s"]) simp
next
  case (Suc n)
  let ?s = "s\<lparr>fmem := (fmem s)(d := fmem s p), dirty := (dirty s)(PGNUM d := True)\<rparr>"
  have 0: "mapped s (PGNUM d)" "mapped s (PGNUM p)" using Suc.prems [rule_format, of 0] by auto
  have "\<forall>k<n. mapped ?s (PGNUM (d + 1 + of_nat k)) \<and> mapped ?s (PGNUM (p + 1 + of_nat k))"
  proof (intro allI impI)
    fix k assume "k < n"
    then show "mapped ?s (PGNUM (d + 1 + of_nat k)) \<and> mapped ?s (PGNUM (p + 1 + of_nat k))"
      using Suc.prems [rule_format, of "Suc k"] by (simp add: ac_simps)
  qed
  from Suc.IH [OF this] obtain D where "move_up ld8 st8 n (d + 1) (p + 1) ?s = Ok (?s\<lparr>fmem := copy_up n (d + 1) (p + 1) (fmem ?s), dirty := D\<rparr>)" ..
  then show ?case using 0 by (intro exI [of _ D]) (simp del: fun_upd_apply)
qed

text \<open>A move between ranges that do not meet.\<close>

lemma fs_memmove_mapped:
  fixes n :: u32
  assumes "readable s" "\<forall>k<unat n. mapped s (PGNUM (d + of_nat k)) \<and> mapped s (PGNUM (p + of_nat k))"
    and "unat p + unat n < 2 ^ 32" "unat d + unat n < 2 ^ 32" "\<forall>j<unat n. \<forall>k<unat n. p + of_nat k \<noteq> d + of_nat j"
  shows "\<exists>m D. fs_memmove d p n s = Ok (s\<lparr>fmem := m, dirty := D\<rparr>) \<and> readable (s\<lparr>fmem := m, dirty := D\<rparr>)
    \<and> (\<forall>k<unat n. m (d + of_nat k) = fmem s (p + of_nat k)) \<and> (\<forall>a. (\<forall>k<unat n. a \<noteq> d + of_nat k) \<longrightarrow> m a = fmem s a)"
proof -
  obtain D where D: "move_up ld8 st8 (unat n) d p s = Ok (s\<lparr>fmem := copy_up (unat n) d p (fmem s), dirty := D\<rparr>)"
    using move_up_mapped [OF assms(2)] ..
  have dir: "\<not> (p < d \<and> p + n > d)"
  proof
    assume lt: "p < d \<and> p + n > d"
    have "unat (p + n) = unat p + unat n" using assms(3) by (simp add: unat_word_ariths)
    then have k: "unat d - unat p < unat n" using lt by (simp add: word_less_nat_alt) linarith
    have "p + of_nat (unat d - unat p) = d + of_nat 0" using lt by (simp add: of_nat_diff word_less_nat_alt)
    then show False using assms(5) k by fastforce
  qed
  have spec: "copy_up (unat n) d p (fmem s) a = (if \<exists>k<unat n. a = d + of_nat k then fmem s (p + (a - d)) else fmem s a)" for a
    using assms(5) by (intro copy_up_spec) auto
  have "readable (s\<lparr>fmem := copy_up (unat n) d p (fmem s), dirty := D\<rparr>)" using cached.move_up_seen [OF assms(1) D] by blast
  moreover have "copy_up (unat n) d p (fmem s) (d + of_nat k) = fmem s (p + of_nat k)" if "k < unat n" for k
    using that by (auto simp: spec)
  moreover have "copy_up (unat n) d p (fmem s) a = fmem s a" if "\<forall>k<unat n. a \<noteq> d + of_nat k" for a
    using that by (auto simp: spec)
  moreover have "fs_memmove d p n s = Ok (s\<lparr>fmem := copy_up (unat n) d p (fmem s), dirty := D\<rparr>)"
    unfolding fs_memmove_def if_not_P [OF dir] by (rule D)
  ultimately show ?thesis by blast
qed

lemma signed_division_nat: "int q sdiv 4096 = int (q div 4096)" "int q smod 4096 = int (q mod 4096)"
  by (cases "q = 0"; simp add: signed_divide_int_def signed_modulo_int_def zdiv_int zmod_int minus_div_mult_eq_mod)+

lemma blk_small:
  assumes "unat pos < 2 ^ 31"
  shows "blk_div pos = of_nat (unat pos div 4096)" "blk_mod pos = of_nat (unat pos mod 4096)"
proof -
  have s: "sint pos = int (unat pos)" by (rule sint_small [OF assms])
  show "blk_div pos = of_nat (unat pos div 4096)" "blk_mod pos = of_nat (unat pos mod 4096)"
    unfolding blk_div_def blk_mod_def s signed_division_nat of_int_of_nat_eq by (rule refl)+
qed

lemma chunk_small:
  assumes "pos < lim" "unat lim < 2 ^ 31"
  shows "unat (chunk pos lim) = min (4096 - unat pos mod 4096) (unat lim - unat pos)"
proof -
  have p: "unat pos < 2 ^ 31" using assms by (simp add: word_less_nat_alt)
  have "unat (BLKSIZE - blk_mod pos) = 4096 - unat pos mod 4096"
    unfolding blk_small(2) [OF p] BLKSIZE_def PGSIZE_def by (subst unat_sub) (simp_all add: word_le_nat_alt unat_of_nat)
  moreover have "unat (lim - pos) = unat lim - unat pos" using assms(1) by (simp add: unat_sub word_less_nat_alt word_le_nat_alt)
  ultimately show ?thesis by (simp add: chunk_def min_def word_le_nat_alt)
qed

lemma byte_at_add:
  assumes "p mod 4096 + k < 4096"
  shows "byte_at bs (p + k) = byte_at bs p + of_nat k"
proof -
  have e: "p + k = (p mod 4096 + k) + p div 4096 * 4096" by simp
  have "(p + k) div 4096 = (p mod 4096 + k) div 4096 + p div 4096"
    using arg_cong [OF e, of "\<lambda>x. x div 4096"] by (simp only: div_mult_self1)
  moreover have "(p + k) mod 4096 = (p mod 4096 + k) mod 4096"
    using arg_cong [OF e, of "\<lambda>x. x mod 4096"] by (simp only: mod_mult_self1)
  ultimately have "(p + k) div 4096 = p div 4096" "(p + k) mod 4096 = p mod 4096 + k" using assms by simp_all
  then show ?thesis by (simp add: byte_at_def)
qed

section \<open>Reading and writing a file\<close>

text \<open>A buffer of \<open>n\<close> bytes is mapped, does not wrap around, and lies outside the given pages.\<close>

definition buffer :: "u32 \<Rightarrow> nat \<Rightarrow> nat set \<Rightarrow> fsmem \<Rightarrow> bool" where
  "buffer buf n P s \<longleftrightarrow> unat buf + n < 2 ^ 32 \<and> (\<forall>k<n. mapped s (PGNUM (buf + of_nat k)) \<and> PGNUM (buf + of_nat k) \<notin> P)"

definition data_pages :: "nat \<Rightarrow> (nat \<Rightarrow> u32) \<Rightarrow> nat set" where
  "data_pages n bs = (\<lambda>i. block_page (bs i)) ` {..<n}"

lemma buffer_shift:
  assumes "buffer buf n P s" "unat c \<le> n"
  shows "buffer (buf + c) (n - unat c) P s"
proof -
  have "unat (buf + c) = unat buf + unat c" using assms by (simp add: buffer_def unat_word_ariths)
  moreover have "mapped s (PGNUM (buf + c + of_nat k)) \<and> PGNUM (buf + c + of_nat k) \<notin> P" if "k < n - unat c" for k
  proof -
    have "buf + c + of_nat k = buf + of_nat (unat c + k)" by (simp add: ac_simps)
    moreover have "unat c + k < n" using that assms(2) by simp
    ultimately show ?thesis using assms(1) unfolding buffer_def by metis
  qed
  ultimately show ?thesis using assms by (simp add: buffer_def)
qed

lemma byte_at_facts:
  assumes "file_map f n bs s" "p < n * 4096"
  shows "mapped s (PGNUM (byte_at bs p))" "PGNUM (byte_at bs p) \<in> data_pages n bs" "PGNUM (byte_at bs p) \<notin> meta_pages f n s"
    "unat (byte_at bs p) + (4096 - p mod 4096) \<le> 0xD0000000"
proof -
  have i: "p div 4096 < n" using assms(2) by (simp add: div_less_iff_less_mult)
  then have m: "mapped s (block_page (bs (p div 4096)))" "block_page (bs (p div 4096)) \<notin> meta_pages f n s" "bs (p div 4096) < 0xC0000"
    using assms(1) by (auto simp: file_map_def)
  note b = byte_at_page [where bs = bs, OF m(3)]
  show "mapped s (PGNUM (byte_at bs p))" "PGNUM (byte_at bs p) \<in> data_pages n bs" "PGNUM (byte_at bs p) \<notin> meta_pages f n s"
    using m i by (auto simp: b(1) data_pages_def)
  have "unat (bs (p div 4096)) < 0xC0000" "p mod 4096 < 4096" using m(3) by (simp_all add: word_less_nat_alt)
  then show "unat (byte_at bs p) + (4096 - p mod 4096) \<le> 0xD0000000" unfolding b(2) by linarith
qed

lemma byte_at_inj:
  assumes "file_map f n bs s" "p < n * 4096" "q < n * 4096" "byte_at bs p = byte_at bs q"
  shows "p = q"
proof -
  have i: "p div 4096 < n" "q div 4096 < n" using assms(2,3) by (simp_all add: div_less_iff_less_mult)
  then have m: "bs (p div 4096) < 0xC0000" "bs (q div 4096) < 0xC0000" using assms(1) by (auto simp: file_map_def)
  have "block_page (bs (p div 4096)) = block_page (bs (q div 4096))"
    using byte_at_page(1) [where bs = bs, OF m(1)] byte_at_page(1) [where bs = bs, OF m(2)] assms(4) by simp
  then have "bs (p div 4096) = bs (q div 4096)" by (simp add: block_page_def word_unat_eq_iff)
  moreover have "inj_on bs {..<n}" using assms(1) by (simp add: file_map_def)
  ultimately have d: "p div 4096 = q div 4096" using i by (auto dest: inj_onD)
  then have "p mod 4096 = q mod 4096"
    using byte_at_page(2) [where bs = bs, OF m(1)] byte_at_page(2) [where bs = bs, OF m(2)] assms(4) by simp
  with d show ?thesis by (metis div_mult_mod_eq)
qed

text \<open>One round of the loops, and where the next round starts.\<close>

lemma round_facts:
  assumes "file_map f n bs s" "pos < lim" "unat lim \<le> n * 4096" "unat lim < 2 ^ 31"
  defines "c \<equiv> chunk pos lim"
  shows "file_get_block f (blk_div pos) s = Ok (Inr (DISKMAP + bs (unat pos div 4096) * BLKSIZE), s)"
    "DISKMAP + bs (unat pos div 4096) * BLKSIZE + blk_mod pos = byte_at bs (unat pos)"
    "0 < unat c" "unat c \<le> unat lim - unat pos" "unat (pos + c) = unat pos + unat c"
    "k < unat c \<Longrightarrow> byte_at bs (unat pos) + of_nat k = byte_at bs (unat pos + k)"
    "unat (byte_at bs (unat pos)) + unat c < 2 ^ 32"
proof -
  have pos: "unat pos < unat lim" "unat pos < 2 ^ 31" "unat pos < n * 4096" using assms(2-4) by (simp_all add: word_less_nat_alt)
  have "unat pos div 4096 < n" using pos(3) by (simp add: div_less_iff_less_mult)
  then show "file_get_block f (blk_div pos) s = Ok (Inr (DISKMAP + bs (unat pos div 4096) * BLKSIZE), s)"
    unfolding blk_small(1) [OF pos(2)] by (rule file_get_block_mapped [OF assms(1)])
  show "DISKMAP + bs (unat pos div 4096) * BLKSIZE + blk_mod pos = byte_at bs (unat pos)"
    unfolding blk_small(2) [OF pos(2)] byte_at_def by (rule refl)
  show "0 < unat c" "unat c \<le> unat lim - unat pos" "unat (pos + c) = unat pos + unat c"
    unfolding c_def by (rule chunk_bounds [OF assms(2)])+
  have cs: "unat c \<le> 4096 - unat pos mod 4096" using chunk_small [OF assms(2,4)] unfolding c_def by simp
  show "k < unat c \<Longrightarrow> byte_at bs (unat pos) + of_nat k = byte_at bs (unat pos + k)"
    using cs by (intro byte_at_add [symmetric]) simp
  show "unat (byte_at bs (unat pos)) + unat c < 2 ^ 32" using byte_at_facts(4) [OF assms(1) pos(3)] cs by simp
qed

lemma write_round:
  assumes "file_map f n bs s" "pos < lim" "unat lim \<le> n * 4096" "unat lim < 2 ^ 31"
    and "buffer buf (unat lim - unat pos) (data_pages n bs) s"
  defines "c \<equiv> chunk pos lim" and "A \<equiv> byte_at bs (unat pos)"
  shows "\<exists>m D. fs_memmove A buf c s = Ok (s\<lparr>fmem := m, dirty := D\<rparr>) \<and> file_map f n bs (s\<lparr>fmem := m, dirty := D\<rparr>)
    \<and> (\<forall>k<unat c. m (A + of_nat k) = fmem s (buf + of_nat k)) \<and> (\<forall>a. (\<forall>k<unat c. a \<noteq> A + of_nat k) \<longrightarrow> m a = fmem s a)
    \<and> (\<forall>k<unat lim - unat pos. m (buf + of_nat k) = fmem s (buf + of_nat k))"
proof -
  note r = round_facts [OF assms(1-4), folded c_def A_def]
  have in_lim: "unat pos + k < n * 4096" if "k < unat c" for k using that r(4) assms(2,3) by (simp add: word_less_nat_alt)
  have buf: "mapped s (PGNUM (buf + of_nat k))" "PGNUM (buf + of_nat k) \<notin> data_pages n bs" if "k < unat lim - unat pos" for k
    using assms(5) that by (auto simp: buffer_def)
  have blk: "mapped s (PGNUM (A + of_nat k))" "PGNUM (A + of_nat k) \<in> data_pages n bs" "PGNUM (A + of_nat k) \<notin> meta_pages f n s"
    if "k < unat c" for k using byte_at_facts [OF assms(1) in_lim [OF that]] r(6) [OF that] by simp_all
  have mv: "\<forall>k<unat c. mapped s (PGNUM (A + of_nat k)) \<and> mapped s (PGNUM (buf + of_nat k))" using blk(1) buf(1) r(4) by auto
  have lim32: "unat buf + unat c < 2 ^ 32" using assms(5) r(4) by (simp add: buffer_def)
  have dj: "\<forall>j<unat c. \<forall>k<unat c. buf + of_nat k \<noteq> A + of_nat j" using blk(2) buf(2) r(4) by (metis less_le_trans)
  have rd: "readable s" using assms(1) by (simp add: file_map_def)
  obtain m D where m: "fs_memmove A buf c s = Ok (s\<lparr>fmem := m, dirty := D\<rparr>)" "readable (s\<lparr>fmem := m, dirty := D\<rparr>)"
    "\<forall>k<unat c. m (A + of_nat k) = fmem s (buf + of_nat k)" "\<forall>a. (\<forall>k<unat c. a \<noteq> A + of_nat k) \<longrightarrow> m a = fmem s a"
    using fs_memmove_mapped [OF rd mv lim32 r(7) dj] by blast
  have "m a = fmem s a" if "PGNUM a \<in> meta_pages f n s" for a using that blk(3) m(4) by metis
  then have "file_map f n bs (s\<lparr>fmem := m, dirty := D\<rparr>)" by (intro file_map_cong [OF assms(1) _ m(2)]) auto
  moreover have "m (buf + of_nat k) = fmem s (buf + of_nat k)" if "k < unat lim - unat pos" for k using buf(2) [OF that] blk(2) m(4) by metis
  ultimately show ?thesis using m by blast
qed

text \<open>The rounds of \<open>file_write\<close> put the buffer into the file and change nothing else.\<close>

lemma file_write_loop_eq:
  assumes "file_map f n bs s" "pos \<le> lim" "unat lim \<le> n * 4096" "unat lim < 2 ^ 31"
    and "buffer buf (unat lim - unat pos) (data_pages n bs) s"
  shows "\<exists>m D. file_write_loop f buf pos lim s = Ok (0, s\<lparr>fmem := m, dirty := D\<rparr>) \<and> file_map f n bs (s\<lparr>fmem := m, dirty := D\<rparr>)
    \<and> (\<forall>k. unat pos + k < unat lim \<longrightarrow> m (byte_at bs (unat pos + k)) = fmem s (buf + of_nat k))
    \<and> (\<forall>a. (\<forall>p. unat pos \<le> p \<and> p < unat lim \<longrightarrow> a \<noteq> byte_at bs p) \<longrightarrow> m a = fmem s a)"
  using assms
proof (induction "unat lim - unat pos" arbitrary: pos buf s rule: less_induct)
  case less
  show ?case
  proof (cases "pos < lim")
    case False
    then have "pos = lim" using less.prems(2) by simp
    then show ?thesis using less.prems(1) by (intro exI [of _ "fmem s"] exI [of _ "dirty s"]) (simp add: file_write_loop.simps)
  next
    case True
    define c where "c = chunk pos lim"
    let ?A = "byte_at bs (unat pos)"
    note r = round_facts [OF less.prems(1) True less.prems(3,4), folded c_def]
    obtain m1 D1 where m1: "fs_memmove ?A buf c s = Ok (s\<lparr>fmem := m1, dirty := D1\<rparr>)" and fm: "file_map f n bs (s\<lparr>fmem := m1, dirty := D1\<rparr>)"
      and in1: "\<And>k. k < unat c \<Longrightarrow> m1 (?A + of_nat k) = fmem s (buf + of_nat k)"
      and out1: "\<And>a. \<forall>k<unat c. a \<noteq> ?A + of_nat k \<Longrightarrow> m1 a = fmem s a"
      and buf1: "\<And>k. k < unat lim - unat pos \<Longrightarrow> m1 (buf + of_nat k) = fmem s (buf + of_nat k)"
      using write_round [OF less.prems(1) True less.prems(3-5), folded c_def] by blast
    let ?s = "s\<lparr>fmem := m1, dirty := D1\<rparr>"
    have buf': "buffer (buf + c) (unat lim - unat (pos + c)) (data_pages n bs) ?s"
      using buffer_shift [OF less.prems(5) r(4)] r(5) by (simp add: buffer_def)
    have le: "pos + c \<le> lim" using r(4,5) True by (simp add: word_le_nat_alt word_less_nat_alt)
    have dec: "unat lim - unat (pos + c) < unat lim - unat pos" using r(3,4,5) True by (simp add: word_less_nat_alt)
    obtain m D where ih: "file_write_loop f (buf + c) (pos + c) lim ?s = Ok (0, ?s\<lparr>fmem := m, dirty := D\<rparr>)"
      "file_map f n bs (?s\<lparr>fmem := m, dirty := D\<rparr>)"
      "\<And>k. unat (pos + c) + k < unat lim \<Longrightarrow> m (byte_at bs (unat (pos + c) + k)) = fmem ?s (buf + c + of_nat k)"
      "\<And>a. \<forall>p. unat (pos + c) \<le> p \<and> p < unat lim \<longrightarrow> a \<noteq> byte_at bs p \<Longrightarrow> m a = fmem ?s a"
      using less.hyps [OF dec fm le less.prems(3,4) buf'] by blast
    have "file_write_loop f buf pos lim s = Ok (0, s\<lparr>fmem := m, dirty := D\<rparr>)"
      using True r(1) m1 ih(1) by (subst file_write_loop.simps) (simp add: r(2) flip: c_def)
    moreover have "m (byte_at bs (unat pos + k)) = fmem s (buf + of_nat k)" if k: "unat pos + k < unat lim" for k
    proof (cases "k < unat c")
      case True
      have "byte_at bs (unat pos + k) \<noteq> byte_at bs p" if "unat (pos + c) \<le> p" "p < unat lim" for p
        using byte_at_inj [OF less.prems(1), of "unat pos + k" p] that True k r(5) less.prems(3) by auto
      then have "m (byte_at bs (unat pos + k)) = m1 (byte_at bs (unat pos + k))" using ih(4) by auto
      then show ?thesis using in1 [OF True] r(6) [OF True] by simp
    next
      case False
      have "m (byte_at bs (unat pos + k)) = m1 (buf + c + of_nat (k - unat c))"
        using ih(3) [of "k - unat c"] False k r(5) by simp
      also have "buf + c + of_nat (k - unat c) = buf + of_nat k" using False by (simp add: of_nat_diff)
      also have "m1 (buf + of_nat k) = fmem s (buf + of_nat k)"
        using k by (intro buf1) simp
      finally show ?thesis .
    qed
    moreover have "m a = fmem s a" if "\<forall>p. unat pos \<le> p \<and> p < unat lim \<longrightarrow> a \<noteq> byte_at bs p" for a
    proof -
      have "m a = m1 a" using that r(5) ih(4) [of a] by simp
      also have "\<dots> = fmem s a" using that r(4,6) True by (intro out1) (auto simp: word_less_nat_alt)
      finally show ?thesis .
    qed
    ultimately show ?thesis using ih(2) by (intro exI [of _ m] exI [of _ D]) simp
  qed
qed

lemma read_round:
  assumes "file_map f n bs s" "pos < lim" "unat lim \<le> n * 4096" "unat lim < 2 ^ 31"
    and "buffer buf (unat lim - unat pos) (data_pages n bs \<union> meta_pages f n s) s"
  defines "c \<equiv> chunk pos lim" and "A \<equiv> byte_at bs (unat pos)"
  shows "\<exists>m D. fs_memmove buf A c s = Ok (s\<lparr>fmem := m, dirty := D\<rparr>) \<and> file_map f n bs (s\<lparr>fmem := m, dirty := D\<rparr>)
    \<and> meta_pages f n (s\<lparr>fmem := m, dirty := D\<rparr>) = meta_pages f n s
    \<and> (\<forall>k<unat c. m (buf + of_nat k) = fmem s (A + of_nat k)) \<and> (\<forall>a. (\<forall>k<unat c. a \<noteq> buf + of_nat k) \<longrightarrow> m a = fmem s a)
    \<and> (\<forall>a. PGNUM a \<in> data_pages n bs \<longrightarrow> m a = fmem s a)"
proof -
  note r = round_facts [OF assms(1-4), folded c_def A_def]
  have in_lim: "unat pos + k < n * 4096" if "k < unat c" for k using that r(4) assms(2,3) by (simp add: word_less_nat_alt)
  have buf: "mapped s (PGNUM (buf + of_nat k))" "PGNUM (buf + of_nat k) \<notin> data_pages n bs" "PGNUM (buf + of_nat k) \<notin> meta_pages f n s" if "k < unat c" for k
    using assms(5) that r(4) by (auto simp: buffer_def)
  have blk: "mapped s (PGNUM (A + of_nat k))" "PGNUM (A + of_nat k) \<in> data_pages n bs"
    if "k < unat c" for k using byte_at_facts [OF assms(1) in_lim [OF that]] r(6) [OF that] by simp_all
  have mv: "\<forall>k<unat c. mapped s (PGNUM (buf + of_nat k)) \<and> mapped s (PGNUM (A + of_nat k))" using blk(1) buf(1) by auto
  have lim32: "unat buf + unat c < 2 ^ 32" using assms(5) r(4) by (simp add: buffer_def)
  have dj: "\<forall>j<unat c. \<forall>k<unat c. A + of_nat k \<noteq> buf + of_nat j" using blk(2) buf(2) by metis
  have rd: "readable s" using assms(1) by (simp add: file_map_def)
  obtain m D where m: "fs_memmove buf A c s = Ok (s\<lparr>fmem := m, dirty := D\<rparr>)" "readable (s\<lparr>fmem := m, dirty := D\<rparr>)"
    "\<forall>k<unat c. m (buf + of_nat k) = fmem s (A + of_nat k)" "\<forall>a. (\<forall>k<unat c. a \<noteq> buf + of_nat k) \<longrightarrow> m a = fmem s a"
    using fs_memmove_mapped [OF rd mv r(7) lim32 dj] by blast
  have meta: "m a = fmem s a" if "PGNUM a \<in> meta_pages f n s" for a using that buf(3) m(4) by metis
  then have "file_map f n bs (s\<lparr>fmem := m, dirty := D\<rparr>)" by (intro file_map_cong [OF assms(1) _ m(2)]) auto
  moreover have "m a = fmem s a" if "PGNUM a \<in> data_pages n bs" for a using that buf(2) m(4) by metis
  moreover have "load32 m (f_indirect f) = load32 (fmem s) (f_indirect f)"
    using assms(1) meta by (intro load32_page word_offset_aligned) (auto simp: file_map_def meta_pages_def)
  then have "file_slot f m = file_slot f (fmem s)" by (simp add: file_slot_def fun_eq_iff)
  then have "meta_pages f n (s\<lparr>fmem := m, dirty := D\<rparr>) = meta_pages f n s" by (simp add: meta_pages_def)
  ultimately show ?thesis using m by blast
qed

text \<open>The rounds of \<open>file_read\<close> put the file into the buffer and change nothing else.\<close>

lemma file_read_loop_eq:
  assumes "file_map f n bs s" "pos \<le> lim" "unat lim \<le> n * 4096" "unat lim < 2 ^ 31"
    and "buffer buf (unat lim - unat pos) (data_pages n bs \<union> meta_pages f n s) s"
  shows "\<exists>m D. file_read_loop f buf pos lim s = Ok (0, s\<lparr>fmem := m, dirty := D\<rparr>)
    \<and> (\<forall>k. unat pos + k < unat lim \<longrightarrow> m (buf + of_nat k) = fmem s (byte_at bs (unat pos + k)))
    \<and> (\<forall>a. (\<forall>k<unat lim - unat pos. a \<noteq> buf + of_nat k) \<longrightarrow> m a = fmem s a)"
  using assms
proof (induction "unat lim - unat pos" arbitrary: pos buf s rule: less_induct)
  case less
  show ?case
  proof (cases "pos < lim")
    case False
    then have "pos = lim" using less.prems(2) by simp
    then show ?thesis by (intro exI [of _ "fmem s"] exI [of _ "dirty s"]) (simp add: file_read_loop.simps)
  next
    case True
    define c where "c = chunk pos lim"
    let ?A = "byte_at bs (unat pos)"
    note r = round_facts [OF less.prems(1) True less.prems(3,4), folded c_def]
    obtain m1 D1 where m1: "fs_memmove buf ?A c s = Ok (s\<lparr>fmem := m1, dirty := D1\<rparr>)" and fm: "file_map f n bs (s\<lparr>fmem := m1, dirty := D1\<rparr>)"
      and mp: "meta_pages f n (s\<lparr>fmem := m1, dirty := D1\<rparr>) = meta_pages f n s"
      and in1: "\<And>k. k < unat c \<Longrightarrow> m1 (buf + of_nat k) = fmem s (?A + of_nat k)"
      and out1: "\<And>a. \<forall>k<unat c. a \<noteq> buf + of_nat k \<Longrightarrow> m1 a = fmem s a"
      and data1: "\<And>a. PGNUM a \<in> data_pages n bs \<Longrightarrow> m1 a = fmem s a"
      using read_round [OF less.prems(1) True less.prems(3-5), folded c_def] by blast
    let ?s = "s\<lparr>fmem := m1, dirty := D1\<rparr>"
    have buf': "buffer (buf + c) (unat lim - unat (pos + c)) (data_pages n bs \<union> meta_pages f n ?s) ?s"
      using buffer_shift [OF less.prems(5) r(4)] r(5) mp by (simp add: buffer_def)
    have le: "pos + c \<le> lim" using r(4,5) True by (simp add: word_le_nat_alt word_less_nat_alt)
    have dec: "unat lim - unat (pos + c) < unat lim - unat pos" using r(3,4,5) True by (simp add: word_less_nat_alt)
    obtain m D where ih: "file_read_loop f (buf + c) (pos + c) lim ?s = Ok (0, ?s\<lparr>fmem := m, dirty := D\<rparr>)"
      "\<And>k. unat (pos + c) + k < unat lim \<Longrightarrow> m (buf + c + of_nat k) = fmem ?s (byte_at bs (unat (pos + c) + k))"
      "\<And>a. \<forall>k<unat lim - unat (pos + c). a \<noteq> buf + c + of_nat k \<Longrightarrow> m a = fmem ?s a"
      using less.hyps [OF dec fm le less.prems(3,4) buf'] by blast
    have "file_read_loop f buf pos lim s = Ok (0, s\<lparr>fmem := m, dirty := D\<rparr>)"
      using True r(1) m1 ih(1) by (subst file_read_loop.simps) (simp add: r(2) flip: c_def)
    moreover have "m (buf + of_nat k) = fmem s (byte_at bs (unat pos + k))" if k: "unat pos + k < unat lim" for k
    proof (cases "k < unat c")
      case True
      have "buf + of_nat k \<noteq> buf + c + of_nat j" if "j < unat lim - unat (pos + c)" for j
      proof
        assume "buf + of_nat k = buf + c + of_nat j"
        then have "(of_nat k :: u32) = of_nat (unat c + j)" by (simp add: add.assoc)
        then have "unat (of_nat k :: u32) = unat (of_nat (unat c + j) :: u32)" by (rule arg_cong)
        moreover have "unat c + j < 2 ^ 32" "k < 2 ^ 32" using that less.prems(4) r(5) True unat_u32_less [of c] by simp_all
        ultimately have "k = unat c + j" by (simp only: unat_of_nat) simp
        then show False using True by simp
      qed
      then have "m (buf + of_nat k) = m1 (buf + of_nat k)" using ih(3) by auto
      then show ?thesis using in1 [OF True] r(6) [OF True] by simp
    next
      case False
      have e: "buf + of_nat k = buf + c + of_nat (k - unat c)" using False by (simp add: of_nat_diff)
      have "m (buf + of_nat k) = m1 (byte_at bs (unat pos + k))" unfolding e using ih(2) [of "k - unat c"] False k r(5) by simp
      also have "\<dots> = fmem s (byte_at bs (unat pos + k))" using byte_at_facts(2) [OF less.prems(1)] k less.prems(3) by (intro data1) simp
      finally show ?thesis .
    qed
    moreover have "m a = fmem s a" if a: "\<forall>k<unat lim - unat pos. a \<noteq> buf + of_nat k" for a
    proof -
      have "a \<noteq> buf + c + of_nat j" if "j < unat lim - unat (pos + c)" for j
        using a [rule_format, of "unat c + j"] that r(4,5) by (simp add: ac_simps)
      then have "m a = m1 a" using ih(3) by simp
      also have "\<dots> = fmem s a" using a r(4) by (intro out1) auto
      finally show ?thesis .
    qed
    ultimately show ?thesis by (intro exI [of _ m] exI [of _ D]) simp
  qed
qed

lemma file_map_size:
  assumes "file_map f n bs s"
  shows "mapped s (PGNUM (f_size f))" "unat (f_size f) mod 4 = 0" "PGNUM (f_size f) \<in> meta_pages f n s"
  using assms word_offset_aligned(2) [of f] by (auto simp: file_map_def meta_pages_def)

lemma file_map_data_meta: "file_map f n bs s \<Longrightarrow> data_pages n bs \<inter> meta_pages f n s = {}"
  by (auto simp: file_map_def data_pages_def)

lemma file_write_eq:
  assumes "file_map f n bs s" "unat offset + unat count \<le> unat (load32 (fmem s) (f_size f))"
    and "unat (load32 (fmem s) (f_size f)) < 2 ^ 31" "unat (load32 (fmem s) (f_size f)) \<le> n * 4096"
    and "buffer buf (unat count) (data_pages n bs) s"
  shows "\<exists>m D. file_write f buf count offset s = Ok (int (unat count), s\<lparr>fmem := m, dirty := D\<rparr>) \<and> file_map f n bs (s\<lparr>fmem := m, dirty := D\<rparr>)
    \<and> (\<forall>k<unat count. m (byte_at bs (unat offset + k)) = fmem s (buf + of_nat k))
    \<and> (\<forall>a. (\<forall>p. unat offset \<le> p \<and> p < unat offset + unat count \<longrightarrow> a \<noteq> byte_at bs p) \<longrightarrow> m a = fmem s a)"
proof -
  let ?sz = "load32 (fmem s) (f_size f)" and ?lim = "offset + count"
  have lim: "unat ?lim = unat offset + unat count" using assms(2,3) by (simp add: unat_word_ariths)
  have le: "offset \<le> ?lim" "\<not> ?sz < ?lim" "unat ?lim \<le> n * 4096" "unat ?lim < 2 ^ 31" "unat ?lim - unat offset = unat count" "unat count < 2 ^ 31"
    using lim assms(2-4) by (simp_all add: word_le_nat_alt word_less_nat_alt)
  obtain m D where m: "file_write_loop f buf offset ?lim s = Ok (0, s\<lparr>fmem := m, dirty := D\<rparr>)" "file_map f n bs (s\<lparr>fmem := m, dirty := D\<rparr>)"
    "\<forall>k. unat offset + k < unat ?lim \<longrightarrow> m (byte_at bs (unat offset + k)) = fmem s (buf + of_nat k)"
    "\<forall>a. (\<forall>p. unat offset \<le> p \<and> p < unat ?lim \<longrightarrow> a \<noteq> byte_at bs p) \<longrightarrow> m a = fmem s a"
    using file_write_loop_eq [OF assms(1) le(1,3,4), unfolded le(5), OF assms(5)] by blast
  have "file_write f buf count offset s = Ok (int (unat count), s\<lparr>fmem := m, dirty := D\<rparr>)"
    using file_map_size(1) [OF assms(1)] le(2) m(1) sint_small [OF le(6)] by (simp add: file_write_def)
  then show ?thesis using m(2-4) lim by auto
qed

lemma file_read_eq:
  assumes "file_map f n bs s" "unat offset + unat count \<le> unat (load32 (fmem s) (f_size f))"
    and "unat (load32 (fmem s) (f_size f)) < 2 ^ 31" "unat (load32 (fmem s) (f_size f)) \<le> n * 4096"
    and "buffer buf (unat count) (data_pages n bs \<union> meta_pages f n s) s"
  shows "\<exists>m D. file_read f buf count offset s = Ok (int (unat count), s\<lparr>fmem := m, dirty := D\<rparr>)
    \<and> (\<forall>k<unat count. m (buf + of_nat k) = fmem s (byte_at bs (unat offset + k)))
    \<and> (\<forall>a. (\<forall>k<unat count. a \<noteq> buf + of_nat k) \<longrightarrow> m a = fmem s a)"
proof -
  let ?sz = "load32 (fmem s) (f_size f)" and ?lim = "offset + count"
  have lim: "unat ?lim = unat offset + unat count" using assms(2,3) by (simp add: unat_word_ariths)
  have le: "offset \<le> ?lim" "unat ?lim \<le> n * 4096" "unat ?lim < 2 ^ 31" "unat ?lim - unat offset = unat count" "unat count < 2 ^ 31" "unat offset < 2 ^ 31"
    using lim assms(2-4) by (simp_all add: word_le_nat_alt)
  have ge: "sint ?sz \<le> sint offset \<longleftrightarrow> unat ?sz \<le> unat offset" unfolding sint_small [OF assms(3)] sint_small [OF le(6)] by (rule of_nat_le_iff)
  show ?thesis
  proof (cases "unat ?sz \<le> unat offset")
    case True
    then have "unat count = 0" using assms(2) by simp
    moreover have "file_read f buf count offset s = Ok (0, s)" using file_map_size(1) [OF assms(1)] True ge by (simp add: file_read_def)
    ultimately show ?thesis by (intro exI [of _ "fmem s"] exI [of _ "dirty s"]) simp
  next
    case False
    have "unat (?sz - offset) = unat ?sz - unat offset" using False by (simp add: unat_sub word_le_nat_alt)
    then have "count \<le> ?sz - offset" using assms(2) unfolding word_le_nat_alt by simp
    then have mn: "min count (?sz - offset) = count" by simp
    obtain m D where m: "file_read_loop f buf offset ?lim s = Ok (0, s\<lparr>fmem := m, dirty := D\<rparr>)"
      "\<forall>k. unat offset + k < unat ?lim \<longrightarrow> m (buf + of_nat k) = fmem s (byte_at bs (unat offset + k))"
      "\<forall>a. (\<forall>k<unat ?lim - unat offset. a \<noteq> buf + of_nat k) \<longrightarrow> m a = fmem s a"
      using file_read_loop_eq [OF assms(1) le(1,2,3), unfolded le(4), OF assms(5)] unfolding le(4) by blast
    have "file_read f buf count offset s = Ok (int (unat count), s\<lparr>fmem := m, dirty := D\<rparr>)"
      using file_map_size(1) [OF assms(1)] False ge mn m(1) sint_small [OF le(5)] by (simp add: file_read_def)
    then show ?thesis using m(2,3) lim by auto
  qed
qed

text \<open>
  C37. Files keep what is written to them. Let the blocks of a file, direct or behind its indirect block, be
  allocated, distinct and in the cache, and let a write stay within the size of the file. Then \<open>file_write\<close>
  returns the count, a later \<open>file_read\<close> of the same place into another buffer returns it too and leaves
  there the bytes that were written, over block boundaries, and no other byte of the file has changed.
\<close>

theorem file_write_read:
  assumes "file_map f n bs s" "unat offset + unat count \<le> unat (load32 (fmem s) (f_size f))"
    and "unat (load32 (fmem s) (f_size f)) < 2 ^ 31" "unat (load32 (fmem s) (f_size f)) \<le> n * 4096"
    and "buffer buf (unat count) (data_pages n bs) s" "buffer buf' (unat count) (data_pages n bs \<union> meta_pages f n s) s"
  shows "\<exists>s' s''. file_write f buf count offset s = Ok (int (unat count), s') \<and> file_read f buf' count offset s' = Ok (int (unat count), s'')
    \<and> (\<forall>k<unat count. view s'' (buf' + of_nat k) = view s (buf + of_nat k))
    \<and> (\<forall>p<n * 4096. p < unat offset \<or> unat offset + unat count \<le> p \<longrightarrow> view s'' (byte_at bs p) = view s (byte_at bs p))"
proof -
  obtain m D where w: "file_write f buf count offset s = Ok (int (unat count), s\<lparr>fmem := m, dirty := D\<rparr>)" (is "_ = Ok (_, ?s)")
    and fm: "file_map f n bs (s\<lparr>fmem := m, dirty := D\<rparr>)"
    and win: "\<And>k. k < unat count \<Longrightarrow> m (byte_at bs (unat offset + k)) = fmem s (buf + of_nat k)"
    and wout: "\<And>a. \<forall>p. unat offset \<le> p \<and> p < unat offset + unat count \<longrightarrow> a \<noteq> byte_at bs p \<Longrightarrow> m a = fmem s a"
    using file_write_eq [OF assms(1-5)] by blast
  have inr: "p < n * 4096" if "p < unat offset + unat count" for p using that assms(2,4) by simp
  have meta: "m a = fmem s a" if "PGNUM a \<in> meta_pages f n s" for a
    using that byte_at_facts(3) [OF assms(1)] inr by (intro wout) metis
  have al: "unat f mod 4 = 0" using assms(1) by (simp add: file_map_def)
  have sz: "load32 (fmem ?s) (f_size f) = load32 (fmem s) (f_size f)"
    using file_map_size(2,3) [OF assms(1)] meta by (simp, intro load32_page) auto
  have "load32 m (f_indirect f) = load32 (fmem s) (f_indirect f)"
    using meta word_offset_aligned(1) [OF al] by (intro load32_page) (auto simp: meta_pages_def)
  then have "file_slot f m = file_slot f (fmem s)" by (simp add: file_slot_def fun_eq_iff)
  then have mp: "meta_pages f n ?s = meta_pages f n s" by (simp add: meta_pages_def)
  have b': "buffer buf' (unat count) (data_pages n bs \<union> meta_pages f n ?s) ?s" using assms(6) mp by (simp add: buffer_def)
  obtain m' D' where r: "file_read f buf' count offset ?s = Ok (int (unat count), ?s\<lparr>fmem := m', dirty := D'\<rparr>)" (is "_ = Ok (_, ?s')")
    and rin: "\<And>k. k < unat count \<Longrightarrow> m' (buf' + of_nat k) = m (byte_at bs (unat offset + k))"
    and rout: "\<And>a. \<forall>k<unat count. a \<noteq> buf' + of_nat k \<Longrightarrow> m' a = m a"
    using file_read_eq [OF fm, unfolded sz, OF assms(2-4) b'] by auto
  have v: "view ?s' a = m' a" "view s a = fmem s a" if "mapped s (PGNUM a)" for a using that by (simp_all add: view_def)
  have "view ?s' (buf' + of_nat k) = view s (buf + of_nat k)" if "k < unat count" for k
    using that assms(5,6) v win rin by (simp add: buffer_def)
  moreover have "view ?s' (byte_at bs p) = view s (byte_at bs p)"
    if p: "p < n * 4096" "p < unat offset \<or> unat offset + unat count \<le> p" for p
  proof -
    have "m' (byte_at bs p) = m (byte_at bs p)"
      using byte_at_facts(2) [OF assms(1) p(1)] assms(6) unfolding buffer_def by (intro rout) (metis UnI1)
    also have "\<dots> = fmem s (byte_at bs p)"
      using byte_at_inj [OF assms(1) p(1)] inr p(2) by (intro wout) (metis leD)
    finally show ?thesis using v byte_at_facts(1) [OF assms(1) p(1)] by simp
  qed
  ultimately show ?thesis using w r by blast
qed

text \<open>The root directory with one block, and a page for buffers.\<close>

definition one_block :: fsmem where
  "one_block = \<lparr>fmem = (\<lambda>_. 0)(0x10001004 := 8, 0x10001089 := 0x10, 0x10001090 := 5, 0x800000 := 77),
     mapped = (\<lambda>p. p = 65537 \<or> p = 65541 \<or> p = 2048), dirty = (\<lambda>p. p = 65537 \<or> p = 65541),
     disk = (\<lambda>_. 0), bad = (\<lambda>_. False), avail = 0, super_set = True, bitmap_set = True\<rparr>"

theorem file_write_read_witness:
  "\<exists>s' s''. file_write (s_root super) 0x800000 3 10 one_block = Ok (3, s') \<and> file_read (s_root super) 0x800100 3 10 s' = Ok (3, s'')
    \<and> view s'' 0x800100 = 77"
proof -
  let ?f = "s_root super" and ?bs = "\<lambda>_. 5"
  have a: "super = 0x10001000" "?f = 0x10001008" "f_size ?f = 0x10001088" "f_indirect ?f = 0x100010B8" "f_direct ?f 0 = 0x10001090"
    by (simp_all add: s_root_def f_direct_def f_indirect_def f_size_def fs_defs PGSIZE_def)
  have ld: "load32 (fmem one_block) 0x10001004 = 8" "load32 (fmem one_block) 0x10001088 = 4096"
    "load32 (fmem one_block) 0x10001090 = 5"
    by (simp_all add: load32_def one_block_def)
  have sl: "file_slot ?f m i = 0x10001090" if "i < 1" for m i using that a by (simp add: file_slot_def)
  have pg: "PGNUM super = 65537" "PGNUM (f_size ?f) = 65537" "PGNUM (f_indirect ?f) = 65537" "PGNUM 0x10001090 = 65537"
    unfolding a(3,4) by (simp_all add: a(1) PGNUM_div)
  have mp: "meta_pages ?f 1 one_block = {65537}" using sl by (auto simp: meta_pages_def pg)
  have r: "readable one_block" by (auto simp: readable_def coherent_def one_block_def in_diskmap_PGNUM)
  have n: "s_nblocks one_block = 8" using ld(1) by (simp add: s_nblocks_def a)
  have mapd: "mapped one_block = (\<lambda>p. p = 65537 \<or> p = 65541 \<or> p = 2048)" "super_set one_block" by (simp_all add: one_block_def)
  have al: "unat ?f mod 4 = 0" by (simp add: a(2))
  have fm: "file_map ?f 1 ?bs one_block"
    using r sl mp al unfolding file_map_def n by (simp add: mapd pg ld block_page_def inj_on_def)
  have dp: "data_pages 1 ?bs = {65541}" by (auto simp: data_pages_def block_page_def)
  have "PGNUM (0x800000 + of_nat k) = 2048" "PGNUM (0x800100 + of_nat k) = 2048" if "k < 3" for k
  proof -
    have "k = 0 \<or> k = 1 \<or> k = 2" using that by auto
    then show "PGNUM (0x800000 + of_nat k) = 2048" "PGNUM (0x800100 + of_nat k) = 2048" by (auto simp: PGNUM_div)
  qed
  then have b: "buffer 0x800000 3 (data_pages 1 ?bs) one_block" "buffer 0x800100 3 (data_pages 1 ?bs \<union> meta_pages ?f 1 one_block) one_block"
    unfolding buffer_def dp mp mapd by simp_all
  have sz: "load32 (fmem one_block) (f_size ?f) = 4096" using ld(2) by (simp add: a(3))
  have "view one_block 0x800000 = 77" by (simp add: view_def one_block_def in_diskmap_def fs_defs)
  then show ?thesis using file_write_read [OF fm, of 10 3 "0x800000" "0x800100"] b by (fastforce simp: sz)
qed

end
