(* ===== verification/Fs_Path.thy ===== *)
theory Fs_Path
  imports Fs
begin

text \<open>
  Paths: what the operations of \<open>fs/fs.c\<close> on path names return. The proofs carry a condition on the
  result through the operations; a panic satisfies every condition.
\<close>

section \<open>Conditions on results\<close>

definition yields :: "('a \<Rightarrow> bool) \<Rightarrow> ('e, 'a) res \<Rightarrow> bool" where
  "yields P m \<longleftrightarrow> (case m of Ok x \<Rightarrow> P x | Panic _ \<Rightarrow> True)"

lemma yields_simps [simp]:
  "yields P (Ok x) \<longleftrightarrow> P x" "yields P (Panic e)" "yields P (bind_res m f) \<longleftrightarrow> yields (\<lambda>x. yields P (f x)) m"
  by (simp_all add: yields_def bind_res_def split: res.splits)

lemma yieldsI: "(\<And>x. m = Ok x \<Longrightarrow> P x) \<Longrightarrow> yields P m"
  by (cases m) simp_all

lemma yields_mono: "yields Q m \<Longrightarrow> (\<And>x. Q x \<Longrightarrow> P x) \<Longrightarrow> yields P m"
  by (cases m) simp_all

text \<open>The super block is known and the drive works.\<close>

definition serving :: "fsmem \<Rightarrow> bool" where
  "serving s \<longleftrightarrow> super_set s \<and> (\<forall>i. \<not> bad s i)"

text \<open>An address that \<open>diskaddr\<close> gives.\<close>

definition block_start :: "fsmem \<Rightarrow> u32 \<Rightarrow> bool" where
  "block_start s a \<longleftrightarrow> mapped s (PGNUM super) \<and> (\<exists>b. 0 < b \<and> b < s_nblocks s \<and> a = DISKMAP + b * BLKSIZE)"

lemma grows_block_start: "grows s s' \<Longrightarrow> block_start s a \<Longrightarrow> block_start s' a"
proof -
  assume g: "grows s s'" and b: "block_start s a"
  have m: "mapped s (PGNUM super)" using b by (simp add: block_start_def)
  have al: "unat (super + 4) mod 4 = 0" "PGNUM (super + 4) = PGNUM super" by (simp_all add: fs_defs PGSIZE_def PGNUM_div)
  have "s_nblocks s' = s_nblocks s" unfolding s_nblocks_def using grows_load32 [OF g al(1)] m al(2) by simp
  then show ?thesis using b g m by (auto simp: block_start_def grows_def)
qed

lemma yields_touch: "serving s \<Longrightarrow> yields (\<lambda>s'. serving s' \<and> grows s s' \<and> mapped s' (PGNUM va)) (touch va s)"
proof (rule yieldsI)
  fix s' assume s: "serving s" and t: "touch va s = Ok s'"
  have "grows s s' \<and> mapped s' (PGNUM va)" by (rule touch_grows [OF t]) (use s in \<open>simp add: serving_def\<close>)
  then show "serving s' \<and> grows s s' \<and> mapped s' (PGNUM va)" using s by (simp add: serving_def grows_def)
qed

lemma yields_ld8: "serving s \<Longrightarrow> yields (\<lambda>(b, s'). serving s' \<and> grows s s' \<and> b = view s' va) (ld8 va s)"
  unfolding ld8_def by (simp, rule yields_mono [OF yields_touch]) (auto simp: mapped_view)

lemma yields_ld32: "serving s \<Longrightarrow> yields (\<lambda>(b, s'). serving s') (ld32 va s)"
  unfolding ld32_def by (simp, rule yields_mono [OF yields_touch]) auto

lemma yields_st8: "serving s \<Longrightarrow> yields serving (st8 va b s)"
  unfolding st8_def by (simp, rule yields_mono [OF yields_touch]) (auto simp: serving_def)

lemma yields_st32: "serving s \<Longrightarrow> yields serving (st32 va w s)"
  unfolding st32_def by (simp, rule yields_mono [OF yields_touch]) (auto simp: serving_def)

lemma yields_diskaddr: "serving s \<Longrightarrow> yields (\<lambda>(a, s'). serving s' \<and> block_start s' a) (diskaddr b s)"
proof (rule yieldsI)
  fix x assume s: "serving s" and d: "diskaddr b s = Ok x"
  obtain n s' where l: "ld32 (super + 4) s = Ok (n, s')" and b: "b \<noteq> 0" "b < n" and x: "x = (DISKMAP + b * BLKSIZE, s')"
    using d s by (auto simp: diskaddr_def serving_def bind_res_eq_Ok split: if_splits)
  have t: "touch (super + 4) s = Ok s'" "n = s_nblocks s'" using l by (auto simp: ld32_def bind_res_eq_Ok s_nblocks_def)
  have "mapped s' (PGNUM (super + 4))" using touch_grows [OF t(1)] s by (simp add: serving_def)
  moreover have "PGNUM (super + 4) = PGNUM super" by (simp add: fs_defs PGSIZE_def PGNUM_div)
  moreover have "serving s'" using yields_touch [OF s, of "super + 4"] t(1) by simp
  ultimately show "case x of (a, s') \<Rightarrow> serving s' \<and> block_start s' a"
    using b t(2) by (auto simp: x block_start_def word_neq_0_conv)
qed

lemma ide_write_loop_serving: "serving s \<Longrightarrow> serving (snd (ide_write_loop n sec p s))"
  by (induction n sec p s rule: ide_write_loop.induct) (simp_all add: serving_def)

lemma yields_flush: "serving s \<Longrightarrow> yields serving (flush_block a s)"
proof -
  assume s: "serving s"
  have "serving s'" if "ide_write_loop n sec p s = (r, s')" for n sec p r s'
    using ide_write_loop_serving [OF s, of n sec p] that by simp
  with s show ?thesis by (auto simp: flush_block_def ide_write_def sys_page_map_self_def Let_def serving_def split: prod.split)
qed

lemma yields_fill: "serving s \<Longrightarrow> yields serving (fill_up st8 n p c s)"
  by (induction n arbitrary: p s) (auto intro: yields_mono [OF yields_st8])

lemma yields_block_is_free: "serving s \<Longrightarrow> yields (\<lambda>(r, s'). serving s') (block_is_free b s)"
  by (auto simp: block_is_free_def intro!: yields_mono [OF yields_ld32])

lemmas yields_ops = yields_ld32 yields_block_is_free yields_st32 yields_flush

lemma yields_alloc_loop: "serving s \<Longrightarrow> yields (\<lambda>(r, s'). serving s') (alloc_block_loop b s)"
proof (induction "4294967296 - unat b" arbitrary: b s rule: less_induct)
  case less
  have "yields (\<lambda>(r, s'). serving s') (alloc_block_loop (b + 1) s')" if "b < n" "serving s'" for n :: u32 and s'
    using less(1) [OF _ that(2)] unat_incr [OF that(1)] counts_up [of b] by simp
  then show ?case
    by (subst alloc_block_loop.simps) (auto intro!: yields_ops [OF less(2), THEN yields_mono] yields_ops [THEN yields_mono])
qed

lemma yields_alloc: "serving s \<Longrightarrow> yields (\<lambda>(r, s'). serving s') (alloc_block s)"
  unfolding alloc_block_def by (rule yields_alloc_loop)

lemma yields_indirect: "serving s \<Longrightarrow> yields (\<lambda>(r, s'). serving s' \<and> (r = 0 \<or> r = - E_NO_DISK)) (alloc_indirect f s)"
  unfolding alloc_indirect_def fs_memset_def
  by (auto intro!: yields_alloc [THEN yields_mono] yields_diskaddr [THEN yields_mono] yields_fill [THEN yields_mono] yields_ops [THEN yields_mono])

lemma yields_walk:
  "serving s \<Longrightarrow> yields (\<lambda>(r, s'). serving s' \<and> (\<forall>e. r = Inl e \<longrightarrow> e = - E_INVAL \<or> e = - E_NO_DISK)) (file_block_walk f i True s)"
  unfolding file_block_walk_def
  by (auto intro!: yields_ops [THEN yields_mono] yields_indirect [THEN yields_mono] yields_diskaddr [THEN yields_mono])

lemma yields_get_block:
  "serving s \<Longrightarrow> yields (\<lambda>(r, s'). serving s' \<and> (case r of Inl e \<Rightarrow> e = - E_INVAL \<or> e = - E_NO_DISK | Inr a \<Rightarrow> block_start s' a)) (file_get_block f i s)"
  unfolding file_get_block_def
  by (auto intro!: yields_ops [THEN yields_mono] yields_walk [THEN yields_mono] yields_alloc [THEN yields_mono] yields_diskaddr [THEN yields_mono]
      split: sum.split)

section \<open>Directory entries\<close>

text \<open>The string at \<open>a\<close> is the name; an entry is one of the 16 of a block.\<close>

fun named :: "mem \<Rightarrow> u32 \<Rightarrow> u8 list \<Rightarrow> bool" where
  "named m a [] \<longleftrightarrow> m a = 0"
| "named m a (c # cs) \<longleftrightarrow> m a = c \<and> named m (a + 1) cs"

definition dir_entry :: "fsmem \<Rightarrow> u32 \<Rightarrow> bool" where
  "dir_entry s f \<longleftrightarrow> (\<exists>b j. 0 < b \<and> b < s_nblocks s \<and> j < 16 \<and> f = DISKMAP + b * BLKSIZE + 256 * j)"

lemma yields_name_is: "serving s \<Longrightarrow> yields (\<lambda>(r, s'). serving s' \<and> grows s s' \<and> (r \<longrightarrow> named (view s') a name)) (name_is a name s)"
proof (induction name arbitrary: a s)
  case Nil
  then show ?case by (auto intro!: yields_ld8 [THEN yields_mono])
next
  case (Cons c cs)
  show ?case using Cons(2)
    by (auto intro!: yields_ld8 [THEN yields_mono] Cons(1) [THEN yields_mono] intro: grows_trans simp: grows_def)
qed

lemma block_start_entry: "block_start s a \<Longrightarrow> j < 16 \<Longrightarrow> dir_entry s (a + 256 * of_nat j)"
proof -
  assume "block_start s a" "j < 16"
  moreover from this(2) have "(of_nat j :: u32) < 16" by (simp add: word_less_nat_alt unat_of_nat take_bit_nat_eq_self)
  ultimately show ?thesis by (auto simp: block_start_def dir_entry_def)
qed

lemma yields_find_name:
  "serving s \<Longrightarrow> block_start s a \<Longrightarrow> i + k = 16 \<Longrightarrow> yields (\<lambda>(fo, s'). serving s' \<and> block_start s' a
     \<and> (\<forall>f. fo = Some f \<longrightarrow> dir_entry s' f \<and> named (view s') f name)) (find_name k (a + 256 * of_nat i) name s)"
proof (induction k arbitrary: i s)
  case (Suc k)
  have n: "a + 256 * word_of_nat i + 256 = a + 256 * word_of_nat (Suc i)" by (simp add: algebra_simps)
  have "block_start s1 a \<and> dir_entry s1 (a + 256 * word_of_nat i)
      \<and> yields (\<lambda>(fo, s'). serving s' \<and> block_start s' a \<and> (\<forall>f. fo = Some f \<longrightarrow> dir_entry s' f \<and> named (view s') f name)) (find_name k (a + 256 * word_of_nat i + 256) name s1)"
    if "serving s1" "grows s s1" for s1
    using grows_block_start [OF that(2) Suc(3)] Suc(1) [OF that(1), of "Suc i"] Suc(4) unfolding n by (simp add: block_start_entry)
  with Suc(2) show ?case by (auto intro!: yields_name_is [THEN yields_mono])
qed simp

lemma yields_find_free:
  "serving s \<Longrightarrow> block_start s a \<Longrightarrow> i + k = 16 \<Longrightarrow> yields (\<lambda>(fo, s'). serving s' \<and> block_start s' a
     \<and> (\<forall>f. fo = Some f \<longrightarrow> dir_entry s' f)) (find_free k (a + 256 * of_nat i) s)"
proof (induction k arbitrary: i s)
  case (Suc k)
  have n: "a + 256 * word_of_nat i + 256 = a + 256 * word_of_nat (Suc i)" by (simp add: algebra_simps)
  have "block_start s1 a \<and> dir_entry s1 (a + 256 * word_of_nat i)
      \<and> yields (\<lambda>(fo, s'). serving s' \<and> block_start s' a \<and> (\<forall>f. fo = Some f \<longrightarrow> dir_entry s' f)) (find_free k (a + 256 * word_of_nat i + 256) s1)"
    if "serving s1" "grows s s1" for s1
    using grows_block_start [OF that(2) Suc(3)] Suc(1) [OF that(1), of "Suc i"] Suc(4) unfolding n by (simp add: block_start_entry)
  with Suc(2) show ?case by (auto intro!: yields_ld8 [THEN yields_mono])
qed simp

lemma yields_lookup_loop:
  "serving s \<Longrightarrow> yields (\<lambda>(r, s'). serving s' \<and> (case r of Inl e \<Rightarrow> e \<in> {- E_NOT_FOUND, - E_INVAL, - E_NO_DISK}
     | Inr f \<Rightarrow> dir_entry s' f \<and> named (view s') f name)) (dir_lookup_loop k i dir name s)"
proof (induction k arbitrary: i s)
  case (Suc k)
  have f: "yields (\<lambda>(fo, s'). serving s' \<and> block_start s' a \<and> (\<forall>f. fo = Some f \<longrightarrow> dir_entry s' f \<and> named (view s') f name)) (find_name BLKFILES a name s')"
    if "serving s'" "block_start s' a" for a s' using yields_find_name [OF that, of 0 16 name] by (simp add: BLKFILES_def)
  show ?case using Suc(2)
    by (auto intro!: yields_get_block [THEN yields_mono] f [THEN yields_mono] Suc(1) [THEN yields_mono] split: sum.splits option.splits)
qed simp

lemma yields_lookup:
  "serving s \<Longrightarrow> yields (\<lambda>(r, s'). serving s' \<and> (case r of Inl e \<Rightarrow> e \<in> {- E_NOT_FOUND, - E_INVAL, - E_NO_DISK}
     | Inr f \<Rightarrow> dir_entry s' f \<and> named (view s') f name)) (dir_lookup dir name s)"
  unfolding dir_lookup_def by (auto intro!: yields_ld32 [THEN yields_mono] yields_lookup_loop)

lemma yields_dir_alloc_loop:
  "serving s \<Longrightarrow> yields (\<lambda>(r, s'). serving s' \<and> (case r of Inl e \<Rightarrow> e \<in> {- E_INVAL, - E_NO_DISK} | Inr f \<Rightarrow> dir_entry s' f)) (dir_alloc_loop k i dir s)"
proof (induction k arbitrary: i s)
  case 0
  have "dir_entry s' a" if "block_start s' a" for s' a using block_start_entry [OF that, of 0] by simp
  then show ?case using 0 by (auto intro!: yields_ops [THEN yields_mono] yields_get_block [THEN yields_mono] split: sum.splits)
next
  case (Suc k)
  have f: "yields (\<lambda>(fo, s'). serving s' \<and> block_start s' a \<and> (\<forall>f. fo = Some f \<longrightarrow> dir_entry s' f)) (find_free BLKFILES a s')"
    if "serving s'" "block_start s' a" for a s' using yields_find_free [OF that, of 0 16] by (simp add: BLKFILES_def)
  show ?case using Suc(2)
    by (auto intro!: yields_get_block [THEN yields_mono] f [THEN yields_mono] Suc(1) [THEN yields_mono] split: sum.splits option.splits)
qed

lemma yields_dir_alloc:
  "serving s \<Longrightarrow> yields (\<lambda>(r, s'). serving s' \<and> (case r of Inl e \<Rightarrow> e \<in> {- E_INVAL, - E_NO_DISK} | Inr f \<Rightarrow> dir_entry s' f)) (dir_alloc_file dir s)"
  unfolding dir_alloc_file_def by (auto intro!: yields_ld32 [THEN yields_mono] yields_dir_alloc_loop)

section \<open>Paths\<close>

text \<open>The elements of a path that does not begin with a slash.\<close>

function path_elems :: "u8 list \<Rightarrow> u8 list list" where
  "path_elems path = (if path = [] then [] else takeWhile (\<lambda>c. c \<noteq> 47) path # path_elems (skip_slash (dropWhile (\<lambda>c. c \<noteq> 47) path)))"
  by pat_completeness auto

termination by (relation "measure length") (auto simp: path_shrinks)

declare path_elems.simps [simp del]

definition path_errors :: "int set" where
  "path_errors = {- E_NOT_FOUND, - E_BAD_PATH, - E_INVAL, - E_NO_DISK}"

lemma yields_walk_path_loop:
  "serving s \<Longrightarrow> (path = [] \<longrightarrow> Q s f) \<Longrightarrow> (\<And>s f. path \<noteq> [] \<Longrightarrow> dir_entry s f \<Longrightarrow> named (view s) f (last (path_elems path)) \<Longrightarrow> Q s f)
   \<Longrightarrow> yields (\<lambda>(w, s'). serving s' \<and> (if w_result w = 0 then Q s' (w_file w) else w_result w \<in> path_errors)) (walk_path_loop path dir f s)"
proof (induction "length path" arbitrary: path dir f s rule: less_induct)
  case less
  let ?name = "takeWhile (\<lambda>c. c \<noteq> 47) path" and ?rest = "skip_slash (dropWhile (\<lambda>c. c \<noteq> 47) path)"
  show ?case
  proof (cases "path = []")
    case True
    then show ?thesis using less(2,3) by (simp add: walk_path_loop.simps)
  next
    case False
    have el: "path_elems path = ?name # path_elems ?rest" using False by (simp add: path_elems.simps [of path])
    have ne: "?rest \<noteq> [] \<longrightarrow> path_elems ?rest \<noteq> []" by (simp add: path_elems.simps [of ?rest])
    have rec: "yields (\<lambda>(w, s'). serving s' \<and> (if w_result w = 0 then Q s' (w_file w) else w_result w \<in> path_errors)) (walk_path_loop ?rest dir' f' s')"
      if "serving s'" "dir_entry s' f'" "named (view s') f' ?name" for dir' f' s'
    proof (rule less(1) [OF path_shrinks [OF False] that(1)])
      show "?rest = [] \<longrightarrow> Q s' f'" using less(4) [of s' f'] that False el by (auto simp: path_elems.simps [of "[]"])
      show "Q s f" if "?rest \<noteq> []" "dir_entry s f" "named (view s) f (last (path_elems ?rest))" for s f
        using less(4) [of s f] that ne False el by simp
    qed
    show ?thesis using False less(2)
      by (subst walk_path_loop.simps)
        (auto simp: Let_def path_errors_def err_defs intro!: yields_ld32 [THEN yields_mono] yields_lookup [THEN yields_mono] rec [THEN yields_mono] split: sum.splits)
  qed
qed

lemma entry_block: "dir_entry s f \<Longrightarrow> \<exists>b. b \<noteq> 0 \<and> (\<exists>j<16. f = DISKMAP + b * BLKSIZE + 256 * j)"
  unfolding dir_entry_def by (metis word_neq_0_conv)

lemma yields_all: "(\<And>x. P x) \<Longrightarrow> yields P m"
  by (cases m) simp_all


text \<open>A root directory with the file \<open>a\<close> in its only block.\<close>

definition one_file :: fsmem where
  "one_file = \<lparr>fmem = (\<lambda>_. 0)(0x10001004 := 8, 0x10001089 := 0x10, 0x1000108C := 1, 0x10001090 := 5, 0x10005000 := 97),
     mapped = (\<lambda>_. True), dirty = (\<lambda>_. False), disk = (\<lambda>_. 0), bad = (\<lambda>_. False), avail = 0, super_set = True, bitmap_set = True\<rparr>"


end
