(* ===== verification/Serv.thy ===== *)
theory Serv
  imports Fs_Path
begin

text \<open>
  The file server's requests: \<open>fs/serv.c\<close>. The server keeps a table of open files; each entry has a page for
  the \<open>struct Fd\<close> that it shares with the clients that have the file open, and the reference count of this
  page tells whether a client still has it. A request arrives as a page at the address \<open>fsreq\<close>.
\<close>

section \<open>Definitions\<close>

definition MAXOPEN :: nat where "MAXOPEN = 1024"
definition FILEVA :: u32 where "FILEVA = 0xD0000000"
definition fsreq :: u32 where "fsreq = 0x0ffff000"
definition MAXPATHLEN :: nat where "MAXPATHLEN = 1024"

definition O_ACCMODE :: u32 where "O_ACCMODE = 3"
definition O_CREAT :: u32 where "O_CREAT = 0x100"
definition O_TRUNC :: u32 where "O_TRUNC = 0x200"
definition O_EXCL :: u32 where "O_EXCL = 0x400"

definition FSREQ_OPEN :: u32 where "FSREQ_OPEN = 1"
definition FSREQ_SET_SIZE :: u32 where "FSREQ_SET_SIZE = 2"
definition FSREQ_READ :: u32 where "FSREQ_READ = 3"
definition FSREQ_WRITE :: u32 where "FSREQ_WRITE = 4"
definition FSREQ_STAT :: u32 where "FSREQ_STAT = 5"
definition FSREQ_FLUSH :: u32 where "FSREQ_FLUSH = 6"
definition FSREQ_SYNC :: u32 where "FSREQ_SYNC = 8"

definition PTE_SHARE :: u32 where "PTE_SHARE = 0x400"

record OpenFile =
  o_fileid :: u32
  o_file :: u32
  o_mode :: u32
  o_fd :: u32

text \<open>
  The memory of the server, its table, and the reference counts of its pages, which also count the
  mappings of the clients.
\<close>

record server =
  fsm :: fsmem
  opentab :: "nat \<Rightarrow> OpenFile"
  pp_refs :: "nat \<Rightarrow> nat"

text \<open>The fields of \<open>struct Fd\<close>.\<close>

definition fd_dev_id :: "u32 \<Rightarrow> u32" where "fd_dev_id fd = fd"
definition fd_offset :: "u32 \<Rightarrow> u32" where "fd_offset fd = fd + 4"
definition fd_omode :: "u32 \<Rightarrow> u32" where "fd_omode fd = fd + 8"
definition fd_file_id :: "u32 \<Rightarrow> u32" where "fd_file_id fd = fd + 12"

definition on_fs :: "(fsmem \<Rightarrow> ('a \<times> fsmem) fres) \<Rightarrow> server \<Rightarrow> ('a \<times> server) fres" where
  "on_fs f s = bind_res (f (fsm s)) (\<lambda>(x, m). Ok (x, s\<lparr>fsm := m\<rparr>))"

definition do_fs :: "(fsmem \<Rightarrow> fsmem fres) \<Rightarrow> server \<Rightarrow> server fres" where
  "do_fs f s = bind_res (f (fsm s)) (\<lambda>m. Ok (s\<lparr>fsm := m\<rparr>))"

definition pageref :: "u32 \<Rightarrow> server \<Rightarrow> nat" where
  "pageref v s = (if mapped (fsm s) (PGNUM v) then pp_refs s (PGNUM v) else 0)"

definition serve_init :: "server \<Rightarrow> server" where
  "serve_init s = s\<lparr>opentab := (\<lambda>i. if i < MAXOPEN
     then (opentab s i)\<lparr>o_fileid := of_nat i, o_fd := FILEVA + of_nat i * PGSIZE\<rparr> else opentab s i)\<rparr>"

text \<open>
  Taking entry \<open>i\<close>, the code of the case 1; the result is the file id as an \<open>int\<close>, and the entry.
\<close>

definition openfile_take :: "nat \<Rightarrow> server \<Rightarrow> ((int \<times> nat) \<times> server) fres" where
  "openfile_take i s =
     (let o' = (opentab s i)\<lparr>o_fileid := o_fileid (opentab s i) + of_nat MAXOPEN\<rparr>
      in bind_res (do_fs (fs_memset (o_fd o') 0 PGSIZE) (s\<lparr>opentab := (opentab s)(i := o')\<rparr>)) (\<lambda>s.
           Ok ((sint (o_fileid (opentab s i)), i), s)))"

text \<open>The loop of \<open>openfile_alloc\<close> at entry \<open>i\<close> with \<open>k\<close> left.\<close>

fun openfile_alloc_loop :: "nat \<Rightarrow> nat \<Rightarrow> server \<Rightarrow> ((int \<times> nat) \<times> server) fres" where
  "openfile_alloc_loop 0 i s = Ok ((- E_MAX_OPEN, i), s)"
| "openfile_alloc_loop (Suc k) i s =
     (let fd = o_fd (opentab s i)
      in if pageref fd s = 0
         then let (r, m) = sys_page_alloc_zero fd (fsm s)
              in if r < 0 then Ok ((r, i), s)
                 else openfile_take i (s\<lparr>fsm := m, pp_refs := (pp_refs s)(PGNUM fd := 1)\<rparr>)
         else if pageref fd s = 1 then openfile_take i s
         else openfile_alloc_loop k (i + 1) s)"

definition openfile_alloc :: "server \<Rightarrow> ((int \<times> nat) \<times> server) fres" where
  "openfile_alloc s = openfile_alloc_loop MAXOPEN 0 s"

text \<open>The entry of an id, if it is open.\<close>

definition openfile_lookup :: "u32 \<Rightarrow> server \<Rightarrow> nat option" where
  "openfile_lookup fileid s =
     (let i = unat fileid mod MAXOPEN; f = opentab s i
      in if pageref (o_fd f) s \<le> 1 \<or> o_fileid f \<noteq> fileid then None else Some i)"

text \<open>The copy of the path in the request, cut at its end or at the length of the buffer.\<close>

fun read_bytes :: "nat \<Rightarrow> u32 \<Rightarrow> fsmem \<Rightarrow> (u8 list \<times> fsmem) fres" where
  "read_bytes 0 a s = Ok ([], s)"
| "read_bytes (Suc n) a s =
     bind_res (ld8 a s) (\<lambda>(b, s). bind_res (read_bytes n (a + 1) s) (\<lambda>(bs, s). Ok (b # bs, s)))"

definition read_path :: "u32 \<Rightarrow> fsmem \<Rightarrow> (u8 list \<times> fsmem) fres" where
  "read_path a s =
     bind_res (read_bytes MAXPATHLEN a s) (\<lambda>(bs, s). Ok (takeWhile (\<lambda>b. b \<noteq> 0) (take (MAXPATHLEN - 1) bs), s))"

text \<open>Opening or creating the file of \<open>serve_open\<close>, with \<open>try_open\<close>, and cutting it.\<close>

definition open_file :: "u8 list \<Rightarrow> u32 \<Rightarrow> fsmem \<Rightarrow> ((int + u32) \<times> fsmem) fres" where
  "open_file path omode s =
     (if omode AND O_CREAT \<noteq> 0
      then bind_res (file_create path s) (\<lambda>(r, s).
        case r of
          Inl e \<Rightarrow> if omode AND O_EXCL = 0 \<and> e = - E_FILE_EXISTS then file_open path s else Ok (Inl e, s)
        | Inr f \<Rightarrow> Ok (Inr f, s))
      else file_open path s)"

definition truncate_open :: "u32 \<Rightarrow> u32 \<Rightarrow> fsmem \<Rightarrow> (int \<times> fsmem) fres" where
  "truncate_open f omode s = (if omode AND O_TRUNC \<noteq> 0 then file_set_size f 0 s else Ok (0, s))"

text \<open>The result, the page to return, 0 for none, and its permissions.\<close>

definition serve_open :: "u32 \<Rightarrow> u32 \<Rightarrow> server \<Rightarrow> ((int \<times> u32 \<times> u32) \<times> server) fres" where
  "serve_open req perm s =
     bind_res (on_fs (read_path req) s) (\<lambda>(path, s).
       bind_res (openfile_alloc s) (\<lambda>((r, i), s).
         if r < 0 then Ok ((r, 0, perm), s)
         else bind_res (on_fs (ld32 (req + 1024)) s) (\<lambda>(omode, s).
           bind_res (on_fs (open_file path omode) s) (\<lambda>(r, s).
             case r of Inl e \<Rightarrow> Ok ((e, 0, perm), s)
             | Inr f \<Rightarrow>
                 bind_res (on_fs (truncate_open f omode) s) (\<lambda>(r, s).
                   if r < 0 then Ok ((r, 0, perm), s)
                   else bind_res (on_fs (file_open path) s) (\<lambda>(r, s).
                     case r of Inl e \<Rightarrow> Ok ((e, 0, perm), s)
                     | Inr f \<Rightarrow>
                         let fd = o_fd (opentab s i)
                         in bind_res (do_fs (st32 (fd_file_id fd) (o_fileid (opentab s i)))
                              (s\<lparr>opentab := (opentab s)(i := (opentab s i)\<lparr>o_file := f, o_mode := omode\<rparr>)\<rparr>)) (\<lambda>s.
                            bind_res (do_fs (st32 (fd_omode fd) (omode AND O_ACCMODE)) s) (\<lambda>s.
                            bind_res (do_fs (st32 (fd_dev_id fd) 102) s) (\<lambda>s.
                              Ok ((0, fd, PTE_P OR PTE_U OR PTE_W OR PTE_SHARE), s))))))))))"

definition serve_set_size :: "u32 \<Rightarrow> server \<Rightarrow> (int \<times> server) fres" where
  "serve_set_size req s =
     bind_res (on_fs (ld32 req) s) (\<lambda>(fileid, s).
       case openfile_lookup fileid s of None \<Rightarrow> Ok (- E_INVAL, s)
       | Some i \<Rightarrow> bind_res (on_fs (ld32 (req + 4)) s) (\<lambda>(sz, s). on_fs (file_set_size (o_file (opentab s i)) sz) s))"

definition serve_read :: "u32 \<Rightarrow> server \<Rightarrow> (int \<times> server) fres" where
  "serve_read ipc s =
     bind_res (on_fs (ld32 ipc) s) (\<lambda>(fileid, s).
       case openfile_lookup fileid s of None \<Rightarrow> Ok (- E_INVAL, s)
       | Some i \<Rightarrow>
           let fd = o_fd (opentab s i)
           in bind_res (on_fs (ld32 (ipc + 4)) s) (\<lambda>(n, s).
             bind_res (on_fs (ld32 (fd_offset fd)) s) (\<lambda>(offset, s).
               bind_res (on_fs (file_read (o_file (opentab s i)) ipc (min n PGSIZE) offset) s) (\<lambda>(r, s).
                 if r < 0 then Ok (r, s)
                 else bind_res (on_fs (ld32 (fd_offset fd)) s) (\<lambda>(offset, s).
                   bind_res (do_fs (st32 (fd_offset fd) (offset + of_int r)) s) (\<lambda>s. Ok (r, s)))))))"

definition serve_write :: "u32 \<Rightarrow> server \<Rightarrow> (int \<times> server) fres" where
  "serve_write req s =
     bind_res (on_fs (ld32 req) s) (\<lambda>(fileid, s).
       case openfile_lookup fileid s of None \<Rightarrow> Ok (- E_INVAL, s)
       | Some i \<Rightarrow>
           let fd = o_fd (opentab s i)
           in bind_res (on_fs (ld32 (req + 4)) s) (\<lambda>(n, s).
             bind_res (on_fs (ld32 (fd_offset fd)) s) (\<lambda>(offset, s).
               bind_res (on_fs (file_write (o_file (opentab s i)) (req + 8) n offset) s) (\<lambda>(r, s).
                 if r < 0 then Ok (r, s)
                 else bind_res (on_fs (ld32 (fd_offset fd)) s) (\<lambda>(offset, s).
                   bind_res (do_fs (st32 (fd_offset fd) (offset + of_int r)) s) (\<lambda>s. Ok (r, s)))))))"

text \<open>\<open>strcpy\<close> in the memory of the server; a string that does not end in the address space is a panic here.\<close>

fun fs_strcpy :: "nat \<Rightarrow> u32 \<Rightarrow> u32 \<Rightarrow> fsmem \<Rightarrow> fsmem fres" where
  "fs_strcpy 0 dst src s = Panic Runaway_string"
| "fs_strcpy (Suc k) dst src s =
     bind_res (ld8 src s) (\<lambda>(b, s). bind_res (st8 dst b s) (\<lambda>s. if b = 0 then Ok s else fs_strcpy k (dst + 1) (src + 1) s))"

definition serve_stat :: "u32 \<Rightarrow> server \<Rightarrow> (int \<times> server) fres" where
  "serve_stat ipc s =
     bind_res (on_fs (ld32 ipc) s) (\<lambda>(fileid, s).
       case openfile_lookup fileid s of None \<Rightarrow> Ok (- E_INVAL, s)
       | Some i \<Rightarrow>
           let f = o_file (opentab s i)
           in bind_res (do_fs (fs_strcpy (2 ^ 32) ipc f) s) (\<lambda>s.
             bind_res (on_fs (ld32 (f_size f)) s) (\<lambda>(sz, s).
               bind_res (do_fs (st32 (ipc + 128) sz) s) (\<lambda>s.
                 bind_res (on_fs (ld32 (f_type f)) s) (\<lambda>(ty, s).
                   bind_res (do_fs (st32 (ipc + 132) (if ty = FTYPE_DIR then 1 else 0)) s) (\<lambda>s. Ok (0, s)))))))"

definition serve_flush :: "u32 \<Rightarrow> server \<Rightarrow> (int \<times> server) fres" where
  "serve_flush req s =
     bind_res (on_fs (ld32 req) s) (\<lambda>(fileid, s).
       case openfile_lookup fileid s of None \<Rightarrow> Ok (- E_INVAL, s)
       | Some i \<Rightarrow> bind_res (do_fs (file_flush (o_file (opentab s i))) s) (\<lambda>s. Ok (0, s)))"

definition serve_sync :: "server \<Rightarrow> (int \<times> server) fres" where
  "serve_sync s = bind_res (do_fs fs_sync s) (\<lambda>s. Ok (0, s))"

definition handlers :: "u32 \<Rightarrow> (server \<Rightarrow> (int \<times> server) fres) option" where
  "handlers req =
     (if req = FSREQ_READ then Some (serve_read fsreq) else if req = FSREQ_STAT then Some (serve_stat fsreq)
      else if req = FSREQ_FLUSH then Some (serve_flush fsreq) else if req = FSREQ_WRITE then Some (serve_write fsreq)
      else if req = FSREQ_SET_SIZE then Some (serve_set_size fsreq) else if req = FSREQ_SYNC then Some serve_sync else None)"

text \<open>
  One round of \<open>serve\<close>: \<open>ipc_recv\<close> has mapped the page of the request; the reply, if there is one, is the result,
  the page and its permissions that \<open>ipc_send\<close> gets.
\<close>

definition map_request :: "(nat \<Rightarrow> u8) \<Rightarrow> server \<Rightarrow> server" where
  "map_request page s = s\<lparr>fsm := (fsm s)\<lparr>mapped := (mapped (fsm s))(PGNUM fsreq := True),
     fmem := (\<lambda>a. if PGNUM a = PGNUM fsreq then page (unat (PGOFF a)) else fmem (fsm s) a)\<rparr>\<rparr>"

definition unmap_request :: "server \<Rightarrow> server" where
  "unmap_request s = s\<lparr>fsm := snd (sys_page_unmap_self fsreq (fsm s))\<rparr>"

definition serve_round :: "u32 \<Rightarrow> u32 \<Rightarrow> (nat \<Rightarrow> u8) \<Rightarrow> server \<Rightarrow> ((int \<times> u32 \<times> u32) option \<times> server) fres" where
  "serve_round req perm page s =
     (if perm AND PTE_P = 0 then Ok (None, s)
      else let s = map_request page s
           in bind_res
                (if req = FSREQ_OPEN then serve_open fsreq perm s
                 else case handlers req of
                   Some h \<Rightarrow> bind_res (h s) (\<lambda>(r, s). Ok ((r, 0, perm), s))
                 | None \<Rightarrow> Ok ((- E_INVAL, 0, perm), s))
                (\<lambda>(reply, s). Ok (Some reply, unmap_request s)))"

section \<open>File ids\<close>

text \<open>
  The ids of an entry stay congruent to its index. A file is open while a client has the page of its
  entry; the id of a request is its first word.
\<close>

definition table_ok :: "server \<Rightarrow> bool" where
  "table_ok s \<longleftrightarrow> (\<forall>i<MAXOPEN. unat (o_fileid (opentab s i)) mod MAXOPEN = i \<and> o_fd (opentab s i) = FILEVA + of_nat i * PGSIZE)"

definition file_is_open :: "server \<Rightarrow> u32 \<Rightarrow> bool" where
  "file_is_open s fileid \<longleftrightarrow> (\<exists>i<MAXOPEN. o_fileid (opentab s i) = fileid \<and> pageref (o_fd (opentab s i)) s > 1)"

definition request_id :: "(nat \<Rightarrow> u8) \<Rightarrow> u32" where
  "request_id page = load32 (\<lambda>a. page (unat a)) 0"

lemma serve_init_ok: "table_ok (serve_init s)"
  by (simp add: table_ok_def serve_init_def MAXOPEN_def unat_of_nat take_bit_nat_eq_self)

lemma lookup_open:
  assumes "table_ok s"
  shows "openfile_lookup fileid s = (if file_is_open s fileid then Some (unat fileid mod MAXOPEN) else None)"
proof -
  have "file_is_open s fileid \<longleftrightarrow> (let i = unat fileid mod MAXOPEN in o_fileid (opentab s i) = fileid \<and> pageref (o_fd (opentab s i)) s > 1)"
    using assms unfolding file_is_open_def table_ok_def Let_def by (auto simp: MAXOPEN_def intro!: exI [of _ "unat fileid mod 1024"])
  then show ?thesis by (auto simp: openfile_lookup_def Let_def)
qed

lemma yields_on_fs: "yields (\<lambda>(x, s'). opentab s' = opentab s \<and> pp_refs s' = pp_refs s) (on_fs f s)"
  unfolding on_fs_def yields_simps by (rule yields_all) (simp split: prod.split)

lemma yields_do_fs: "yields (\<lambda>s'. opentab s' = opentab s \<and> pp_refs s' = pp_refs s) (do_fs f s)"
  unfolding do_fs_def yields_simps by (rule yields_all) simp

lemmas yields_fs = yields_on_fs [THEN yields_mono] yields_do_fs [THEN yields_mono]

lemma handlers_keep: "handlers req = Some h \<Longrightarrow> yields (\<lambda>(r, s'). opentab s' = opentab s) (h s)"
  by (auto simp: handlers_def serve_read_def serve_write_def serve_stat_def serve_flush_def serve_set_size_def serve_sync_def Let_def
      intro!: yields_fs split: if_splits option.split)

text \<open>What taking an entry does to the table, for an entry that no client has.\<close>

definition takes :: "server \<Rightarrow> nat \<Rightarrow> (nat \<Rightarrow> OpenFile) \<Rightarrow> bool" where
  "takes s i tab \<longleftrightarrow> i < MAXOPEN \<and> pageref (o_fd (opentab s i)) s \<le> 1 \<and> o_fileid (tab i) = o_fileid (opentab s i) + 1024
     \<and> o_fd (tab i) = o_fd (opentab s i) \<and> (\<forall>j. j \<noteq> i \<longrightarrow> tab j = opentab s j)"

lemma takes_ok: "table_ok s \<Longrightarrow> takes s i (opentab s') \<Longrightarrow> table_ok s'"
proof -
  assume t: "table_ok s" and k: "takes s i (opentab s')"
  have "unat (w + 1024 :: u32) mod 1024 = unat w mod 1024" for w
    using mod_mod_cancel [of 1024 4294967296 "unat w + 1024"] by (simp add: unat_word_ariths)
  then have "unat (o_fileid (opentab s' j)) mod MAXOPEN = j \<and> o_fd (opentab s' j) = FILEVA + of_nat j * PGSIZE" if "j < MAXOPEN" for j
    using t k that by (cases "j = i") (auto simp: table_ok_def takes_def MAXOPEN_def)
  then show ?thesis by (simp add: table_ok_def)
qed

lemma takes_later:
  "takes s i tab \<Longrightarrow> \<exists>j. takes s j (tab(i := (tab i)\<lparr>o_file := f, o_mode := m\<rparr>)) \<and> (o_fd (tab i) = 0 \<or> o_fd (tab i) = o_fd (opentab s j))"
  by (rule exI [of _ i]) (simp add: takes_def)

lemma yields_take:
  assumes "i < MAXOPEN" "pageref (o_fd (opentab s i)) s \<le> 1" "opentab s1 = opentab s"
  shows "yields (\<lambda>((r, i), s'). takes s i (opentab s')) (openfile_take i s1)"
  using assms by (auto simp: openfile_take_def Let_def takes_def MAXOPEN_def intro!: yields_fs)

lemma yields_alloc_loop_open:
  "i + k = MAXOPEN \<Longrightarrow> yields (\<lambda>((r, j), s'). r < 0 \<and> s' = s \<or> takes s j (opentab s')) (openfile_alloc_loop k i s)"
proof (induction k arbitrary: i)
  case 0
  show ?case by (simp add: err_defs)
next
  case (Suc k)
  have E: "r < 0 \<and> m = fsm s" if "sys_page_alloc_zero fd (fsm s) = (r, m)" "r < 0" for fd r m
    using that by (auto simp: sys_page_alloc_zero_def split: if_splits)
  have "i < MAXOPEN" using Suc(2) by simp
  then have "yields (\<lambda>((r, j), s'). r < 0 \<and> s' = s \<or> takes s j (opentab s')) (openfile_take i s1)"
    if "pageref (o_fd (opentab s i)) s \<le> 1" "opentab s1 = opentab s" for s1
    using yields_take [OF _ that] by (auto elim: yields_mono)
  then show ?case using Suc by (auto simp: Let_def split: prod.split)
qed

text \<open>Reads of the request page, which is mapped, leave the server as it is.\<close>

lemma read_bytes_mapped:
  "\<forall>k<n. mapped s (PGNUM (a + of_nat k)) \<Longrightarrow> \<exists>bs. read_bytes n a s = Ok (bs, s)"
proof (induction n arbitrary: a)
  case (Suc n)
  have "mapped s (PGNUM a)" using Suc(2) by force
  moreover have "mapped s (PGNUM (a + 1 + of_nat k))" if "k < n" for k using Suc(2) that by (auto simp: add.assoc dest: spec [of _ "Suc k"])
  ultimately show ?case using Suc(1) [of "a + 1"] by (auto simp: ld8_def touch_mapped)
qed simp

lemma fsreq_page: "k < 4096 \<Longrightarrow> PGNUM (fsreq + of_nat k) = 0xffff"
proof -
  assume k: "k < 4096"
  then have "unat (fsreq + of_nat k) = 0xffff * 4096 + k"
    by (simp add: fsreq_def unat_word_ariths unat_of_nat take_bit_nat_eq_self)
  then show ?thesis using k by (simp add: PGNUM_div)
qed

lemma read_path_mapped: "mapped (fsm s) 0xffff \<Longrightarrow> \<exists>path. on_fs (read_path fsreq) s = Ok (path, s)"
  using read_bytes_mapped [of MAXPATHLEN "fsm s" fsreq] fsreq_page by (auto simp: on_fs_def read_path_def MAXPATHLEN_def)

lemma yields_open:
  assumes "mapped (fsm s) 0xffff"
  shows "yields (\<lambda>((r, fd, perm'), s'). (fd = 0 \<and> r < 0 \<and> opentab s' = opentab s)
     \<or> (\<exists>i. takes s i (opentab s') \<and> (fd = 0 \<or> fd = o_fd (opentab s i)))) (serve_open fsreq perm s)"
proof -
  obtain path where p: "on_fs (read_path fsreq) s = Ok (path, s)" using read_path_mapped [OF assms] by blast
  have a: "yields (\<lambda>((r, j), s'). r < 0 \<and> s' = s \<or> takes s j (opentab s')) (openfile_alloc s)"
    unfolding openfile_alloc_def by (rule yields_alloc_loop_open) simp
  show ?thesis unfolding serve_open_def p yields_simps bind_res_simps prod.case
    by (rule a [THEN yields_mono]) (auto intro!: yields_fs takes_later split: sum.split simp: Let_def)
qed

lemma pageref_map_request: "table_ok s \<Longrightarrow> i < MAXOPEN \<Longrightarrow> pageref (o_fd (opentab s i)) (map_request page s) = pageref (o_fd (opentab s i)) s"
proof -
  assume "table_ok s" "i < MAXOPEN"
  then have "o_fd (opentab s i) = FILEVA + of_nat i * PGSIZE" "i < 1024" by (simp_all add: table_ok_def MAXOPEN_def)
  moreover from this(2) have "unat (FILEVA + of_nat i * PGSIZE) = 0xD0000000 + i * 4096"
    by (simp add: FILEVA_def PGSIZE_def unat_word_ariths unat_of_nat take_bit_nat_eq_self)
  ultimately have "PGNUM (o_fd (opentab s i)) \<noteq> PGNUM fsreq" using fsreq_page [of 0] by (simp add: PGNUM_div)
  then show ?thesis by (simp add: pageref_def map_request_def)
qed

lemma ld_request: "on_fs (ld32 fsreq) (map_request page s) = Ok (request_id page, map_request page s)"
proof -
  have o: "PGNUM (fsreq + of_nat k) = PGNUM fsreq \<and> unat (PGOFF (fsreq + of_nat k)) = k" if "k < 4" for k
  proof -
    have "unat (fsreq + of_nat k) = 0xffff * 4096 + k" using that
      by (simp add: fsreq_def unat_word_ariths unat_of_nat take_bit_nat_eq_self)
    then show ?thesis using that fsreq_page [of k] fsreq_page [of 0] mod_mult_self3 [of 65535 4096 k] by (simp add: PGOFF_mod)
  qed
  have m: "mapped (fsm (map_request page s)) (PGNUM fsreq)" by (simp add: map_request_def)
  have "load32 (fmem (fsm (map_request page s))) fsreq = request_id page"
    using o [of 0] o [of 1] o [of 2] o [of 3] by (simp add: load32_def request_id_def map_request_def)
  then show ?thesis by (simp add: on_fs_def ld32_def touch_mapped [OF m])
qed

lemma not_open_map_request: "table_ok s \<Longrightarrow> table_ok (map_request page s) \<and> file_is_open (map_request page s) = file_is_open s"
proof
  assume t: "table_ok s"
  show "table_ok (map_request page s)" using t by (simp add: table_ok_def map_request_def)
  have "opentab (map_request page s) = opentab s" by (simp add: map_request_def)
  then show "file_is_open (map_request page s) = file_is_open s"
    using pageref_map_request [OF t, of _ page] unfolding file_is_open_def fun_eq_iff by auto
qed


text \<open>A server that has started, with no file open.\<close>

definition started :: server where
  "started = serve_init \<lparr>fsm = one_file, opentab = (\<lambda>_. \<lparr>o_fileid = 0, o_file = 0, o_mode = 1, o_fd = 0\<rparr>), pp_refs = (\<lambda>_. 0)\<rparr>"


end
