(* ===== verification/Kdebug.thy ===== *)
theory Kdebug
  imports Pgtable Cstring "HOL-Library.Signed_Division"
begin

text \<open>
  Symbol lookup for the kernel's back traces: \<open>kern/kdebug.c\<close>. A table of stabs is a function from indexes.
  A stab has 12 bytes, so the indexes are far below the range of an \<open>int\<close> and the sum of two of them does
  not overflow: they are integers. The loop of \<open>stab_binsearch\<close> is a partial function, so that its
  termination is a theorem.
\<close>

section \<open>Definitions\<close>

record Stab =
  n_strx :: u32
  n_type :: u8
  n_other :: u8
  n_desc :: u16
  n_value :: u32

definition N_FUN :: u8 where "N_FUN = 0x24"
definition N_SLINE :: u8 where "N_SLINE = 0x44"
definition N_SO :: u8 where "N_SO = 0x64"
definition N_SOL :: u8 where "N_SOL = 0x84"
definition N_PSYM :: u8 where "N_PSYM = 0xa0"

text \<open>The inner loop: down from \<open>m\<close> to a stab of the type, not below \<open>l\<close>.\<close>

function stab_down :: "(int \<Rightarrow> Stab) \<Rightarrow> u8 \<Rightarrow> int \<Rightarrow> int \<Rightarrow> int" where
  "stab_down stabs ty l m = (if l \<le> m \<and> n_type (stabs m) \<noteq> ty then stab_down stabs ty l (m - 1) else m)"
  by pat_completeness auto

termination by (relation "measure (\<lambda>(stabs, ty, l, m). nat (m - l + 1))") auto

declare stab_down.simps [simp del]

text \<open>The search; the result is \<open>*region_left\<close>, \<open>*region_right\<close> and \<open>any_matches\<close> at its end.\<close>

partial_function (option) stab_loop ::
  "(int \<Rightarrow> Stab) \<Rightarrow> u8 \<Rightarrow> int \<Rightarrow> int \<Rightarrow> u32 \<Rightarrow> int \<Rightarrow> int \<Rightarrow> bool \<Rightarrow> (int \<times> int \<times> bool) option" where
  "stab_loop stabs ty l r addr left right any =
     (if l \<le> r
      then let true_m = (l + r) sdiv 2; m = stab_down stabs ty l true_m
           in if m < l then stab_loop stabs ty (true_m + 1) r addr left right any
              else if n_value (stabs m) < addr then stab_loop stabs ty (true_m + 1) r addr m right True
              else if n_value (stabs m) > addr then stab_loop stabs ty l (m - 1) addr left (m - 1) True
              else stab_loop stabs ty m r (addr + 1) m right True
      else Some (left, right, any))"

definition stab_binsearch :: "(int \<Rightarrow> Stab) \<Rightarrow> int \<Rightarrow> int \<Rightarrow> u8 \<Rightarrow> u32 \<Rightarrow> (int \<times> int) option" where
  "stab_binsearch stabs region_left region_right ty addr =
     map_option (\<lambda>(left, right, any).
         if \<not> any then (left, left - 1) else (stab_down stabs ty (left + 1) right, right))
       (stab_loop stabs ty region_left region_right addr region_left region_right False)"

section \<open>Looking up an address\<close>

text \<open>
  The tables are read from a memory \<open>m\<close>, the bytes that the kernel sees through the current address
  space; a fault of such a read is not modelled. The pointers into the string table are addresses, and
  \<open>None\<close> is the literal \<open><unknown>\<close>. The difference of two pointers to stabs is their distance divided
  by the 12 bytes of a stab.
\<close>

record Eipdebuginfo =
  eip_file :: "u32 option"
  eip_line :: int
  eip_fn_name :: "u32 option"
  eip_fn_namelen :: int
  eip_fn_addr :: u32
  eip_fn_narg :: int

record stab_bounds =
  stabs_begin :: u32
  stabs_end :: u32
  stabstr_begin :: u32
  stabstr_end :: u32

definition USTABDATA :: u32 where "USTABDATA = PTSIZE div 2"

definition stab_at :: "mem \<Rightarrow> u32 \<Rightarrow> int \<Rightarrow> Stab" where
  "stab_at m p i =
     (let a = p + 12 * of_int i
      in \<lparr>n_strx = load32 m a, n_type = m (a + 4), n_other = m (a + 5),
          n_desc = ucast (m (a + 6)) OR push_bit 8 (ucast (m (a + 7))), n_value = load32 m (a + 8)\<rparr>)"

definition user_stab_data :: "mem \<Rightarrow> stab_bounds" where
  "user_stab_data m = \<lparr>stabs_begin = load32 m USTABDATA, stabs_end = load32 m (USTABDATA + 4),
     stabstr_begin = load32 m (USTABDATA + 8), stabstr_end = load32 m (USTABDATA + 12)\<rparr>"

definition stab_count :: "stab_bounds \<Rightarrow> int" where
  "stab_count b = sint (stabs_end b - stabs_begin b) sdiv 12"

text \<open>The loops back to the stab of the file name and over the parameters of the function.\<close>

function stab_file :: "(int \<Rightarrow> Stab) \<Rightarrow> int \<Rightarrow> int \<Rightarrow> int" where
  "stab_file stabs lfile lline =
     (if lline \<ge> lfile \<and> n_type (stabs lline) \<noteq> N_SOL \<and> (n_type (stabs lline) \<noteq> N_SO \<or> n_value (stabs lline) = 0)
      then stab_file stabs lfile (lline - 1) else lline)"
  by pat_completeness auto

termination by (relation "measure (\<lambda>(stabs, lfile, lline). nat (lline - lfile + 1))") auto

declare stab_file.simps [simp del]

function stab_nargs :: "(int \<Rightarrow> Stab) \<Rightarrow> int \<Rightarrow> int \<Rightarrow> int" where
  "stab_nargs stabs lline rfun =
     (if lline < rfun \<and> n_type (stabs lline) = N_PSYM then 1 + stab_nargs stabs (lline + 1) rfun else 0)"
  by pat_completeness auto

termination by (relation "measure (\<lambda>(stabs, lline, rfun). nat (rfun - lline))") auto

declare stab_nargs.simps [simp del]

text \<open>What is found of the function, and the address and region to search for the line with.\<close>

definition stab_function ::
  "(int \<Rightarrow> Stab) \<Rightarrow> stab_bounds \<Rightarrow> u32 \<Rightarrow> int \<times> int \<Rightarrow> int \<times> int \<Rightarrow> Eipdebuginfo \<Rightarrow> Eipdebuginfo \<times> u32 \<times> int \<times> int" where
  "stab_function stabs b addr file func info =
     (if fst func \<le> snd func
      then let st = stabs (fst func);
               info = (if n_strx st < stabstr_end b - stabstr_begin b
                       then info\<lparr>eip_fn_name := Some (stabstr_begin b + n_strx st)\<rparr> else info)
           in (info\<lparr>eip_fn_addr := n_value st\<rparr>, addr - n_value st, func)
      else (info\<lparr>eip_fn_addr := addr\<rparr>, addr, file))"

definition fn_namelen :: "mem \<Rightarrow> u32 option \<Rightarrow> int option" where
  "fn_namelen m name =
     (case name of None \<Rightarrow> Some 9 | Some p \<Rightarrow> map_option (\<lambda>q. sint (q - p)) (strfind m p 58))"

text \<open>The search in the tables; the result is \<open>None\<close> when \<open>strfind\<close> runs on forever.\<close>

definition debuginfo_search :: "mem \<Rightarrow> stab_bounds \<Rightarrow> u32 \<Rightarrow> Eipdebuginfo \<Rightarrow> (int \<times> Eipdebuginfo) option" where
  "debuginfo_search m b addr info =
     (let stabs = stab_at m (stabs_begin b)
      in if stabstr_end b \<le> stabstr_begin b \<or> m (stabstr_end b - 1) \<noteq> 0 then Some (- 1, info)
         else Option.bind (stab_binsearch stabs 0 (stab_count b - 1) N_SO addr) (\<lambda>file.
           if fst file = 0 then Some (- 1, info)
           else Option.bind (stab_binsearch stabs (fst file) (snd file) N_FUN addr) (\<lambda>func.
             let (info, addr, lline, rline) = stab_function stabs b addr file func info
             in Option.bind (fn_namelen m (eip_fn_name info)) (\<lambda>len.
               Option.bind (stab_binsearch stabs lline rline N_SLINE addr) (\<lambda>(lline, rline).
                 let info = info\<lparr>eip_fn_namelen := len,
                       eip_line := (if lline \<le> rline then uint (n_desc (stabs lline)) else - 1)\<rparr>;
                     lline = stab_file stabs (fst file) lline;
                     info = (if lline \<ge> fst file \<and> n_strx (stabs lline) < stabstr_end b - stabstr_begin b
                             then info\<lparr>eip_file := Some (stabstr_begin b + n_strx (stabs lline))\<rparr> else info);
                     narg = (if fst func < snd func then stab_nargs stabs (fst func + 1) (snd func) else 0)
                 in Some (0, info\<lparr>eip_fn_narg := narg\<rparr>))))))"

text \<open>The bounds of the tables of the kernel, \<open>kstab\<close>, are chosen by the linker.\<close>

definition debuginfo_eip ::
  "stab_bounds \<Rightarrow> mem \<Rightarrow> u32 \<Rightarrow> kstate \<Rightarrow> ((int \<times> Eipdebuginfo) option \<times> kstate) kres" where
  "debuginfo_eip kstab m addr s =
     (let info = \<lparr>eip_file = None, eip_line = 0, eip_fn_name = None, eip_fn_namelen = 9, eip_fn_addr = addr, eip_fn_narg = 0\<rparr>
      in if addr \<ge> ULIM then Ok (debuginfo_search m kstab addr info, s)
         else case curenv s of None \<Rightarrow> Panic Null_curenv
         | Some e \<Rightarrow>
             bind_res (user_mem_check e USTABDATA 16 0 s) (\<lambda>(r, s).
               if r \<noteq> 0 then Ok (Some (- 1, info), s)
               else
                 let b = user_stab_data m
                 in bind_res (user_mem_check e (stabs_begin b) (of_int (stab_count b)) 0 s) (\<lambda>(r, s).
                      if r \<noteq> 0 then Ok (Some (- 1, info), s)
                      else bind_res (user_mem_check e (stabstr_begin b) (of_int (stab_count b)) 0 s) (\<lambda>(r, s).
                        if r \<noteq> 0 then Ok (Some (- 1, info), s)
                        else Ok (debuginfo_search m b addr info, s)))))"

section \<open>The search ends\<close>

lemma stab_down_step:
  "l \<le> m \<Longrightarrow> n_type (stabs m) \<noteq> ty \<Longrightarrow> stab_down stabs ty l m = stab_down stabs ty l (m - 1)"
  "\<not> (l \<le> m \<and> n_type (stabs m) \<noteq> ty) \<Longrightarrow> stab_down stabs ty l m = m"
  by (subst stab_down.simps, simp)+

lemma stab_down_spec:
  "stab_down stabs ty l m \<le> m \<and> (l \<le> m + 1 \<longrightarrow> l - 1 \<le> stab_down stabs ty l m)
   \<and> (l \<le> stab_down stabs ty l m \<longrightarrow> n_type (stabs (stab_down stabs ty l m)) = ty)
   \<and> (\<forall>k. stab_down stabs ty l m < k \<and> k \<le> m \<and> l \<le> k \<longrightarrow> n_type (stabs k) \<noteq> ty)"
proof (induction stabs ty l m rule: stab_down.induct)
  case (1 stabs ty l m)
  show ?case
  proof (cases "l \<le> m \<and> n_type (stabs m) \<noteq> ty")
    case True
    then have e: "stab_down stabs ty l m = stab_down stabs ty l (m - 1)" by (intro stab_down_step(1)) auto
    have "n_type (stabs k) \<noteq> ty" if "stab_down stabs ty l (m - 1) < k" "k \<le> m" "l \<le> k" for k
      using 1 [OF True] True that by (cases "k = m") auto
    then show ?thesis unfolding e using 1 [OF True] True by auto
  next
    case False
    then have e: "stab_down stabs ty l m = m" by (intro stab_down_step(2)) auto
    show ?thesis unfolding e using False by auto
  qed
qed

lemma half_between: "0 \<le> l \<Longrightarrow> l \<le> r \<Longrightarrow> l \<le> (l + r) sdiv 2 \<and> (l + r) sdiv 2 \<le> r" for l r :: int
  by (auto simp: signed_divide_int_def sgn_if)

text \<open>
  What the rounds keep: the stabs of the type below \<open>l\<close> are at or before the address \<open>a\<close> and those above
  \<open>r\<close> are behind it; \<open>left\<close> is the last of the former, if there is one. This needs a sorted table in which
  no stab of the type follows \<open>a\<close> by one.
\<close>

definition matching :: "(int \<Rightarrow> Stab) \<Rightarrow> int \<Rightarrow> int \<Rightarrow> u8 \<Rightarrow> int set" where
  "matching stabs L R ty = {i. L \<le> i \<and> i \<le> R \<and> n_type (stabs i) = ty}"

definition searchable :: "(int \<Rightarrow> Stab) \<Rightarrow> int set \<Rightarrow> u32 \<Rightarrow> bool" where
  "searchable stabs T a \<longleftrightarrow> a \<noteq> - 1 \<and> (\<forall>i\<in>T. \<forall>j\<in>T. i \<le> j \<longrightarrow> n_value (stabs i) \<le> n_value (stabs j))
     \<and> (\<forall>i\<in>T. n_value (stabs i) \<noteq> a + 1)"

definition bracketed :: "(int \<Rightarrow> Stab) \<Rightarrow> int \<Rightarrow> int \<Rightarrow> int set \<Rightarrow> u32 \<Rightarrow> int \<Rightarrow> int \<Rightarrow> u32 \<Rightarrow> int \<Rightarrow> int \<Rightarrow> bool \<Rightarrow> bool" where
  "bracketed stabs L R T a l r addr left right any \<longleftrightarrow> L \<le> l \<and> l \<le> r + 1 \<and> r \<le> R \<and> right = r \<and> (addr = a \<or> addr = a + 1)
     \<and> (\<forall>i\<in>T. i < l \<longrightarrow> n_value (stabs i) \<le> a \<and> i \<le> left) \<and> (\<forall>i\<in>T. r < i \<longrightarrow> a < n_value (stabs i))
     \<and> (left = L \<or> left \<in> T \<and> n_value (stabs left) \<le> a) \<and> left \<le> l \<and> (r = R \<or> r + 1 \<in> T)
     \<and> (\<not> any \<longrightarrow> r = R \<and> (\<forall>i\<in>T. l \<le> i)) \<and> (any \<longrightarrow> T \<noteq> {})"

text \<open>The four outcomes of a round that looks from \<open>t\<close> down to \<open>m\<close> keep the bracket.\<close>

lemma round_keeps:
  assumes s: "searchable stabs T a" and T: "T = matching stabs L R ty" and b: "bracketed stabs L R T a l r addr left right any"
    and t: "l \<le> t" "t \<le> r" and m: "m = stab_down stabs ty l t"
  shows "m < l \<Longrightarrow> bracketed stabs L R T a (t + 1) r addr left right any"
    and "l \<le> m \<Longrightarrow> n_value (stabs m) < addr \<Longrightarrow> bracketed stabs L R T a (t + 1) r addr m right True"
    and "l \<le> m \<Longrightarrow> n_value (stabs m) > addr \<Longrightarrow> bracketed stabs L R T a l (m - 1) addr left (m - 1) True"
    and "l \<le> m \<Longrightarrow> n_value (stabs m) = addr \<Longrightarrow> bracketed stabs L R T a m r (addr + 1) m right True"
proof -
  note b' = b [unfolded bracketed_def]
  have m1: "m \<le> t" using stab_down_spec [of stabs ty l t] by (simp add: m)
  have mT: "m \<in> T" if "l \<le> m" using stab_down_spec [of stabs ty l t] b' t that by (auto simp: m T matching_def)
  have gap: "i \<le> m" if "i \<in> T" "l \<le> i" "i \<le> t" for i
  proof (rule ccontr)
    assume "\<not> i \<le> m"
    then have "n_type (stabs i) \<noteq> ty" using stab_down_spec [of stabs ty l t] that unfolding m by simp
    then show False using that(1) by (simp add: T matching_def)
  qed
  have srt: "n_value (stabs i) \<le> n_value (stabs j)" if "i \<in> T" "j \<in> T" "i \<le> j" for i j
    using s that by (simp add: searchable_def)
  have succ: "unat (a + 1) = unat a + 1" using s unatSuc [of a] by (simp add: searchable_def add.commute eq_neg_iff_add_eq_0)
  have ne: "unat (n_value (stabs i)) \<noteq> unat a + 1" if "i \<in> T" for i
    using s that succ by (metis searchable_def word_unat_eq_iff)
  have le: "n_value (stabs m) \<le> a" if "l \<le> m" "n_value (stabs m) \<le> addr"
    using ne [OF mT [OF that(1)]] that(2) b' succ by (auto simp: word_le_nat_alt)
  have gt: "a < n_value (stabs m)" if "l \<le> m" "addr < n_value (stabs m)"
    using that(2) b' succ by (auto simp: word_less_nat_alt)
  have ex: "addr = a" if "l \<le> m" "n_value (stabs m) = addr"
    using ne [OF mT [OF that(1)]] that(2) b' succ by auto
  show "bracketed stabs L R T a (t + 1) r addr left right any" if "m < l"
    using b' t that unfolding bracketed_def by (smt (verit, ccfv_threshold) gap)
  show "bracketed stabs L R T a (t + 1) r addr m right True" if "l \<le> m" "n_value (stabs m) < addr"
  proof -
    have "n_value (stabs i) \<le> a \<and> i \<le> m" if "i \<in> T" "i < t + 1" for i
      using gap [of i] srt [OF \<open>i \<in> T\<close> mT] le \<open>l \<le> m\<close> \<open>n_value (stabs m) < addr\<close> that by (cases "l \<le> i") (auto intro: order_trans)
    then show ?thesis using b' t that mT m1 le unfolding bracketed_def by auto
  qed
  show "bracketed stabs L R T a l (m - 1) addr left (m - 1) True" if "l \<le> m" "n_value (stabs m) > addr"
  proof -
    have "a < n_value (stabs i)" if "i \<in> T" "m - 1 < i" for i
      using srt [OF mT \<open>i \<in> T\<close>] gt \<open>l \<le> m\<close> \<open>n_value (stabs m) > addr\<close> that by (auto intro: less_le_trans)
    then show ?thesis using b' t that mT m1 unfolding bracketed_def by auto
  qed
  show "bracketed stabs L R T a m r (addr + 1) m right True" if "l \<le> m" "n_value (stabs m) = addr"
  proof -
    have "n_value (stabs i) \<le> a \<and> i \<le> m" if "i \<in> T" "i < m" for i
      using srt [OF \<open>i \<in> T\<close> mT] le \<open>l \<le> m\<close> \<open>n_value (stabs m) = addr\<close> that by (auto intro: order_trans)
    then show ?thesis using b' t that mT m1 le ex unfolding bracketed_def by auto
  qed
qed

text \<open>
  Every run returns: a round makes the region smaller, or it is an exact match at the left end of the
  region, after which the address is another one. In a table that can be searched the bracket closes.
\<close>

lemma stab_loop_returns:
  assumes "0 \<le> l"
  shows "\<exists>left' right' any'. stab_loop stabs ty l r addr left right any = Some (left', right', any')
    \<and> (searchable stabs T a \<and> T = matching stabs L R ty \<and> bracketed stabs L R T a l r addr left right any
       \<longrightarrow> (\<exists>addr'. bracketed stabs L R T a (right' + 1) right' addr' left' right' any'))"
  using assms
proof (induction "2 * nat (r - l + 1) + (if n_value (stabs l) = addr then 1 else 0)" arbitrary: l r addr left right any rule: less_induct)
  case less
  show ?case
  proof (cases "l \<le> r")
    case False
    then have "l = r + 1 \<and> right = r" if "bracketed stabs L R T a l r addr left right any" using that by (auto simp: bracketed_def)
    then show ?thesis using False by (auto simp: stab_loop.simps [of stabs ty l])
  next
    case True
    define t where "t = (l + r) sdiv 2"
    define m where "m = stab_down stabs ty l t"
    have t: "l \<le> t" "t \<le> r" using half_between [OF less.prems True] by (auto simp: t_def)
    have m: "m \<le> t" using stab_down_spec [of stabs ty l t] by (simp add: m_def)
    have step: "stab_loop stabs ty l r addr left right any =
       (if m < l then stab_loop stabs ty (t + 1) r addr left right any
        else if n_value (stabs m) < addr then stab_loop stabs ty (t + 1) r addr m right True
        else if n_value (stabs m) > addr then stab_loop stabs ty l (m - 1) addr left (m - 1) True
        else stab_loop stabs ty m r (addr + 1) m right True)"
      using True by (subst stab_loop.simps) (simp add: Let_def t_def m_def)
    note keeps = round_keeps [of stabs T a L R ty l r addr left right any t m, OF _ _ _ t m_def]
    have dec: "2 * nat (r - (t + 1) + 1) + (if n_value (stabs (t + 1)) = addr then 1 else 0)
        < 2 * nat (r - l + 1) + (if n_value (stabs l) = addr then 1 else 0)" using t by auto
    consider "m < l" | "l \<le> m" "n_value (stabs m) < addr" | "l \<le> m" "n_value (stabs m) > addr" | "l \<le> m" "n_value (stabs m) = addr" by fastforce
    then show ?thesis
    proof cases
      case 1
      then show ?thesis unfolding step using less.hyps [OF dec, of left right any] t less.prems keeps(1) by auto
    next
      case 2
      then show ?thesis unfolding step using less.hyps [OF dec, of m right True] t less.prems keeps(2) by auto
    next
      case 3
      then have "\<not> n_value (stabs m) < addr" by auto
      with 3 show ?thesis unfolding step using less.hyps [of "m - 1" l addr left "m - 1" True] t m less.prems keeps(3) by auto
    next
      case 4
      have "2 * nat (r - m + 1) + (if n_value (stabs m) = addr + 1 then 1 else 0)
          < 2 * nat (r - l + 1) + (if n_value (stabs l) = addr then 1 else 0)"
        using 4 t m by (cases "m = l") auto
      with 4 show ?thesis unfolding step using less.hyps [of r m "addr + 1" m right True] less.prems keeps(4) by auto
    qed
  qed
qed

lemma stab_down_none: "(\<forall>k. l \<le> k \<and> k \<le> m \<longrightarrow> n_type (stabs k) \<noteq> ty) \<Longrightarrow> stab_down stabs ty l m = min m (l - 1)"
proof (cases "l \<le> m")
  case True
  assume "\<forall>k. l \<le> k \<and> k \<le> m \<longrightarrow> n_type (stabs k) \<noteq> ty"
  then have "\<not> l \<le> stab_down stabs ty l m" using stab_down_spec [of stabs ty l m] by blast
  then show ?thesis using stab_down_spec [of stabs ty l m] True by linarith
qed (simp add: stab_down_step(2))

text \<open>
  C38. The search for a symbol ends. On every table and every region with a left end that is not negative,
  sorted or not, \<open>stab_binsearch\<close> returns. If the stabs of the type are sorted by address and none is at
  \<open>addr + 1\<close>, then without a stab of the type the region comes back empty; otherwise its right end is
  just before the first stab of the type behind \<open>addr\<close>, and its left end is the last stab of the type at or
  before \<open>addr\<close>. If \<open>addr\<close> is before all of them the region does not come back empty: the left end is at most
  the right end.
\<close>

theorem stab_binsearch_returns:
  assumes "0 \<le> region_left" "region_left \<le> region_right + 1"
  shows "\<exists>left right. stab_binsearch stabs region_left region_right ty addr = Some (left, right)
    \<and> (searchable stabs (matching stabs region_left region_right ty) addr \<longrightarrow>
        (matching stabs region_left region_right ty = {} \<longrightarrow> left = region_left \<and> right = region_left - 1)
      \<and> (matching stabs region_left region_right ty \<noteq> {} \<longrightarrow>
          (\<forall>i\<in>matching stabs region_left region_right ty. i \<le> right \<longleftrightarrow> n_value (stabs i) \<le> addr)
          \<and> (right = region_right \<or> right + 1 \<in> matching stabs region_left region_right ty)
          \<and> ((\<exists>i\<in>matching stabs region_left region_right ty. n_value (stabs i) \<le> addr) \<longrightarrow>
               left \<in> matching stabs region_left region_right ty \<and> n_value (stabs left) \<le> addr
               \<and> (\<forall>i\<in>matching stabs region_left region_right ty. n_value (stabs i) \<le> addr \<longrightarrow> i \<le> left))
          \<and> left \<le> right))"
proof -
  define T where "T = matching stabs region_left region_right ty"
  obtain left right any where r: "stab_loop stabs ty region_left region_right addr region_left region_right False = Some (left, right, any)"
    and b: "searchable stabs T addr \<and> bracketed stabs region_left region_right T addr region_left region_right addr region_left region_right False
       \<longrightarrow> (\<exists>addr'. bracketed stabs region_left region_right T addr (right + 1) right addr' left right any)"
    using stab_loop_returns [OF assms(1), of stabs ty region_right addr region_left region_right False T addr region_left region_right] T_def by blast
  have start: "bracketed stabs region_left region_right T addr region_left region_right addr region_left region_right False"
    using assms by (auto simp: bracketed_def T_def matching_def)
  have e: "stab_binsearch stabs region_left region_right ty addr =
      Some (if any then (stab_down stabs ty (left + 1) right, right) else (left, left - 1))"
    by (simp add: stab_binsearch_def r)
  show ?thesis
  proof (cases "searchable stabs T addr")
    case False
    then show ?thesis unfolding T_def e by (cases any) auto
  next
    case True
    with b start obtain addr' where f: "bracketed stabs region_left region_right T addr (right + 1) right addr' left right any" by blast
    note f' = f [unfolded bracketed_def]
    have inT: "region_left \<le> i" "i \<le> region_right" if "i \<in> T" for i using that by (simp_all add: T_def matching_def)
    show ?thesis
    proof (cases any)
      case False
      have "T = {}" using f' False inT by fastforce
      then show ?thesis using f' False unfolding e T_def by simp
    next
      case any: True
      have iff: "i \<le> right \<longleftrightarrow> n_value (stabs i) \<le> addr" if "i \<in> T" for i
        using f' that by (meson leD not_le zless_add1_eq less_add_one order_le_less_trans)
      have "n_type (stabs k) \<noteq> ty" if "left + 1 \<le> k" "k \<le> right" for k
      proof
        assume "n_type (stabs k) = ty"
        moreover have "region_left \<le> left" "right \<le> region_right" using f' inT(1) by blast+
        ultimately have "k \<in> T" using that by (simp add: T_def matching_def)
        then show False using f' that by auto
      qed
      then have d: "stab_down stabs ty (left + 1) right = min right left" using stab_down_none [of "left + 1" right stabs ty] by simp
      have good: "min right left = left \<and> left \<in> T \<and> n_value (stabs left) \<le> addr \<and> (\<forall>i\<in>T. n_value (stabs i) \<le> addr \<longrightarrow> i \<le> left)"
        if "i \<in> T" "n_value (stabs i) \<le> addr" for i
      proof -
        have mx: "j \<le> left" if "j \<in> T" "n_value (stabs j) \<le> addr" for j using f' iff [OF that(1)] that by auto
        have "left \<in> T \<and> n_value (stabs left) \<le> addr" using f' mx [OF that] inT(1) [OF that(1)] that by (metis order_antisym)
        then show ?thesis using mx iff by auto
      qed
      show ?thesis unfolding e d T_def [symmetric] using any iff good f' by auto
    qed
  qed
qed

text \<open>A table of two functions at 16 and 32 and a line in between.\<close>

definition two_funs :: "int \<Rightarrow> Stab" where
  "two_funs i = \<lparr>n_strx = 0, n_type = (if i = 1 then N_SLINE else N_FUN), n_other = 0, n_desc = 0, n_value = (if i = 0 then 16 else if i = 1 then 20 else 32)\<rparr>"

theorem stab_binsearch_returns_witness:
  "\<exists>right. stab_binsearch two_funs 0 2 N_FUN 24 = Some (0, right) \<and> right = 1"
proof -
  have m: "matching two_funs 0 2 N_FUN = {0, 2}" by (auto simp: matching_def two_funs_def N_FUN_def N_SLINE_def)
  have s: "searchable two_funs {0, 2} 24" by (auto simp: searchable_def two_funs_def)
  obtain left right where r: "stab_binsearch two_funs 0 2 N_FUN 24 = Some (left, right)"
    and i: "\<forall>i\<in>{0, 2}. i \<le> right \<longleftrightarrow> n_value (two_funs i) \<le> 24" and n: "right = 2 \<or> right + 1 \<in> {0, 2}"
    and l: "(\<exists>i\<in>{0, 2}. n_value (two_funs i) \<le> 24) \<longrightarrow> left \<in> {0, 2} \<and> n_value (two_funs left) \<le> 24"
    using stab_binsearch_returns [of 0 2 two_funs N_FUN 24] s unfolding m by auto
  have "left = 0" "right = 1" using i n l by (auto simp: two_funs_def)
  then show ?thesis using r by simp
qed

end
