(* ===== verification/Pipe.thy ===== *)
theory Pipe
  imports Mmu "HOL-Library.Signed_Division" "HOL-Library.Sublist"
begin

text \<open>
  Pipes: \<open>lib/pipe.c\<close>. A reader and a writer share the page of a \<open>struct Pipe\<close> and may be interrupted at any
  point. Their loops are small machines; a step touches at most one variable that the other side
  changes, so every interleaving of the two programs is one of such steps.
\<close>

section \<open>Definitions\<close>

definition PIPEBUFSIZ :: nat where "PIPEBUFSIZ = 32"

record Pipe =
  p_rpos :: u32
  p_wpos :: u32
  p_buf :: "nat \<Rightarrow> u8"

text \<open>
  The index of a position in the buffer. Positions are signed; the remainder of a negative one is an
  index outside the buffer or 0.
\<close>

definition pipe_slot :: "u32 \<Rightarrow> nat option" where
  "pipe_slot pos = (let i = sint pos smod int PIPEBUFSIZ in if i < 0 then None else Some (nat i))"

text \<open>
  \<open>_pipeisclosed\<close> on what its rounds read: the run count of the environment, the reference counts of the
  pages of the descriptor and of the pipe, and the run count again. No value is a loop that goes on.
\<close>

fun pipe_closed :: "(u32 \<times> nat \<times> nat \<times> u32) list \<Rightarrow> bool option" where
  "pipe_closed [] = None"
| "pipe_closed ((n, ref_fd, ref_p, nn) # rounds) = (if n = nn then Some (ref_fd = ref_p) else pipe_closed rounds)"

text \<open>
  The program counters of \<open>devpipe_read\<close>: the head of the for loop, the test for an empty pipe, the test for
  a closed one, taking the byte and moving the position; then the result, or an access outside the
  buffer. \<open>r_buf\<close> is what is in the caller's buffer.
\<close>

datatype read_pc = Read_loop | Read_test | Read_closed | Read_take | Read_inc | Read_done int | Read_fault

record reader =
  r_pc :: read_pc
  r_i :: u32
  r_n :: u32
  r_buf :: "u8 list"

definition read_start :: "u32 \<Rightarrow> reader" where
  "read_start n = \<lparr>r_pc = Read_loop, r_i = 0, r_n = n, r_buf = []\<rparr>"

text \<open>A step; \<open>closed\<close> is the answer of \<open>_pipeisclosed\<close>, if it is asked.\<close>

definition devpipe_read :: "bool \<Rightarrow> Pipe \<Rightarrow> reader \<Rightarrow> Pipe \<times> reader" where
  "devpipe_read closed p r =
     (case r_pc r of
        Read_loop \<Rightarrow> (p, r\<lparr>r_pc := if r_i r < r_n r then Read_test else Read_done (sint (r_i r))\<rparr>)
      | Read_test \<Rightarrow>
          (p, r\<lparr>r_pc := if p_rpos p = p_wpos p then if r_i r > 0 then Read_done (sint (r_i r)) else Read_closed else Read_take\<rparr>)
      | Read_closed \<Rightarrow> (p, r\<lparr>r_pc := if closed then Read_done 0 else Read_test\<rparr>)
      | Read_take \<Rightarrow>
          (case pipe_slot (p_rpos p) of
             None \<Rightarrow> (p, r\<lparr>r_pc := Read_fault\<rparr>)
           | Some k \<Rightarrow> (p, r\<lparr>r_pc := Read_inc, r_buf := r_buf r @ [p_buf p k]\<rparr>))
      | Read_inc \<Rightarrow> (p\<lparr>p_rpos := p_rpos p + 1\<rparr>, r\<lparr>r_pc := Read_loop, r_i := r_i r + 1\<rparr>)
      | Read_done _ \<Rightarrow> (p, r) | Read_fault \<Rightarrow> (p, r))"

text \<open>The same for \<open>devpipe_write\<close>, whose comparison is unsigned; \<open>w_src\<close> is the caller's buffer.\<close>

datatype write_pc = Write_loop | Write_test | Write_closed | Write_put | Write_inc | Write_done int | Write_fault

record writer =
  w_pc :: write_pc
  w_i :: u32
  w_n :: u32
  w_src :: "nat \<Rightarrow> u8"

definition write_start :: "(nat \<Rightarrow> u8) \<Rightarrow> u32 \<Rightarrow> writer" where
  "write_start src n = \<lparr>w_pc = Write_loop, w_i = 0, w_n = n, w_src = src\<rparr>"

definition devpipe_write :: "bool \<Rightarrow> Pipe \<Rightarrow> writer \<Rightarrow> Pipe \<times> writer" where
  "devpipe_write closed p w =
     (case w_pc w of
        Write_loop \<Rightarrow> (p, w\<lparr>w_pc := if w_i w < w_n w then Write_test else Write_done (sint (w_i w))\<rparr>)
      | Write_test \<Rightarrow> (p, w\<lparr>w_pc := if p_wpos p \<ge> p_rpos p + of_nat PIPEBUFSIZ then Write_closed else Write_put\<rparr>)
      | Write_closed \<Rightarrow> (p, w\<lparr>w_pc := if closed then Write_done 0 else Write_test\<rparr>)
      | Write_put \<Rightarrow>
          (case pipe_slot (p_wpos p) of
             None \<Rightarrow> (p, w\<lparr>w_pc := Write_fault\<rparr>)
           | Some k \<Rightarrow> (p\<lparr>p_buf := (p_buf p)(k := w_src w (unat (w_i w)))\<rparr>, w\<lparr>w_pc := Write_inc\<rparr>))
      | Write_inc \<Rightarrow> (p\<lparr>p_wpos := p_wpos p + 1\<rparr>, w\<lparr>w_pc := Write_loop, w_i := w_i w + 1\<rparr>)
      | Write_done _ \<Rightarrow> (p, w) | Write_fault \<Rightarrow> (p, w))"

definition devpipe_stat_size :: "Pipe \<Rightarrow> int" where
  "devpipe_stat_size p = sint (p_wpos p - p_rpos p)"

section \<open>Interleavings\<close>

text \<open>
  A pipe with one reader and one writer, and the bytes that were put into it and taken out of it so far.
  Either side makes a step or, when its call has returned, calls again.
\<close>

record pipe_system =
  pipe :: Pipe
  rd :: reader
  wr :: writer
  sent :: "u8 list"
  received :: "u8 list"

definition fresh_pipe :: pipe_system where
  "fresh_pipe = \<lparr>pipe = \<lparr>p_rpos = 0, p_wpos = 0, p_buf = (\<lambda>_. 0)\<rparr>,
     rd = (read_start 0)\<lparr>r_pc := Read_done 0\<rparr>, wr = (write_start (\<lambda>_. 0) 0)\<lparr>w_pc := Write_done 0\<rparr>, sent = [], received = []\<rparr>"

definition reader_moves :: "bool \<Rightarrow> pipe_system \<Rightarrow> pipe_system" where
  "reader_moves closed s =
     (let (p, r) = devpipe_read closed (pipe s) (rd s)
      in s\<lparr>pipe := p, rd := r, received := received s @ drop (length (r_buf (rd s))) (r_buf r)\<rparr>)"

definition writer_moves :: "bool \<Rightarrow> pipe_system \<Rightarrow> pipe_system" where
  "writer_moves closed s =
     (let (p, w) = devpipe_write closed (pipe s) (wr s)
      in s\<lparr>pipe := p, wr := w, sent := sent s @ (if w_pc w = Write_inc then [w_src w (unat (w_i w))] else [])\<rparr>)"

inductive pipe_step :: "pipe_system \<Rightarrow> pipe_system \<Rightarrow> bool" where
  reader: "pipe_step s (reader_moves closed s)"
| writer: "pipe_step s (writer_moves closed s)"
| read_call: "r_pc (rd s) = Read_done r \<Longrightarrow> pipe_step s (s\<lparr>rd := read_start n\<rparr>)"
| write_call: "w_pc (wr s) = Write_done r \<Longrightarrow> pipe_step s (s\<lparr>wr := write_start src n\<rparr>)"

text \<open>
  What all interleavings keep. The bytes between the read position and the last byte put are in the
  buffer; the side that is between its test and its move has room or a byte.
\<close>

definition in_step :: "pipe_system \<Rightarrow> bool" where
  "in_step s \<longleftrightarrow>
     length (received s) = unat (p_rpos (pipe s)) + (if r_pc (rd s) = Read_inc then 1 else 0)
   \<and> length (sent s) = unat (p_wpos (pipe s)) + (if w_pc (wr s) = Write_inc then 1 else 0)
   \<and> unat (p_rpos (pipe s)) + (if r_pc (rd s) = Read_take \<or> r_pc (rd s) = Read_inc then 1 else 0) \<le> unat (p_wpos (pipe s))
   \<and> unat (p_wpos (pipe s)) + (if w_pc (wr s) = Write_put \<or> w_pc (wr s) = Write_inc then 1 else 0) \<le> unat (p_rpos (pipe s)) + 32
   \<and> (\<forall>k. unat (p_rpos (pipe s)) \<le> k \<and> k < length (sent s) \<longrightarrow> p_buf (pipe s) (k mod 32) = sent s ! k)
   \<and> prefix (received s) (sent s)
   \<and> length (r_buf (rd s)) = unat (r_i (rd s)) + (if r_pc (rd s) = Read_inc then 1 else 0)
   \<and> suffix (r_buf (rd s)) (received s)
   \<and> (r_pc (rd s) = Read_closed \<longrightarrow> r_i (rd s) = 0)
   \<and> (\<forall>r. r_pc (rd s) = Read_done r \<longrightarrow> r = int (length (r_buf (rd s))))
   \<and> r_pc (rd s) \<noteq> Read_fault \<and> w_pc (wr s) \<noteq> Write_fault"

section \<open>First in, first out\<close>

lemma pipe_slot_small:
  assumes "unat pos < 2 ^ 31"
  shows "pipe_slot pos = Some (unat pos mod 32)"
proof -
  have s: "sint pos = int (unat pos)" by (rule sint_small [OF assms])
  have "int n smod int 32 = int (n mod 32)" for n by (simp add: smod_int_alt_def zmod_int sgn_if)
  then show ?thesis unfolding pipe_slot_def s PIPEBUFSIZ_def by (simp only: Let_def nat_int of_nat_less_0_iff if_False)
qed

text \<open>The shape of an invariant after a move of the reader that only changes its program counter.\<close>

lemma reader_pc_in_step:
  assumes "in_step s" "r_pc (rd s) \<noteq> Read_inc" "pc \<noteq> Read_inc" "pc \<noteq> Read_fault"
    and "pc = Read_take \<longrightarrow> unat (p_rpos (pipe s)) < unat (p_wpos (pipe s))" "pc = Read_closed \<longrightarrow> r_i (rd s) = 0"
    and "\<forall>r. pc = Read_done r \<longrightarrow> r = int (length (r_buf (rd s)))"
  shows "in_step (s\<lparr>rd := (rd s)\<lparr>r_pc := pc\<rparr>\<rparr>)"
  using assms unfolding in_step_def by auto

lemma reader_in_step:
  assumes "in_step s" "length (sent s) < 2 ^ 31"
  shows "in_step (reader_moves closed s)"
proof -
  note I = assms(1) [unfolded in_step_def]
  have rb: "length (r_buf (rd s)) \<le> length (received s)" using I suffix_length_le by blast
  have rp: "unat (p_rpos (pipe s)) < 2 ^ 31" "unat (p_wpos (pipe s)) < 2 ^ 31" "unat (r_i (rd s)) < 2 ^ 31"
    using I assms(2) rb by (auto split: if_splits)
  have si: "sint (r_i (rd s)) = int (unat (r_i (rd s)))" by (rule sint_small [OF rp(3)])
  have pc: "reader_moves closed s = s\<lparr>rd := (rd s)\<lparr>r_pc := pc\<rparr>\<rparr>"
    if "devpipe_read closed (pipe s) (rd s) = (pipe s, (rd s)\<lparr>r_pc := pc\<rparr>)" for pc
    using that by (simp add: reader_moves_def)
  show ?thesis
  proof (cases "r_pc (rd s)")
    case Read_loop
    then show ?thesis using I assms si by (subst pc) (auto simp: devpipe_read_def split: if_splits intro!: reader_pc_in_step)
  next
    case Read_test
    have "unat (p_rpos (pipe s)) < unat (p_wpos (pipe s))" if "p_rpos (pipe s) \<noteq> p_wpos (pipe s)"
      using I that by (metis add_leE le_neq_implies_less word_unat_eq_iff)
    moreover have "r_i (rd s) = 0" if "\<not> r_i (rd s) > 0" using that by (simp add: word_neq_0_conv [symmetric])
    ultimately show ?thesis using I assms si Read_test by (subst pc) (auto simp: devpipe_read_def split: if_splits intro!: reader_pc_in_step)
  next
    case Read_closed
    then show ?thesis using I assms si by (subst pc) (auto simp: devpipe_read_def split: if_splits intro!: reader_pc_in_step)
  next
    case Read_take
    let ?k = "unat (p_rpos (pipe s))"
    have k: "length (received s) = ?k" "?k < length (sent s)" using I Read_take by (auto split: if_splits)
    have "p_buf (pipe s) (?k mod 32) = sent s ! ?k" using I k by blast
    moreover have "prefix (received s @ [sent s ! ?k]) (sent s)" using I k append_one_prefix [of "received s" "sent s"] by simp
    moreover have "suffix (r_buf (rd s) @ [b]) (received s @ [b])" for b using I by simp
    ultimately show ?thesis using I Read_take pipe_slot_small [OF rp(1)] k
      by (simp add: reader_moves_def devpipe_read_def in_step_def)
  next
    case Read_inc
    have "unat (p_rpos (pipe s) + 1) = unat (p_rpos (pipe s)) + 1" "unat (r_i (rd s) + 1) = unat (r_i (rd s)) + 1"
      using rp by (simp_all add: unat_word_ariths)
    then show ?thesis using I Read_inc by (auto simp: reader_moves_def devpipe_read_def in_step_def)
  next
    case (Read_done r)
    then show ?thesis using assms by (simp add: reader_moves_def devpipe_read_def)
  next
    case Read_fault
    then show ?thesis using I by simp
  qed
qed

lemma writer_pc_in_step:
  assumes "in_step s" "w_pc (wr s) \<noteq> Write_inc" "pc \<noteq> Write_inc" "pc \<noteq> Write_fault"
    and "pc = Write_put \<longrightarrow> unat (p_wpos (pipe s)) < unat (p_rpos (pipe s)) + 32"
  shows "in_step (s\<lparr>wr := (wr s)\<lparr>w_pc := pc\<rparr>\<rparr>)"
  using assms unfolding in_step_def by auto

lemma writer_in_step:
  assumes "in_step s" "length (sent (writer_moves closed s)) < 2 ^ 31"
  shows "in_step (writer_moves closed s)"
proof -
  note I = assms(1) [unfolded in_step_def]
  have ln: "length (sent s) < 2 ^ 31" using assms(2) by (auto simp: writer_moves_def split: prod.splits)
  have wp: "unat (p_rpos (pipe s)) < 2 ^ 31" "unat (p_wpos (pipe s)) < 2 ^ 31" using I ln by (auto split: if_splits)
  have pc: "writer_moves closed s = s\<lparr>wr := (wr s)\<lparr>w_pc := pc\<rparr>\<rparr>"
    if "devpipe_write closed (pipe s) (wr s) = (pipe s, (wr s)\<lparr>w_pc := pc\<rparr>)" "pc \<noteq> Write_inc" for pc
    using that by (simp add: writer_moves_def)
  show ?thesis
  proof (cases "w_pc (wr s)")
    case Write_loop
    then show ?thesis using assms(1) by (subst pc) (auto simp: devpipe_write_def split: if_splits intro!: writer_pc_in_step)
  next
    case Write_test
    have "unat (p_rpos (pipe s) + of_nat PIPEBUFSIZ) = unat (p_rpos (pipe s)) + 32"
      using wp(1) by (simp add: PIPEBUFSIZ_def unat_word_ariths)
    then show ?thesis using assms(1) Write_test
      by (subst pc) (auto simp: devpipe_write_def word_le_nat_alt split: if_splits intro!: writer_pc_in_step)
  next
    case Write_closed
    then show ?thesis using assms(1) by (subst pc) (auto simp: devpipe_write_def split: if_splits intro!: writer_pc_in_step)
  next
    case Write_put
    let ?n = "unat (p_wpos (pipe s))" and ?b = "w_src (wr s) (unat (w_i (wr s)))"
    have n: "length (sent s) = ?n" "?n < unat (p_rpos (pipe s)) + 32" using I Write_put by (auto split: if_splits)
    have m: "k mod 32 \<noteq> ?n mod 32" if "unat (p_rpos (pipe s)) \<le> k" "k < ?n" for k
    proof
      assume "k mod 32 = ?n mod 32"
      then have "32 dvd ?n - k" using mod_eq_dvd_iff_nat [of k ?n 32] that by simp
      then show False using that n(2) by (auto dest!: dvd_imp_le)
    qed
    have buf: "((p_buf (pipe s))(?n mod 32 := ?b)) (k mod 32) = (sent s @ [?b]) ! k"
      if "unat (p_rpos (pipe s)) \<le> k" "k < Suc ?n" for k
      using I n(1) m [of k] that by (cases "k = ?n") (auto simp: nth_append)
    have "prefix (received s) (sent s @ [?b])" using I by simp
    moreover have "?n + 1 \<le> unat (p_rpos (pipe s)) + 32" using n(2) by simp
    ultimately show ?thesis using I Write_put pipe_slot_small [OF wp(2)] n buf
      by (auto simp: writer_moves_def devpipe_write_def in_step_def simp del: fun_upd_apply)
  next
    case Write_inc
    have "unat (p_wpos (pipe s) + 1) = unat (p_wpos (pipe s)) + 1" using wp by (simp add: unat_word_ariths)
    then show ?thesis using I Write_inc by (auto simp: writer_moves_def devpipe_write_def in_step_def)
  next
    case (Write_done r)
    then show ?thesis using assms(1) by (simp add: writer_moves_def devpipe_write_def)
  next
    case Write_fault
    then show ?thesis using I by simp
  qed
qed

lemma call_in_step:
  "in_step s \<Longrightarrow> r_pc (rd s) = Read_done r \<Longrightarrow> in_step (s\<lparr>rd := read_start n\<rparr>)"
  "in_step s \<Longrightarrow> w_pc (wr s) = Write_done r' \<Longrightarrow> in_step (s\<lparr>wr := write_start src n\<rparr>)"
  unfolding in_step_def read_start_def write_start_def by auto

lemma pipe_step_sent: "pipe_step s s' \<Longrightarrow> length (sent s) \<le> length (sent s')"
  by (auto elim!: pipe_step.cases simp: reader_moves_def writer_moves_def split: prod.splits)

lemma pipe_run_in_step: "pipe_step\<^sup>*\<^sup>* fresh_pipe s \<Longrightarrow> length (sent s) < 2 ^ 31 \<Longrightarrow> in_step s"
proof (induction rule: rtranclp_induct)
  case base
  show ?case by (simp add: in_step_def fresh_pipe_def read_start_def write_start_def)
next
  case (step s s')
  have "in_step s" "length (sent s) < 2 ^ 31" using step pipe_step_sent [OF step(2)] by simp_all
  with step(2,4) show ?case by cases (auto intro: reader_in_step writer_in_step call_in_step)
qed

text \<open>
  C40. A pipe is first in, first out under every interleaving of one reader and one writer, over any
  number of calls, until \<open>2\<^sup>31\<close> bytes went through it: the bytes taken out are the first of the bytes put
  in, at most 32 bytes are on the way, no access is outside the buffer, and when a read returns, its result
  is the number of bytes in the caller's buffer, which are the last ones taken out.
\<close>

theorem pipe_fifo:
  assumes "pipe_step\<^sup>*\<^sup>* fresh_pipe s" "length (sent s) < 2 ^ 31"
  shows "(\<exists>rest. sent s = received s @ rest \<and> length rest \<le> 32) \<and> r_pc (rd s) \<noteq> Read_fault \<and> w_pc (wr s) \<noteq> Write_fault
    \<and> (\<forall>r. r_pc (rd s) = Read_done r \<longrightarrow> r = int (length (r_buf (rd s))) \<and> suffix (r_buf (rd s)) (received s))"
proof -
  note I = pipe_run_in_step [OF assms, unfolded in_step_def]
  obtain rest where rest: "sent s = received s @ rest" using I by (auto simp: prefix_def)
  have "length rest \<le> 32" using I arg_cong [OF rest, of length] by (auto split: if_splits)
  then show ?thesis using I rest by blast
qed

theorem pipe_fifo_witness:
  "\<exists>s. pipe_step\<^sup>*\<^sup>* fresh_pipe s \<and> received s = [7] \<and> (\<exists>rest. sent s = received s @ rest \<and> length rest \<le> 32)"
proof -
  let ?W = "writer_moves False" and ?R = "reader_moves False"
  define s1 where "s1 = fresh_pipe\<lparr>wr := write_start (\<lambda>_. 7) 1\<rparr>"
  define s2 where "s2 = (?W (?W (?W (?W s1))))\<lparr>rd := read_start 1\<rparr>"
  define s where "s = ?R (?R (?R s2))"
  have w: "pipe_step\<^sup>*\<^sup>* a (?W a)" "pipe_step\<^sup>*\<^sup>* a (?R a)" for a by (blast intro: pipe_step.intros)+
  have "pipe_step\<^sup>*\<^sup>* fresh_pipe s1" unfolding s1_def
    by (rule r_into_rtranclp, rule pipe_step.write_call) (simp add: fresh_pipe_def)
  moreover have "pipe_step\<^sup>*\<^sup>* s1 (?W (?W (?W (?W s1))))" using w by (meson rtranclp_trans)
  moreover have "pipe_step\<^sup>*\<^sup>* (?W (?W (?W (?W s1)))) s2" unfolding s2_def
    by (rule r_into_rtranclp, rule pipe_step.read_call)
      (simp add: s1_def fresh_pipe_def writer_moves_def devpipe_write_def write_start_def PIPEBUFSIZ_def pipe_slot_small)
  moreover have "pipe_step\<^sup>*\<^sup>* s2 s" unfolding s_def using w by (meson rtranclp_trans)
  ultimately have run: "pipe_step\<^sup>*\<^sup>* fresh_pipe s" by (meson rtranclp_trans)
  have v: "sent s = [7] \<and> received s = [7]"
    by (simp add: s_def s2_def s1_def fresh_pipe_def writer_moves_def devpipe_write_def reader_moves_def devpipe_read_def
        write_start_def read_start_def PIPEBUFSIZ_def pipe_slot_small)
  then show ?thesis using pipe_fifo [OF run] run by auto
qed

end
