(* ===== verification/Spec2Isabelle.thy ===== *)
theory Spec2Isabelle
  imports Trap_Inv Printfmt Spinlock Fs_Inv Serv Kdebug Pipe
begin

end
